theory Spec2Isabelle
  imports Main "HOL-Library.Word" "HOL-Library.Multiset_Order"
begin

section \<open>Lowering for the LLVM backend (src/coreclr/jit/llvmlower.cpp)\<close>

text \<open>
  The JIT keeps IR nodes, basic blocks and local-variable descriptors as heap objects that
  are reached through pointers. Here an object is identified by a natural number, the
  objects live in stores (functions from identities to records), and a counter beside each
  store gives the identity of the next object that is allocated. A null pointer is
  \<open>None\<close>. The machine address at which a run of the compiler places a node is kept
  apart from its identity (\<open>nodeAddress\<close> below), because it differs between runs.
\<close>

unbundle bit_operations_syntax

datatype error =
    IMPL_LIMITATION string   \<comment> \<open>the macro \<open>IMPL_LIMITATION(msg)\<close>: fatal, aborts the compilation\<close>
  | Unreached                \<comment> \<open>\<open>unreached()\<close>\<close>
  | InvalidRead              \<comment> \<open>a null pointer, an uninitialised variable or a table out of its bounds is read\<close>
  | Diverges                 \<comment> \<open>a loop of the source does not terminate\<close>

definition bindE :: "error + 'a \<Rightarrow> ('a \<Rightarrow> error + 'b) \<Rightarrow> error + 'b" where
  "bindE m f = (case m of Inl e \<Rightarrow> Inl e | Inr x \<Rightarrow> f x)"

subsection \<open>Enumerations\<close>

datatype var_types = TYP_VOID | TYP_INT | TYP_LONG | TYP_I_IMPL | TYP_REF | TYP_BYREF | TYP_STRUCT

datatype genTreeOps =
    GT_LCL_VAR | GT_LCL_FLD | GT_LCL_ADDR | GT_STORE_LCL_VAR | GT_STORE_LCL_FLD
  | GT_CALL | GT_CATCH_ARG | GT_IND | GT_BLK | GT_NULLCHECK | GT_STOREIND
  | GT_STORE_BLK | GT_STORE_DYN_BLK | GT_DIV | GT_MOD | GT_UDIV | GT_UMOD
  | GT_RETURN | GT_LCLHEAP | GT_FIELD_LIST | GT_CNS_INT | GT_ADD | GT_INIT_VAL
  | GT_OTHER nat

datatype gtflag =
    GTF_ORDER_SIDEEFF | GTF_IND_NONFAULTING | GTF_VAR_USEASG | GTF_VAR_DEF
  | GTF_CALL_NULLCHECK | GTF_CALL_VIRT_STUB

datatype gtcallflag =
    GTF_CALL_M_TAILCALL | GTF_CALL_M_NORETURN | GTF_CALL_M_DELEGATE_INV | GTF_CALL_M_UNMANAGED
  | GTF_CALL_M_SUPPRESS_GC_TRANSITION | GTF_CALL_M_VARARGS | GTF_CALL_M_VIRTSTUB_REL_INDIRECT

datatype gtCallTypes = CT_USER_FUNC | CT_HELPER | CT_INDIRECT

datatype CorInfoHelpFunc =
    CORINFO_HELP_RETHROW | CORINFO_HELP_OVERFLOW | CORINFO_HELP_LLVM_EH_UNHANDLED_EXCEPTION
  | CORINFO_HELP_LLVM_RESOLVE_INTERFACE_CALL_TARGET | CORINFO_HELP_JIT_PINVOKE_BEGIN
  | CORINFO_HELP_JIT_PINVOKE_END | CORINFO_HELP_OTHER nat

datatype CorInfoType =
    CORINFO_TYPE_UNDEF | CORINFO_TYPE_PTR | CORINFO_TYPE_CLASS | CORINFO_TYPE_BYREF
  | CORINFO_TYPE_OTHER nat

datatype WellKnownArg =
    WKA_None | WKA_ThisPointer | WKA_RetBuffer | WKA_InstParam | WKA_VirtualStubCell

datatype BBjumpKinds = BBJ_THROW | BBJ_NONE | BBJ_RETURN | BBJ_ALWAYS | BBJ_COND

datatype bbflag = BBF_DONT_REMOVE | BBF_TRY_BEG | BBF_IMPORTED | BBF_INTERNAL | BBF_MARKED

datatype BBCT = BBCT_NONE | BBCT_FILTER | BBCT_FILTER_HANDLER | BBCT_CATCH nat

datatype EHHandlerType = EH_HANDLER_CATCH | EH_HANDLER_FILTER | EH_HANDLER_FAULT | EH_HANDLER_FINALLY

datatype SpecialCodeKind = SCK_NULL_REF_EXCPN | SCK_DIV_BY_ZERO | SCK_OVERFLOW

datatype PromotionType = PROMOTION_TYPE_NONE | PROMOTION_TYPE_INDEPENDENT | PROMOTION_TYPE_DEPENDENT

subsection \<open>IR nodes\<close>

record CallArg =
  argNode :: nat                      \<comment> \<open>\<open>GetNode()\<close>, \<open>EarlyNodeRef()\<close>\<close>
  argWellKnown :: WellKnownArg
  argSigCorInfoType :: CorInfoType    \<comment> \<open>\<open>GetSignatureCorInfoType()\<close>\<close>
  argSigType :: var_types             \<comment> \<open>\<open>GetSignatureType()\<close>\<close>
  argSigClass :: nat                  \<comment> \<open>\<open>GetSignatureClassHandle()\<close>\<close>
  abiIsPointer :: bool                \<comment> \<open>\<open>AbiInfo.IsPointer\<close>\<close>
  abiArgType :: var_types             \<comment> \<open>\<open>AbiInfo.ArgType\<close>\<close>

record GenTree =
  gtOper :: genTreeOps
  gtType :: var_types
  gtFlags :: "gtflag set"
  gtLIRMark :: bool                   \<comment> \<open>\<open>gtLIRFlags & LIR::Flags::Mark\<close>\<close>
  gtLIRUnusedValue :: bool            \<comment> \<open>\<open>gtLIRFlags & LIR::Flags::UnusedValue\<close>\<close>
  gtContained :: bool                 \<comment> \<open>\<open>isContained()\<close>\<close>
  gtOps :: "nat list"                 \<comment> \<open>the operands of a node that is not a call\<close>
  gtLclNum :: nat
  gtLclOffs :: nat
  gtLayout :: nat                     \<comment> \<open>the \<open>ClassLayout*\<close> of a block, field or call node\<close>
  gtIconVal :: int
  gtIconHandle :: bool                \<comment> \<open>\<open>IsIconHandle()\<close>\<close>
  gtCallType :: gtCallTypes
  gtCallHelper :: "CorInfoHelpFunc option"   \<comment> \<open>the helper of a helper call\<close>
  gtCallMoreFlags :: "gtcallflag set"
  gtArgs :: "CallArg list"
  gtControlExpr :: "nat option"
  gtCallCookie :: "nat option"
  gtCallAddr :: "nat option"
  gtStubCallStubAddr :: "nat option"
  gtCorInfoType :: CorInfoType
  gtRetClsHnd :: nat
  gtEntryPoint :: "nat option"

definition blankNode :: "genTreeOps \<Rightarrow> var_types \<Rightarrow> GenTree" where
  "blankNode oper typ = \<lparr>gtOper = oper, gtType = typ, gtFlags = {}, gtLIRMark = False,
     gtLIRUnusedValue = False, gtContained = False, gtOps = [], gtLclNum = 0, gtLclOffs = 0,
     gtLayout = 0, gtIconVal = 0, gtIconHandle = False, gtCallType = CT_USER_FUNC,
     gtCallHelper = None, gtCallMoreFlags = {}, gtArgs = [], gtControlExpr = None,
     gtCallCookie = None, gtCallAddr = None, gtStubCallStubAddr = None,
     gtCorInfoType = CORINFO_TYPE_UNDEF, gtRetClsHnd = 0, gtEntryPoint = None\<rparr>"

fun optList :: "'a option \<Rightarrow> 'a list" where
  "optList None = []"
| "optList (Some x) = [x]"

text \<open>
  \<open>UseEdges()\<close>: the operand edges of a node, in order. Those of a call are its argument
  nodes, then the control expression, the cookie and the call address where present.
\<close>
definition UseEdges :: "GenTree \<Rightarrow> nat list" where
  "UseEdges n =
     (if gtOper n = GT_CALL
      then map argNode (gtArgs n) @ optList (gtControlExpr n) @ optList (gtCallCookie n) @
           optList (gtCallAddr n)
      else gtOps n)"

text \<open>\<open>*use = v\<close> for the \<open>i\<close>-th operand edge of a node.\<close>
definition setUseEdge :: "nat \<Rightarrow> nat \<Rightarrow> GenTree \<Rightarrow> GenTree" where
  "setUseEdge i v n =
     (if gtOper n = GT_CALL then
        (let na = length (gtArgs n); nc = length (optList (gtControlExpr n));
             nk = length (optList (gtCallCookie n))
         in if i < na then n\<lparr>gtArgs := (gtArgs n)[i := (gtArgs n ! i)\<lparr>argNode := v\<rparr>]\<rparr>
            else if i < na + nc then n\<lparr>gtControlExpr := Some v\<rparr>
            else if i < na + nc + nk then n\<lparr>gtCallCookie := Some v\<rparr>
            else if gtCallAddr n \<noteq> None then n\<lparr>gtCallAddr := Some v\<rparr>
            else n)
      else n\<lparr>gtOps := (gtOps n)[i := v]\<rparr>)"

definition varTypeIsGC :: "var_types \<Rightarrow> bool" where
  "varTypeIsGC t = (t = TYP_REF \<or> t = TYP_BYREF)"

definition OperIsLocal :: "genTreeOps \<Rightarrow> bool" where
  "OperIsLocal oper = (oper \<in> {GT_LCL_VAR, GT_LCL_FLD, GT_STORE_LCL_VAR, GT_STORE_LCL_FLD})"

definition OperIsLocalStore :: "genTreeOps \<Rightarrow> bool" where
  "OperIsLocalStore oper = (oper \<in> {GT_STORE_LCL_VAR, GT_STORE_LCL_FLD})"

subsection \<open>Local variables\<close>

record LclVarDsc =
  lvType :: var_types
  lvLayout :: nat
  lvIsParam :: bool
  lvTracked :: bool
  lvLiveInOutOfHndlr :: bool
  lvHasExplicitInit :: bool
  lvRefCnt :: nat
  lvPromotionType :: PromotionType    \<comment> \<open>\<open>lvaGetPromotionType(varDsc)\<close>\<close>
  lvIsStructField :: bool
  lvFieldCnt :: nat
  lvFieldLclStart :: nat
  lvFldOffset :: nat
  lvParentLcl :: nat
  lvImplicitlyReferenced :: bool

definition blankLclVarDsc :: LclVarDsc where
  "blankLclVarDsc = \<lparr>lvType = TYP_VOID, lvLayout = 0, lvIsParam = False, lvTracked = False,
     lvLiveInOutOfHndlr = False, lvHasExplicitInit = False, lvRefCnt = 0,
     lvPromotionType = PROMOTION_TYPE_NONE, lvIsStructField = False, lvFieldCnt = 0,
     lvFieldLclStart = 0, lvFldOffset = 0, lvParentLcl = 0,
     lvImplicitlyReferenced = False\<rparr>"

subsection \<open>Blocks and exception regions\<close>

text \<open>Trees of the statement form of the IR, as far as \<open>AddUnhandledExceptionHandler\<close> builds them.\<close>

datatype Statement =
    CatchArgTree var_types "gtflag set"
  | HelperCallTree CorInfoHelpFunc var_types "Statement list"

record BasicBlock =
  bbKind :: BBjumpKinds
  bbFlags :: "bbflag set"
  bbTryIndex :: "nat option"      \<comment> \<open>\<open>hasTryIndex()\<close>, \<open>getTryIndex()\<close>\<close>
  bbHndIndex :: "nat option"      \<comment> \<open>\<open>hasHndIndex()\<close>, \<open>getHndIndex()\<close>\<close>
  bbCatchTyp :: BBCT
  bbCodeOffs :: nat
  bbCodeOffsEnd :: nat
  bbStmtList :: "Statement list"
  bbRange :: "nat list"           \<comment> \<open>\<open>LIR::AsRange(block)\<close>: the block's nodes in execution order\<close>

record EHblkDsc =
  ebdHandlerType :: EHHandlerType
  ebdTryBeg :: nat
  ebdTryLast :: nat
  ebdFilter :: "nat option"
  ebdHndBeg :: nat
  ebdHndLast :: nat
  ebdEnclosingTryIndex :: "16 word"   \<comment> \<open>\<open>unsigned short\<close>\<close>
  ebdEnclosingHndIndex :: "16 word"
  ebdTryBegOffset :: nat
  ebdTryEndOffset :: nat
  ebdFilterBegOffset :: nat
  ebdHndBegOffset :: nat
  ebdHndEndOffset :: nat

definition NO_ENCLOSING_INDEX :: "16 word" where
  "NO_ENCLOSING_INDEX = 0xFFFF"

subsection \<open>The compiler's state\<close>

record IR =
  nodes :: "nat \<Rightarrow> GenTree"
  nextNode :: nat                     \<comment> \<open>the identity the next new node gets\<close>
  lvaTable :: "nat \<Rightarrow> LclVarDsc"
  lvaCount :: nat

record Compiler = IR +
  opts_IsReversePInvoke :: bool
  blocks :: "nat \<Rightarrow> BasicBlock"
  nextBlock :: nat                    \<comment> \<open>the identity the next new block gets\<close>
  fgOrder :: "nat list"               \<comment> \<open>the \<open>bbNext\<close> chain from \<open>fgFirstBB\<close> to \<open>fgLastBB\<close>\<close>
  fgFirstBBScratch :: "nat option"
  compHndBBtab :: "EHblkDsc list"     \<comment> \<open>\<open>compHndBBtabCount\<close> is its length\<close>
  fgCodeRefs :: "(nat \<times> SpecialCodeKind) list"   \<comment> \<open>what \<open>fgAddCodeRef\<close> has registered\<close>
  prologInits :: "(nat \<times> nat) list"  \<comment> \<open>what \<open>initializeLocalInProlog\<close> has stored: local, value node\<close>

record Llvm = Compiler +
  m_currentBlock :: "nat option"
  m_currentRange :: "nat list"        \<comment> \<open>\<open>CurrentRange()\<close>\<close>
  m_lclHeapUsed :: bool
  shadowStackLclNum :: nat            \<comment> \<open>\<open>_shadowStackLclNum\<close>\<close>
  shadowStackLocals :: "nat list"     \<comment> \<open>the locals handed to \<open>assignShadowStackOffsets\<close>\<close>

text \<open>
  The collaborators of the pass that are not in this file: queries of the type system and
  the ABI, tables of the IR, and the properties of one run.
\<close>
record Oracles =
  gcSafePointTable :: "genTreeOps \<Rightarrow> gtCallTypes \<Rightarrow> CorInfoHelpFunc option \<Rightarrow> gtcallflag set \<Rightarrow> bool"
     \<comment> \<open>\<open>isPotentialGcSafePoint\<close>, from the operator and, for a call, its target and flags\<close>
  operIsNoValue :: "genTreeOps \<Rightarrow> bool"         \<comment> \<open>\<open>GTK_NOVALUE\<close> in the operator table\<close>
  layoutHasGCPtr :: "nat \<Rightarrow> bool"                 \<comment> \<open>\<open>ClassLayout::HasGCPtr\<close>\<close>
  typeCode :: "var_types \<Rightarrow> 32 word"              \<comment> \<open>the value of a \<open>var_types\<close> enumerator\<close>
  operCode :: "genTreeOps \<Rightarrow> 32 word"             \<comment> \<open>the value of a \<open>genTreeOps\<close> enumerator\<close>
  tablePlace :: "32 word list \<Rightarrow> 32 word \<Rightarrow> nat" \<comment> \<open>where \<open>SmallHashTable\<close> puts a new key\<close>
  nodeAddress :: "nat \<Rightarrow> nat"                      \<comment> \<open>where this run has placed each node in memory\<close>
  HasCatchHandler :: "EHblkDsc \<Rightarrow> bool"
  fgAddrCouldBeNull :: "GenTree \<Rightarrow> bool"
  isThrowHelper :: "CorInfoHelpFunc \<Rightarrow> bool"     \<comment> \<open>the helpers for which \<open>fgIsThrow\<close> holds\<close>
  getLlvmTypeForStruct :: "nat \<Rightarrow> nat"
  typGetObjLayout :: "nat \<Rightarrow> nat"
  getLlvmReturnType :: "CorInfoType \<Rightarrow> nat \<Rightarrow> CorInfoType"
  getLlvmArgTypeForArg :: "CorInfoType \<Rightarrow> nat \<Rightarrow> CorInfoType"
  helperSigReturnType :: "CorInfoHelpFunc \<Rightarrow> CorInfoType"
  helperSigArgType :: "CorInfoHelpFunc \<Rightarrow> nat \<Rightarrow> CorInfoType"
  helperSigArgClass :: "CorInfoHelpFunc \<Rightarrow> nat \<Rightarrow> nat"
  toCorInfoType :: "var_types \<Rightarrow> CorInfoType"
  JITtype2varType :: "CorInfoType \<Rightarrow> var_types"
  getExternalMethodAccessor :: "GenTree \<Rightarrow> nat"
  offsetOfDelegateInstance :: int
  offsetOfDelegateFirstTarget :: int
  lvaInlinedPInvokeFrameVar :: nat
  compRetType :: var_types
  compRetTypeClass :: nat
  ehAnyFunclets :: bool
  isFuncletParameter :: "nat \<Rightarrow> bool"
  fgVarNeedsExplicitZeroInit :: "nat \<Rightarrow> bool"
  doUseDynamicStackForLclHeap :: bool
  canBeReplacedWithItsField :: "LclVarDsc \<Rightarrow> bool"
  isPartialLclFld :: "GenTree \<Rightarrow> bool"
  operMayDivideByZero :: "GenTree \<Rightarrow> bool"        \<comment> \<open>\<open>OperExceptions\<close> has \<open>DivideByZeroException\<close>\<close>
  operMayOverflow :: "GenTree \<Rightarrow> bool"            \<comment> \<open>\<open>OperExceptions\<close> has \<open>ArithmeticException\<close>\<close>

subsection \<open>The exception-region synthesizer: \<open>AddUnhandledExceptionHandler\<close>\<close>

definition hasTryIndex :: "BasicBlock \<Rightarrow> bool" where
  "hasTryIndex b = (bbTryIndex b \<noteq> None)"

definition updBlock :: "nat \<Rightarrow> (BasicBlock \<Rightarrow> BasicBlock) \<Rightarrow> 'a Compiler_scheme \<Rightarrow> 'a Compiler_scheme" where
  "updBlock b f c = c\<lparr>blocks := (blocks c)(b := f (blocks c b))\<rparr>"

definition blankBlock :: "BBjumpKinds \<Rightarrow> BasicBlock" where
  "blankBlock k = \<lparr>bbKind = k, bbFlags = {BBF_INTERNAL}, bbTryIndex = None, bbHndIndex = None,
     bbCatchTyp = BBCT_NONE, bbCodeOffs = 0, bbCodeOffsEnd = 0, bbStmtList = [], bbRange = []\<rparr>"

text \<open>
  Modelled from the spec: \<open>fgEnsureFirstBBisScratch\<close> is not in this file. The spec's step is
  "split off a new empty first block": a new empty block is put in front of the first block
  and becomes \<open>fgFirstBBScratch\<close>.
\<close>
definition fgEnsureFirstBBisScratch :: "'a Compiler_scheme \<Rightarrow> 'a Compiler_scheme" where
  "fgEnsureFirstBBisScratch c =
     (let b = nextBlock c in
      c\<lparr>blocks := (blocks c)(b := (blankBlock BBJ_NONE)\<lparr>bbFlags := {BBF_INTERNAL, BBF_IMPORTED}\<rparr>),
        nextBlock := Suc b,
        fgOrder := b # fgOrder c,
        fgFirstBBScratch := Some b\<rparr>)"

fun insertAfter :: "nat \<Rightarrow> nat list \<Rightarrow> nat list \<Rightarrow> nat list" where
  "insertAfter a new [] = []"
| "insertAfter a new (x # xs) = (if x = a then x # new @ xs else x # insertAfter a new xs)"

fun insertBefore :: "nat \<Rightarrow> nat list \<Rightarrow> nat list \<Rightarrow> nat list" where
  "insertBefore a new [] = []"
| "insertBefore a new (x # xs) = (if x = a then new @ x # xs else x # insertBefore a new xs)"

text \<open>
  Modelled from the spec: \<open>fgNewBBafter\<close> is not in this file. The spec's step is "append
  two new blocks after the last block ... of kind throw": a new block of the given kind is
  linked in right after the given block. The result is the new block's address.
\<close>
definition fgNewBBafter :: "BBjumpKinds \<Rightarrow> nat \<Rightarrow> 'a Compiler_scheme \<Rightarrow> 'a Compiler_scheme \<times> nat" where
  "fgNewBBafter k after c =
     (let b = nextBlock c in
      (c\<lparr>blocks := (blocks c)(b := blankBlock k),
         nextBlock := Suc b,
         fgOrder := insertAfter after [b] (fgOrder c)\<rparr>, b))"

definition blankEHblkDsc :: EHblkDsc where
  "blankEHblkDsc = \<lparr>ebdHandlerType = EH_HANDLER_CATCH, ebdTryBeg = 0, ebdTryLast = 0,
     ebdFilter = None, ebdHndBeg = 0, ebdHndLast = 0, ebdEnclosingTryIndex = 0,
     ebdEnclosingHndIndex = 0, ebdTryBegOffset = 0, ebdTryEndOffset = 0,
     ebdFilterBegOffset = 0, ebdHndBegOffset = 0, ebdHndEndOffset = 0\<rparr>"

text \<open>
  Modelled from the spec: \<open>fgAddEHTableEntry\<close> is not in this file. The spec's step is "insert
  a new exception-region descriptor at the end of the region table"; the caller passes the
  table's count as the index and then fills in every field.
\<close>
definition fgAddEHTableEntry :: "nat \<Rightarrow> 'a Compiler_scheme \<Rightarrow> 'a Compiler_scheme" where
  "fgAddEHTableEntry XTnum c =
     c\<lparr>compHndBBtab := take XTnum (compHndBBtab c) @ blankEHblkDsc # drop XTnum (compHndBBtab c)\<rparr>"

definition updEHDsc :: "nat \<Rightarrow> (EHblkDsc \<Rightarrow> EHblkDsc) \<Rightarrow> 'a Compiler_scheme \<Rightarrow> 'a Compiler_scheme" where
  "updEHDsc i f c = c\<lparr>compHndBBtab := (compHndBBtab c)[i := f (compHndBBtab c ! i)]\<rparr>"

text \<open>\<open>Blocks(first, last)\<close>: the blocks from \<open>first\<close> along \<open>bbNext\<close> up to and including \<open>last\<close>.\<close>
definition BlocksFromTo :: "nat list \<Rightarrow> nat \<Rightarrow> nat \<Rightarrow> nat list" where
  "BlocksFromTo order first lst =
     (let rest = dropWhile (\<lambda>b. b \<noteq> first) order in
      takeWhile (\<lambda>b. b \<noteq> lst) rest @ (if lst \<in> set rest then [lst] else []))"

definition absorbTryLess :: "nat \<Rightarrow> nat \<Rightarrow> 'a Compiler_scheme \<Rightarrow> 'a Compiler_scheme" where
  "absorbTryLess newEhIndex b c =
     (if \<not> hasTryIndex (blocks c b) then updBlock b (\<lambda>x. x\<lparr>bbTryIndex := Some newEhIndex\<rparr>) c else c)"

definition nestUnder :: "nat \<Rightarrow> nat \<Rightarrow> 'a Compiler_scheme \<Rightarrow> 'a Compiler_scheme" where
  "nestUnder newEhIndex ehIndex c =
     (if ebdEnclosingTryIndex (compHndBBtab c ! ehIndex) = NO_ENCLOSING_INDEX
      then updEHDsc ehIndex (\<lambda>d. d\<lparr>ebdEnclosingTryIndex := (of_nat newEhIndex :: 16 word)\<rparr>) c
      else c)"

definition AddUnhandledExceptionHandler :: "'a Compiler_scheme \<Rightarrow> error + 'a Compiler_scheme" where
  "AddUnhandledExceptionHandler c0 =
     (if \<not> opts_IsReversePInvoke c0 then Inr c0
      else case fgOrder c0 of
        [] \<Rightarrow> Inl InvalidRead
      | fgFirstBB # _ \<Rightarrow>
         (let lastTryBlock = last (fgOrder c0);
              c1 = (if hasTryIndex (blocks c0 fgFirstBB) then fgEnsureFirstBBisScratch c0 else c0)
          in case (if hasTryIndex (blocks c0 fgFirstBB) then fgFirstBBScratch c1 else Some fgFirstBB) of
            None \<Rightarrow> Inl InvalidRead
          | Some firstTryBlock \<Rightarrow>
             (let c2 = c1\<lparr>fgFirstBBScratch := None\<rparr>;
                  (c3, filterBlock) = fgNewBBafter BBJ_THROW lastTryBlock c2;
                  (c4, handlerBlock) = fgNewBBafter BBJ_THROW filterBlock c3;
                  newEhIndex = length (compHndBBtab c4);
                  c5 = fgAddEHTableEntry newEhIndex c4;
                  c6 = updEHDsc newEhIndex (\<lambda>d. d\<lparr>
                         ebdHandlerType := EH_HANDLER_FILTER,
                         ebdTryBeg := firstTryBlock,
                         ebdTryLast := lastTryBlock,
                         ebdFilter := Some filterBlock,
                         ebdHndBeg := handlerBlock,
                         ebdHndLast := handlerBlock,
                         ebdEnclosingTryIndex := NO_ENCLOSING_INDEX,
                         ebdEnclosingHndIndex := NO_ENCLOSING_INDEX,
                         ebdTryBegOffset := bbCodeOffs (blocks c5 firstTryBlock),
                         ebdTryEndOffset := bbCodeOffsEnd (blocks c5 lastTryBlock),
                         ebdFilterBegOffset := 0,
                         ebdHndBegOffset := 0,
                         ebdHndEndOffset := 0\<rparr>) c5;
                  c7 = updBlock firstTryBlock (\<lambda>b. b\<lparr>
                         bbFlags := bbFlags b \<union> {BBF_DONT_REMOVE, BBF_TRY_BEG, BBF_IMPORTED},
                         bbTryIndex := Some newEhIndex,
                         bbHndIndex := None\<rparr>) c6;
                  c8 = updBlock filterBlock (\<lambda>b. b\<lparr>
                         bbFlags := bbFlags b \<union> {BBF_DONT_REMOVE, BBF_IMPORTED},
                         bbCatchTyp := BBCT_FILTER,
                         bbTryIndex := None,
                         bbHndIndex := Some newEhIndex\<rparr>) c7;
                  c9 = updBlock handlerBlock (\<lambda>b. b\<lparr>
                         bbFlags := bbFlags b \<union> {BBF_DONT_REMOVE, BBF_IMPORTED},
                         bbCatchTyp := BBCT_FILTER_HANDLER,
                         bbTryIndex := None,
                         bbHndIndex := Some newEhIndex\<rparr>) c8;
                  c10 = fold (absorbTryLess newEhIndex)
                          (BlocksFromTo (fgOrder c9) firstTryBlock lastTryBlock) c9;
                  c11 = fold (nestUnder newEhIndex) [0..<newEhIndex] c10;
                  catchArg = CatchArgTree TYP_REF {GTF_ORDER_SIDEEFF};
                  handlerCall = HelperCallTree CORINFO_HELP_LLVM_EH_UNHANDLED_EXCEPTION TYP_VOID [catchArg]
              in Inr (updBlock filterBlock (\<lambda>b. b\<lparr>bbStmtList := bbStmtList b @ [handlerCall]\<rparr>) c11))))"

subsection \<open>Creating and changing nodes and locals\<close>

definition newNode :: "GenTree \<Rightarrow> 'a IR_scheme \<Rightarrow> 'a IR_scheme \<times> nat" where
  "newNode gt st = (st\<lparr>nodes := (nodes st)(nextNode st := gt), nextNode := Suc (nextNode st)\<rparr>, nextNode st)"

definition updNode :: "nat \<Rightarrow> (GenTree \<Rightarrow> GenTree) \<Rightarrow> 'a IR_scheme \<Rightarrow> 'a IR_scheme" where
  "updNode n f st = st\<lparr>nodes := (nodes st)(n := f (nodes st n))\<rparr>"

definition updLcl :: "nat \<Rightarrow> (LclVarDsc \<Rightarrow> LclVarDsc) \<Rightarrow> 'a IR_scheme \<Rightarrow> 'a IR_scheme" where
  "updLcl l f st = st\<lparr>lvaTable := (lvaTable st)(l := f (lvaTable st l))\<rparr>"

text \<open>
  Modelled from the spec: \<open>lvaGrabTemp\<close> is not in this file. The spec's local-variable table
  supports "append-new (grab a temp)": the new descriptor takes the index \<open>lvaCount\<close>.
\<close>
definition lvaGrabTemp :: "'a IR_scheme \<Rightarrow> 'a IR_scheme \<times> nat" where
  "lvaGrabTemp st =
     (st\<lparr>lvaTable := (lvaTable st)(lvaCount st := blankLclVarDsc), lvaCount := Suc (lvaCount st)\<rparr>,
      lvaCount st)"


definition lvaSetStruct :: "nat \<Rightarrow> nat \<Rightarrow> 'a IR_scheme \<Rightarrow> 'a IR_scheme" where
  "lvaSetStruct lclNum layout st = updLcl lclNum (\<lambda>v. v\<lparr>lvType := TYP_STRUCT, lvLayout := layout\<rparr>) st"

text \<open>\<open>GenTree::GetLayout\<close>: the layout of a struct-typed node; that of its local for a local read.\<close>
definition GetLayout :: "'a IR_scheme \<Rightarrow> GenTree \<Rightarrow> nat" where
  "GetLayout st n = (if gtOper n = GT_LCL_VAR then lvLayout (lvaTable st (gtLclNum n)) else gtLayout n)"


text \<open>The node constructors of the compiler (\<open>gtNew...\<close>), none of which is in this file.\<close>

definition gtNewLclvNode :: "nat \<Rightarrow> var_types \<Rightarrow> 'a IR_scheme \<Rightarrow> 'a IR_scheme \<times> nat" where
  "gtNewLclvNode lclNum typ st = newNode ((blankNode GT_LCL_VAR typ)\<lparr>gtLclNum := lclNum\<rparr>) st"

definition gtNewLclVarNode :: "nat \<Rightarrow> 'a IR_scheme \<Rightarrow> 'a IR_scheme \<times> nat" where
  "gtNewLclVarNode lclNum st = gtNewLclvNode lclNum (lvType (lvaTable st lclNum)) st"

definition gtNewTempStore :: "nat \<Rightarrow> nat \<Rightarrow> 'a IR_scheme \<Rightarrow> 'a IR_scheme \<times> nat" where
  "gtNewTempStore lclNum val st =
     newNode ((blankNode GT_STORE_LCL_VAR (lvType (lvaTable st lclNum)))
                \<lparr>gtLclNum := lclNum, gtOps := [val], gtFlags := {GTF_VAR_DEF}\<rparr>) st"

definition gtNewIconNode :: "int \<Rightarrow> var_types \<Rightarrow> 'a IR_scheme \<Rightarrow> 'a IR_scheme \<times> nat" where
  "gtNewIconNode v typ st = newNode ((blankNode GT_CNS_INT typ)\<lparr>gtIconVal := v\<rparr>) st"


definition gtNewOperNode :: "genTreeOps \<Rightarrow> var_types \<Rightarrow> nat \<Rightarrow> nat \<Rightarrow> 'a IR_scheme \<Rightarrow> 'a IR_scheme \<times> nat" where
  "gtNewOperNode oper typ op1 op2 st = newNode ((blankNode oper typ)\<lparr>gtOps := [op1, op2]\<rparr>) st"

definition gtNewIndir :: "var_types \<Rightarrow> nat \<Rightarrow> gtflag set \<Rightarrow> 'a IR_scheme \<Rightarrow> 'a IR_scheme \<times> nat" where
  "gtNewIndir typ addr flags st = newNode ((blankNode GT_IND typ)\<lparr>gtOps := [addr], gtFlags := flags\<rparr>) st"

definition gtNewNullCheck :: "nat \<Rightarrow> 'a IR_scheme \<Rightarrow> 'a IR_scheme \<times> nat" where
  "gtNewNullCheck addr st = newNode ((blankNode GT_NULLCHECK TYP_INT)\<lparr>gtOps := [addr]\<rparr>) st"

definition gtNewLclFldNode :: "nat \<Rightarrow> var_types \<Rightarrow> nat \<Rightarrow> 'a IR_scheme \<Rightarrow> 'a IR_scheme \<times> nat" where
  "gtNewLclFldNode lclNum typ offs st =
     newNode ((blankNode GT_LCL_FLD typ)\<lparr>gtLclNum := lclNum, gtLclOffs := offs\<rparr>) st"

definition gtNewLclVarAddrNode :: "nat \<Rightarrow> 'a IR_scheme \<Rightarrow> 'a IR_scheme \<times> nat" where
  "gtNewLclVarAddrNode lclNum st = newNode ((blankNode GT_LCL_ADDR TYP_I_IMPL)\<lparr>gtLclNum := lclNum\<rparr>) st"

definition NewCallArg_Primitive :: "nat \<Rightarrow> CorInfoType \<Rightarrow> CallArg" where
  "NewCallArg_Primitive node corType =
     \<lparr>argNode = node, argWellKnown = WKA_None, argSigCorInfoType = corType,
      argSigType = TYP_VOID, argSigClass = 0, abiIsPointer = False, abiArgType = TYP_VOID\<rparr>"

definition NewCallArg_Value :: "nat \<Rightarrow> var_types \<Rightarrow> CallArg" where
  "NewCallArg_Value node typ =
     \<lparr>argNode = node, argWellKnown = WKA_None, argSigCorInfoType = CORINFO_TYPE_UNDEF,
      argSigType = typ, argSigClass = 0, abiIsPointer = False, abiArgType = TYP_VOID\<rparr>"

definition gtNewHelperCallNode :: "CorInfoHelpFunc \<Rightarrow> var_types \<Rightarrow> nat list \<Rightarrow> 'a IR_scheme \<Rightarrow> 'a IR_scheme \<times> nat" where
  "gtNewHelperCallNode helper typ args st =
     newNode ((blankNode GT_CALL typ)
        \<lparr>gtCallType := CT_HELPER, gtCallHelper := Some helper,
         gtArgs := map (\<lambda>a. NewCallArg_Value a (gtType (nodes st a))) args\<rparr>) st"

subsection \<open>Instruction ranges\<close>

text \<open>\<open>node->gtNext\<close> within a range.\<close>
fun gtNext :: "nat \<Rightarrow> nat list \<Rightarrow> nat option" where
  "gtNext n [] = None"
| "gtNext n [x] = None"
| "gtNext n (x # y # xs) = (if x = n then Some y else gtNext n (y # xs))"

subsection \<open>The GC-liveness spiller: \<open>lowerSpillTempsLiveAcrossSafePoints\<close>\<close>

text \<open>
  \<open>liveGcDefs\<close> is a \<open>SmallHashTable\<open>GenTree*, unsigned, 8, DeterministicNodeHashInfo\<close>\<close>. The
  table itself is not in this file. It reaches its keys only through the two functions of
  its key-info parameter, so it is modelled as the list of its buckets in iteration order;
  where a new key lands among them is the table's business (\<open>tablePlace\<close>), decided from the
  hash codes alone. \<open>BAD_VAR_NUM\<close> is \<open>None\<close>.
\<close>

record Bucket =
  m_key :: nat
  m_hash :: "32 word"
  m_value :: "nat option"

definition DeterministicNodeHashInfo_Equals :: "nat \<Rightarrow> nat \<Rightarrow> bool" where
  "DeterministicNodeHashInfo_Equals left right = (left = right)"

definition DeterministicNodeHashInfo_GetHashCode :: "Oracles \<Rightarrow> GenTree \<Rightarrow> 32 word" where
  "DeterministicNodeHashInfo_GetHashCode orc node = typeCode orc (gtType node) XOR operCode orc (gtOper node)"

text \<open>What a table keyed by the raw node pointers would hash: the low 32 bits of the address.\<close>
definition RawPointer_GetHashCode :: "Oracles \<Rightarrow> nat \<Rightarrow> 32 word" where
  "RawPointer_GetHashCode orc node = of_nat (nodeAddress orc node)"

fun TryGetValue :: "nat \<Rightarrow> Bucket list \<Rightarrow> nat option option" where
  "TryGetValue k [] = None"
| "TryGetValue k (b # bs) =
     (if DeterministicNodeHashInfo_Equals (m_key b) k then Some (m_value b) else TryGetValue k bs)"

fun TryRemove :: "nat \<Rightarrow> Bucket list \<Rightarrow> Bucket list \<times> nat option option" where
  "TryRemove k [] = ([], None)"
| "TryRemove k (b # bs) =
     (if DeterministicNodeHashInfo_Equals (m_key b) k then (bs, Some (m_value b))
      else (let (bs', r) = TryRemove k bs in (b # bs', r)))"

fun updateValue :: "nat \<Rightarrow> nat option \<Rightarrow> Bucket list \<Rightarrow> Bucket list" where
  "updateValue k v [] = []"
| "updateValue k v (b # bs) =
     (if DeterministicNodeHashInfo_Equals (m_key b) k then b\<lparr>m_value := v\<rparr> # bs
      else b # updateValue k v bs)"

definition AddOrUpdate :: "Oracles \<Rightarrow> 32 word \<Rightarrow> nat \<Rightarrow> nat option \<Rightarrow> Bucket list \<Rightarrow> Bucket list" where
  "AddOrUpdate orc h k v t =
     (if TryGetValue k t \<noteq> None then updateValue k v t
      else (let p = min (tablePlace orc (map m_hash t) h) (length t)
            in take p t @ \<lparr>m_key = k, m_hash = h, m_value = v\<rparr> # drop p t))"

text \<open>
  The locals of the function that its lambdas capture, beside the nodes and the locals of
  the compiler. \<open>blockRange\<close> is a reference to the range of the block at hand: the range is
  copied in before the block is walked and copied back afterwards. The stacks have their
  top at the head of the list.
\<close>
record SpillState = IR +
  blockRange :: "nat list"
  liveGcDefs :: "Bucket list"
  spillLclsRef :: "nat list"
  spillLclsByref :: "nat list"
  containedOperands :: "nat list"
  lclHeapUsed :: bool                 \<comment> \<open>\<open>m_lclHeapUsed\<close>\<close>

definition getSpillLcl :: "nat \<Rightarrow> SpillState \<Rightarrow> error + (SpillState \<times> nat)" where
  "getSpillLcl node st =
     (let type = gtType (nodes st node) in
      bindE (case type of
               TYP_REF \<Rightarrow>
                 (case spillLclsRef st of
                    [] \<Rightarrow> Inr (st, None)
                  | l # ls \<Rightarrow> Inr (st\<lparr>spillLclsRef := ls\<rparr>, Some l))
             | TYP_BYREF \<Rightarrow>
                 (case spillLclsByref st of
                    [] \<Rightarrow> Inr (st, None)
                  | l # ls \<Rightarrow> Inr (st\<lparr>spillLclsByref := ls\<rparr>, Some l))
             | TYP_STRUCT \<Rightarrow> Inr (st, None)
             | _ \<Rightarrow> Inl Unreached)
        (\<lambda>(st1, popped).
           case popped of
             Some lclNum \<Rightarrow> Inr (st1, lclNum)
           | None \<Rightarrow>
               (let (st2, lclNum) = lvaGrabTemp st1;
                    st3 = updLcl lclNum (\<lambda>v. v\<lparr>lvType := type\<rparr>) st2;
                    st4 = (if type = TYP_STRUCT
                           then lvaSetStruct lclNum (GetLayout st (nodes st node)) st3 else st3)
                in Inr (st4, lclNum))))"

definition releaseSpillLcl :: "nat \<Rightarrow> SpillState \<Rightarrow> SpillState" where
  "releaseSpillLcl lclNum st =
     (if lvType (lvaTable st lclNum) = TYP_REF then st\<lparr>spillLclsRef := lclNum # spillLclsRef st\<rparr>
      else if lvType (lvaTable st lclNum) = TYP_BYREF then st\<lparr>spillLclsByref := lclNum # spillLclsByref st\<rparr>
      else st)"

definition isGcTemp :: "Oracles \<Rightarrow> 'a IR_scheme \<Rightarrow> GenTree \<Rightarrow> bool" where
  "isGcTemp orc st node =
     (if varTypeIsGC (gtType node) \<or> gtType node = TYP_STRUCT then
        (if gtType node = TYP_STRUCT \<and> gtOper node = GT_IND then False
         else if gtType node = TYP_STRUCT \<and> \<not> layoutHasGCPtr orc (GetLayout st node) then False
         else \<not> OperIsLocal (gtOper node) \<and> gtOper node \<noteq> GT_LCL_ADDR \<and> \<not> gtIconHandle node)
      else False)"

text \<open>
  \<open>isPotentialGcSafePoint\<close> is not in this file. It looks at the operator of the node and, for
  a call, at what is called and how.
\<close>
definition isPotentialGcSafePoint :: "Oracles \<Rightarrow> GenTree \<Rightarrow> bool" where
  "isPotentialGcSafePoint orc node =
     gcSafePointTable orc (gtOper node) (gtCallType node) (gtCallHelper node) (gtCallMoreFlags node)"

definition IsValue :: "Oracles \<Rightarrow> GenTree \<Rightarrow> bool" where
  "IsValue orc node = (\<not> operIsNoValue orc (gtOper node) \<and> gtType node \<noteq> TYP_VOID)"

definition spillValue :: "nat \<Rightarrow> nat option \<Rightarrow> SpillState \<Rightarrow> error + (SpillState \<times> nat option)" where
  "spillValue defNode pSpillLclNum st =
     (case pSpillLclNum of
        Some lcl \<Rightarrow> Inr (st, Some lcl)
      | None \<Rightarrow>
          bindE (getSpillLcl defNode st) (\<lambda>(st1, spillLclNum).
            let (st2, store) = gtNewTempStore spillLclNum defNode st1;
                st3 = st2\<lparr>blockRange := insertAfter defNode [store] (blockRange st2)\<rparr>
            in Inr (st3, Some spillLclNum)))"

definition GetRetBufferArg :: "GenTree \<Rightarrow> CallArg option" where
  "GetRetBufferArg n = find (\<lambda>a. argWellKnown a = WKA_RetBuffer) (gtArgs n)"

definition spillRetBuffer :: "Oracles \<Rightarrow> nat \<Rightarrow> SpillState \<Rightarrow> error + SpillState" where
  "spillRetBuffer orc node st =
     (if gtOper (nodes st node) = GT_CALL then
        (case GetRetBufferArg (nodes st node) of
           None \<Rightarrow> Inr st
         | Some arg \<Rightarrow>
             (let retBufNode = argNode arg in
              if gtLIRMark (nodes st retBufNode) then
                (case TryGetValue retBufNode (liveGcDefs st) of
                   None \<Rightarrow> Inl InvalidRead
                 | Some spillLclNum \<Rightarrow>
                     bindE (spillValue retBufNode spillLclNum st) (\<lambda>(st1, v).
                       Inr (st1\<lparr>liveGcDefs :=
                              AddOrUpdate orc
                                (DeterministicNodeHashInfo_GetHashCode orc (nodes st1 retBufNode))
                                retBufNode v (liveGcDefs st1)\<rparr>)))
              else Inr st))
      else Inr st)"

definition spillUseEdge :: "nat \<Rightarrow> nat \<Rightarrow> SpillState \<Rightarrow> SpillState" where
  "spillUseEdge user i st =
     (let operand = UseEdges (nodes st user) ! i in
      if gtContained (nodes st operand) then st\<lparr>containedOperands := operand # containedOperands st\<rparr>
      else if gtLIRMark (nodes st operand) then
        (let (t, removed) = TryRemove operand (liveGcDefs st);
             st1 = st\<lparr>liveGcDefs := t\<rparr>;
             st2 = (case removed of
                      Some (Some spillLclNum) \<Rightarrow>
                        (let (st', lclVarNode) = gtNewLclVarNode spillLclNum st1;
                             st'' = updNode user (setUseEdge i lclVarNode) st';
                             st''' = st''\<lparr>blockRange := insertBefore user [lclVarNode] (blockRange st'')\<rparr>
                         in releaseSpillLcl spillLclNum st''')
                    | _ \<Rightarrow> st1)
         in updNode operand (\<lambda>n. n\<lparr>gtLIRMark := False\<rparr>) st2)
      else st)"

definition spillUseEdges :: "nat \<Rightarrow> SpillState \<Rightarrow> SpillState" where
  "spillUseEdges user st = fold (spillUseEdge user) [0..<length (UseEdges (nodes st user))] st"

partial_function (option) spillUsers :: "nat \<Rightarrow> SpillState \<Rightarrow> SpillState option" where
  "spillUsers user st =
     (let st1 = spillUseEdges user st in
      case containedOperands st1 of
        [] \<Rightarrow> Some st1
      | u # rest \<Rightarrow> spillUsers u (st1\<lparr>containedOperands := rest\<rparr>))"

fun foldE :: "('b \<Rightarrow> 'a \<Rightarrow> error + 'a) \<Rightarrow> 'b list \<Rightarrow> 'a \<Rightarrow> error + 'a" where
  "foldE f [] s = Inr s"
| "foldE f (x # xs) s = bindE (f x s) (foldE f xs)"

definition spillLiveDef :: "nat \<Rightarrow> SpillState \<Rightarrow> error + SpillState" where
  "spillLiveDef i st =
     (let def = liveGcDefs st ! i in
      bindE (spillValue (m_key def) (m_value def) st) (\<lambda>(st1, v).
        Inr (st1\<lparr>liveGcDefs := (liveGcDefs st1)[i := (liveGcDefs st1 ! i)\<lparr>m_value := v\<rparr>]\<rparr>)))"

definition spillNode :: "Oracles \<Rightarrow> nat \<Rightarrow> SpillState \<Rightarrow> error + SpillState" where
  "spillNode orc node st0 =
     (let st1 = (if gtOper (nodes st0 node) = GT_LCLHEAP then st0\<lparr>lclHeapUsed := True\<rparr> else st0) in
      if gtContained (nodes st1 node) then Inr st1
      else
        bindE (spillRetBuffer orc node st1) (\<lambda>st2.
          case spillUsers node st2 of
            None \<Rightarrow> Inl Diverges
          | Some st3 \<Rightarrow>
              bindE (if isPotentialGcSafePoint orc (nodes st3 node) \<and> length (liveGcDefs st3) \<noteq> 0
                     then foldE spillLiveDef [0..<length (liveGcDefs st3)] st3
                     else Inr st3) (\<lambda>st4.
                if IsValue orc (nodes st4 node) \<and> \<not> gtLIRUnusedValue (nodes st4 node) \<and>
                   isGcTemp orc st4 (nodes st4 node)
                then
                  (let st5 = updNode node (\<lambda>n. n\<lparr>gtLIRMark := True\<rparr>) st4
                   in Inr (st5\<lparr>liveGcDefs :=
                                AddOrUpdate orc
                                  (DeterministicNodeHashInfo_GetHashCode orc (nodes st5 node))
                                  node None (liveGcDefs st5)\<rparr>))
                else Inr st4)))"

text \<open>
  \<open>for (GenTree* node : blockRange) body\<close>: the walk follows \<open>gtNext\<close> in the range as it
  is after the body has handled the node.
\<close>
partial_function (option) forEachNodeFrom ::
    "(nat \<Rightarrow> SpillState \<Rightarrow> error + SpillState) \<Rightarrow> nat option \<Rightarrow> SpillState \<Rightarrow> (error + SpillState) option" where
  "forEachNodeFrom body cursor st =
     (case cursor of
        None \<Rightarrow> Some (Inr st)
      | Some node \<Rightarrow>
          (case body node st of
             Inl e \<Rightarrow> Some (Inl e)
           | Inr st1 \<Rightarrow> forEachNodeFrom body (gtNext node (blockRange st1)) st1))"

definition FirstNode :: "nat list \<Rightarrow> nat option" where
  "FirstNode r = (case r of [] \<Rightarrow> None | n # _ \<Rightarrow> Some n)"

definition spillRange :: "Oracles \<Rightarrow> SpillState \<Rightarrow> error + SpillState" where
  "spillRange orc st =
     (case forEachNodeFrom (spillNode orc) (FirstNode (blockRange st)) st of
        None \<Rightarrow> Inl Diverges
      | Some r \<Rightarrow> r)"



subsection \<open>Node lowering\<close>

text \<open>
  \<open>CurrentRange()\<close> is a reference to the range of the block that is being lowered; the
  model keeps that range in \<open>m_currentRange\<close>.
\<close>

definition CurrentRange_InsertBefore :: "nat \<Rightarrow> nat list \<Rightarrow> Llvm \<Rightarrow> Llvm" where
  "CurrentRange_InsertBefore a new st = st\<lparr>m_currentRange := insertBefore a new (m_currentRange st)\<rparr>"

definition CurrentRange_InsertAfter :: "nat \<Rightarrow> nat list \<Rightarrow> Llvm \<Rightarrow> Llvm" where
  "CurrentRange_InsertAfter a new st = st\<lparr>m_currentRange := insertAfter a new (m_currentRange st)\<rparr>"

definition markUnused :: "Oracles \<Rightarrow> nat \<Rightarrow> Llvm \<Rightarrow> Llvm" where
  "markUnused orc operand st =
     (if IsValue orc (nodes st operand) then updNode operand (\<lambda>n. n\<lparr>gtLIRUnusedValue := True\<rparr>) st else st)"

text \<open>
  \<open>LIR::Range::Remove(node, markOperandsUnused)\<close>, which is not in this file: the node is
  unlinked from the range, and with \<open>markOperandsUnused\<close> each operand that is a value
  is marked as an unused value.
\<close>
definition CurrentRange_Remove :: "Oracles \<Rightarrow> nat \<Rightarrow> bool \<Rightarrow> Llvm \<Rightarrow> Llvm" where
  "CurrentRange_Remove orc node markOperandsUnused st =
     (let st1 = (if markOperandsUnused then fold (markUnused orc) (UseEdges (nodes st node)) st else st)
      in st1\<lparr>m_currentRange := remove1 node (m_currentRange st1)\<rparr>)"

definition LastNode :: "nat list \<Rightarrow> nat option" where
  "LastNode r = (if r = [] then None else Some (last r))"

text \<open>
  Modelled from the spec: \<open>fgAddCodeRef\<close> is not in this file; it is the spec's
  fault-registration oracle, "register that this block may raise it".
\<close>
definition fgAddCodeRef :: "nat \<Rightarrow> SpecialCodeKind \<Rightarrow> Llvm \<Rightarrow> Llvm" where
  "fgAddCodeRef block kind st = st\<lparr>fgCodeRefs := fgCodeRefs st @ [(block, kind)]\<rparr>"

text \<open>Modelled from the spec: \<open>fgConvertBBToThrowBB\<close> is not in this file; it converts the block's kind to "throw".\<close>
definition fgConvertBBToThrowBB :: "nat \<Rightarrow> Llvm \<Rightarrow> Llvm" where
  "fgConvertBBToThrowBB block st = st\<lparr>blocks := (blocks st)(block := (blocks st block)\<lparr>bbKind := BBJ_THROW\<rparr>)\<rparr>"

text \<open>A \<open>LIR::Use\<close> is the user and the index of the operand edge.\<close>
type_synonym Use = "nat \<times> nat"

definition Def :: "'a IR_scheme \<Rightarrow> Use \<Rightarrow> nat" where
  "Def st use = UseEdges (nodes st (fst use)) ! snd use"

definition ReplaceWith :: "Use \<Rightarrow> nat \<Rightarrow> 'a IR_scheme \<Rightarrow> 'a IR_scheme" where
  "ReplaceWith use node st = updNode (fst use) (setUseEdge (snd use) node) st"

text \<open>
  Modelled from the spec: \<open>LIR::Use::ReplaceWithLclVar\<close> is not in this file. The spec has
  "replace the use with a fresh temporary local holding the value": a new local is grabbed,
  a store of the value to it and a read of it are put after the value, and the use is
  redirected to the read. The result is the local's number.
\<close>
definition ReplaceWithLclVar :: "Use \<Rightarrow> Llvm \<Rightarrow> Llvm \<times> nat" where
  "ReplaceWithLclVar use st =
     (let node = Def st use;
          (st1, lclNum) = lvaGrabTemp st;
          st2 = updLcl lclNum (\<lambda>v. v\<lparr>lvType := gtType (nodes st node),
                                      lvLayout := GetLayout st (nodes st node)\<rparr>) st1;
          (st3, store) = gtNewTempStore lclNum node st2;
          (st4, load) = gtNewLclvNode lclNum (gtType (nodes st3 store)) st3;
          st5 = CurrentRange_InsertAfter node [store, load] st4
      in (ReplaceWith use load st5, lclNum))"

definition representAsLclVar :: "Use \<Rightarrow> Llvm \<Rightarrow> Llvm \<times> nat" where
  "representAsLclVar use st =
     (let node = Def st use in
      if gtOper (nodes st node) = GT_LCL_VAR then (st, gtLclNum (nodes st node))
      else ReplaceWithLclVar use st)"

definition getCatchArgOffset :: nat where
  "getCatchArgOffset = 0"

definition insertShadowStackAddr :: "nat \<Rightarrow> nat \<Rightarrow> nat \<Rightarrow> Llvm \<Rightarrow> Llvm \<times> nat" where
  "insertShadowStackAddr insertBeforeNode offset shadowStackLcl st =
     (let (st1, shadowStackLclNode) = gtNewLclvNode shadowStackLcl TYP_I_IMPL st;
          st2 = CurrentRange_InsertBefore insertBeforeNode [shadowStackLclNode] st1
      in if offset = 0 then (st2, shadowStackLclNode)
         else
           (let (st3, offsetNode) = gtNewIconNode (int offset) TYP_I_IMPL st2;
                st4 = CurrentRange_InsertBefore insertBeforeNode [offsetNode] st3;
                (st5, addNode) = gtNewOperNode GT_ADD TYP_I_IMPL shadowStackLclNode offsetNode st4;
                st6 = CurrentRange_InsertBefore insertBeforeNode [addNode] st5
            in (st6, addNode)))"

definition lowerIndir :: "nat \<Rightarrow> Llvm \<Rightarrow> error + Llvm" where
  "lowerIndir indirNode st =
     (if GTF_IND_NONFAULTING \<notin> gtFlags (nodes st indirNode) then
        (case m_currentBlock st of
           None \<Rightarrow> Inl InvalidRead
         | Some block \<Rightarrow> Inr (fgAddCodeRef block SCK_NULL_REF_EXCPN st))
      else Inr st)"

definition lowerCatchArg :: "nat \<Rightarrow> Llvm \<Rightarrow> Llvm" where
  "lowerCatchArg catchArgNode st =
     (let (st1, excObjAddr) = insertShadowStackAddr catchArgNode getCatchArgOffset (shadowStackLclNum st) st
      in updNode catchArgNode
           (\<lambda>n. n\<lparr>gtOper := GT_IND, gtFlags := gtFlags n \<union> {GTF_IND_NONFAULTING}, gtOps := [excObjAddr]\<rparr>) st1)"

definition lowerRethrow :: "Oracles \<Rightarrow> nat \<Rightarrow> Llvm \<Rightarrow> error + Llvm" where
  "lowerRethrow orc callNode st =
     (case m_currentBlock st of
        None \<Rightarrow> Inl InvalidRead
      | Some block \<Rightarrow>
          (case bbHndIndex (blocks st block) of
             None \<Rightarrow> Inl InvalidRead
           | Some hndIndex \<Rightarrow>
               if \<not> hndIndex < length (compHndBBtab st) then Inl InvalidRead
               else if \<not> HasCatchHandler orc (compHndBBtab st ! hndIndex)
               then Inl (IMPL_LIMITATION ''Nested rethrow'')
               else
                 (let (st1, excObjAddr) =
                        insertShadowStackAddr callNode getCatchArgOffset (shadowStackLclNum st) st
                  in Inr (updNode callNode
                            (\<lambda>n. n\<lparr>gtArgs := NewCallArg_Primitive excObjAddr CORINFO_TYPE_PTR # gtArgs n\<rparr>)
                            st1))))"

definition normalizeStructUse :: "Oracles \<Rightarrow> Use \<Rightarrow> nat \<Rightarrow> Llvm \<Rightarrow> error + (Llvm \<times> nat)" where
  "normalizeStructUse orc use layout st =
     (let node = Def st use;
          useLayout = GetLayout st (nodes st node)
      in if useLayout \<noteq> layout \<and> getLlvmTypeForStruct orc useLayout \<noteq> getLlvmTypeForStruct orc layout
         then
           (case gtOper (nodes st node) of
              GT_BLK \<Rightarrow> Inr (updNode node (\<lambda>n. n\<lparr>gtLayout := layout\<rparr>) st, node)
            | GT_LCL_FLD \<Rightarrow> Inr (updNode node (\<lambda>n. n\<lparr>gtLayout := layout\<rparr>) st, node)
            | GT_CALL \<Rightarrow>
                (let (st1, lclNum) = ReplaceWithLclVar use st;
                     node1 = Def st1 use
                 in Inr (updNode node1 (\<lambda>n. n\<lparr>gtOper := GT_LCL_FLD, gtLayout := layout\<rparr>) st1, node1))
            | GT_LCL_VAR \<Rightarrow>
                Inr (updNode node (\<lambda>n. n\<lparr>gtOper := GT_LCL_FLD, gtLayout := layout\<rparr>) st, node)
            | _ \<Rightarrow> Inl Unreached)
         else Inr (st, node))"

definition lvaIsFieldOfDependentlyPromotedStruct :: "'a IR_scheme \<Rightarrow> LclVarDsc \<Rightarrow> bool" where
  "lvaIsFieldOfDependentlyPromotedStruct st varDsc =
     (lvIsStructField varDsc \<and>
      lvPromotionType (lvaTable st (lvParentLcl varDsc)) = PROMOTION_TYPE_DEPENDENT)"

definition GetLclOffs :: "GenTree \<Rightarrow> nat" where
  "GetLclOffs n = (if gtOper n \<in> {GT_LCL_FLD, GT_STORE_LCL_FLD, GT_LCL_ADDR} then gtLclOffs n else 0)"

definition markPartialDef :: "Oracles \<Rightarrow> nat \<Rightarrow> Llvm \<Rightarrow> Llvm" where
  "markPartialDef orc node st =
     (if isPartialLclFld orc (nodes st node)
      then updNode node (\<lambda>n. n\<lparr>gtFlags := gtFlags n \<union> {GTF_VAR_USEASG}\<rparr>) st else st)"

definition lowerFieldOfDependentlyPromotedStruct :: "Oracles \<Rightarrow> nat \<Rightarrow> Llvm \<Rightarrow> Llvm" where
  "lowerFieldOfDependentlyPromotedStruct orc node st =
     (if OperIsLocal (gtOper (nodes st node)) \<or> gtOper (nodes st node) = GT_LCL_ADDR then
        (let offset = GetLclOffs (nodes st node);
             varDsc = lvaTable st (gtLclNum (nodes st node))
         in if lvaIsFieldOfDependentlyPromotedStruct st varDsc then
              (let st1 = (case gtOper (nodes st node) of
                            GT_LCL_VAR \<Rightarrow> updNode node (\<lambda>n. n\<lparr>gtOper := GT_LCL_FLD\<rparr>) st
                          | GT_STORE_LCL_VAR \<Rightarrow>
                              markPartialDef orc node (updNode node (\<lambda>n. n\<lparr>gtOper := GT_STORE_LCL_FLD\<rparr>) st)
                          | _ \<Rightarrow> st);
                   st2 = updNode node (\<lambda>n. n\<lparr>gtLclNum := lvParentLcl varDsc,
                                              gtLclOffs := lvFldOffset varDsc + offset\<rparr>) st1
               in if GTF_VAR_DEF \<in> gtFlags (nodes st2 node) then markPartialDef orc node st2 else st2)
            else st)
      else st)"

definition lowerStoreLcl :: "Oracles \<Rightarrow> nat \<Rightarrow> Llvm \<Rightarrow> error + Llvm" where
  "lowerStoreLcl orc storeLclNode st =
     (let lclNum = gtLclNum (nodes st storeLclNode);
          varDsc = lvaTable st lclNum;
          data = Def st (storeLclNode, 0)
      in bindE
           (if canBeReplacedWithItsField orc varDsc then Inr (st, Some (lvFieldLclStart varDsc))
            else if gtType (nodes st storeLclNode) = TYP_STRUCT then
              (if gtType (nodes st data) = TYP_STRUCT then
                 bindE (normalizeStructUse orc (storeLclNode, 0) (lvLayout varDsc) st)
                   (\<lambda>(st1, data1). Inr (st1, None))
               else if gtOper (nodes st data) = GT_INIT_VAL then Inr (st, Some lclNum)
               else Inr (st, None))
            else Inr (st, None))
           (\<lambda>(st1, convertToStoreLclFldLclNum).
              case convertToStoreLclFldLclNum of
                None \<Rightarrow> Inr st1
              | Some fldLclNum \<Rightarrow>
                  Inr (markPartialDef orc storeLclNode
                         (updNode storeLclNode
                            (\<lambda>n. n\<lparr>gtOper := GT_STORE_LCL_FLD, gtLclNum := fldLclNum, gtLclOffs := 0,
                                    gtLayout := lvLayout (lvaTable st1 lclNum)\<rparr>) st1))))"

definition lowerLocal :: "Oracles \<Rightarrow> nat \<Rightarrow> Llvm \<Rightarrow> error + Llvm" where
  "lowerLocal orc node st =
     (let st1 = lowerFieldOfDependentlyPromotedStruct orc node st in
      bindE (if gtOper (nodes st1 node) = GT_STORE_LCL_VAR then lowerStoreLcl orc node st1 else Inr st1)
        (\<lambda>st2.
           if OperIsLocalStore (gtOper (nodes st2 node)) \<and> gtType (nodes st2 node) = TYP_STRUCT \<and>
              gtType (nodes st2 (Def st2 (node, 0))) = TYP_INT
           then Inr (updNode (Def st2 (node, 0)) (\<lambda>n. n\<lparr>gtContained := True\<rparr>) st2)
           else Inr st2))"

definition OperIsCopyBlkOp :: "'a IR_scheme \<Rightarrow> GenTree \<Rightarrow> bool" where
  "OperIsCopyBlkOp st storeBlk =
     (gtOper (nodes st (gtOps storeBlk ! 1)) \<noteq> GT_INIT_VAL \<and>
      gtOper (nodes st (gtOps storeBlk ! 1)) \<noteq> GT_CNS_INT)"

definition lowerStoreBlk :: "nat \<Rightarrow> Llvm \<Rightarrow> error + Llvm" where
  "lowerStoreBlk storeBlkNode st =
     (let src = Def st (storeBlkNode, 1);
          st1 = (if OperIsCopyBlkOp st (nodes st storeBlkNode)
                 then updNode storeBlkNode (\<lambda>n. n\<lparr>gtLayout := GetLayout st (nodes st src)\<rparr>) st
                 else updNode src (\<lambda>n. n\<lparr>gtContained := True\<rparr>) st)
      in lowerIndir storeBlkNode st1)"

definition lowerStoreDynBlk :: "nat \<Rightarrow> Llvm \<Rightarrow> error + Llvm" where
  "lowerStoreDynBlk storeDynBlkNode st =
     lowerIndir storeDynBlkNode
       (updNode (Def st (storeDynBlkNode, 1)) (\<lambda>n. n\<lparr>gtContained := True\<rparr>) st)"

definition lowerDivMod :: "Oracles \<Rightarrow> nat \<Rightarrow> Llvm \<Rightarrow> error + Llvm" where
  "lowerDivMod orc divModNode st =
     (case m_currentBlock st of
        None \<Rightarrow>
          (if operMayDivideByZero orc (nodes st divModNode) \<or> operMayOverflow orc (nodes st divModNode)
           then Inl InvalidRead else Inr st)
      | Some block \<Rightarrow>
          (let st1 = (if operMayDivideByZero orc (nodes st divModNode)
                      then fgAddCodeRef block SCK_DIV_BY_ZERO st else st);
               st2 = (if operMayOverflow orc (nodes st divModNode)
                      then fgAddCodeRef block SCK_OVERFLOW st1 else st1)
           in Inr st2))"

definition lowerReturn :: "Oracles \<Rightarrow> nat \<Rightarrow> Llvm \<Rightarrow> error + Llvm" where
  "lowerReturn orc retNode st =
     (if gtType (nodes st retNode) = TYP_VOID then Inr st
      else
        (let retVal = Def st (retNode, 0);
             isStruct = (gtType (nodes st retNode) = TYP_STRUCT);
             layout = typGetObjLayout orc (compRetTypeClass orc)
         in bindE (if isStruct \<and> gtType (nodes st retVal) = TYP_STRUCT
                   then bindE (normalizeStructUse orc (retNode, 0) layout st) (\<lambda>(st1, n). Inr st1)
                   else Inr st)
              (\<lambda>st1.
                 let isStructZero = (isStruct \<and> gtOper (nodes st1 retVal) = GT_CNS_INT \<and>
                                     gtIconVal (nodes st1 retVal) = 0)
                 in if gtType (nodes st1 retNode) \<noteq> gtType (nodes st1 retVal) \<and> \<not> isStructZero then
                      (let (st2, lclNum) = ReplaceWithLclVar (retNode, 0) st1;
                           lclVarNode = Def st2 (retNode, 0)
                       in Inr (updNode lclVarNode
                                 (\<lambda>n. (if isStruct then n\<lparr>gtLayout := layout\<rparr> else n)
                                         \<lparr>gtOper := GT_LCL_FLD, gtType := compRetType orc\<rparr>) st2))
                    else Inr st1)))"

definition lowerLclHeap :: "nat \<Rightarrow> Llvm \<Rightarrow> Llvm" where
  "lowerLclHeap lclHeapNode st = st\<lparr>m_lclHeapUsed := True\<rparr>"

subsection \<open>Call lowering\<close>

definition IsHelperCall :: "GenTree \<Rightarrow> bool" where
  "IsHelperCall n = (gtCallType n = CT_HELPER)"

definition IsHelperCallOf :: "CorInfoHelpFunc \<Rightarrow> GenTree \<Rightarrow> bool" where
  "IsHelperCallOf helper n = (gtCallType n = CT_HELPER \<and> gtCallHelper n = Some helper)"

definition IsVirtualStub :: "GenTree \<Rightarrow> bool" where
  "IsVirtualStub n = (GTF_CALL_VIRT_STUB \<in> gtFlags n)"

definition NeedsNullCheck :: "GenTree \<Rightarrow> bool" where
  "NeedsNullCheck n = (GTF_CALL_NULLCHECK \<in> gtFlags n)"

definition IsNoReturn :: "GenTree \<Rightarrow> bool" where
  "IsNoReturn n = (GTF_CALL_M_NORETURN \<in> gtCallMoreFlags n)"

text \<open>\<open>fgIsThrow\<close>, which is not in this file: the call is to one of the helpers that always throw.\<close>
definition fgIsThrow :: "Oracles \<Rightarrow> GenTree \<Rightarrow> bool" where
  "fgIsThrow orc n =
     (gtOper n = GT_CALL \<and> gtCallType n = CT_HELPER \<and>
      (case gtCallHelper n of None \<Rightarrow> False | Some h \<Rightarrow> isThrowHelper orc h))"

fun findIndex :: "('a \<Rightarrow> bool) \<Rightarrow> 'a list \<Rightarrow> nat option" where
  "findIndex P [] = None"
| "findIndex P (x # xs) = (if P x then Some 0 else map_option Suc (findIndex P xs))"

definition FindWellKnownArg :: "WellKnownArg \<Rightarrow> GenTree \<Rightarrow> nat option" where
  "FindWellKnownArg w n = findIndex (\<lambda>a. argWellKnown a = w) (gtArgs n)"

definition insertNullCheckForCall :: "Oracles \<Rightarrow> nat \<Rightarrow> Llvm \<Rightarrow> error + Llvm" where
  "insertNullCheckForCall orc callNode st =
     (case FindWellKnownArg WKA_ThisPointer (nodes st callNode) of
        None \<Rightarrow> Inl InvalidRead
      | Some thisIdx \<Rightarrow>
          bindE
            (if fgAddrCouldBeNull orc (nodes st (Def st (callNode, thisIdx))) then
               (let (st1, thisArgLclNum) = representAsLclVar (callNode, thisIdx) st;
                    (st2, thisArgNode) = gtNewLclvNode thisArgLclNum (lvType (lvaTable st1 thisArgLclNum)) st1;
                    (st3, thisArgNullCheck) = gtNewNullCheck thisArgNode st2;
                    st4 = CurrentRange_InsertBefore callNode [thisArgNode, thisArgNullCheck] st3
                in lowerIndir thisArgNullCheck st4)
             else Inr st)
            (\<lambda>st5. Inr (updNode callNode (\<lambda>n. n\<lparr>gtFlags := gtFlags n - {GTF_CALL_NULLCHECK}\<rparr>) st5)))"

definition lowerVirtualStubCall ::
    "(nat \<Rightarrow> Llvm \<Rightarrow> error + Llvm) \<Rightarrow> Oracles \<Rightarrow> nat \<Rightarrow> Llvm \<Rightarrow> error + Llvm" where
  "lowerVirtualStubCall lowerCallRec orc callNode st =
     (case FindWellKnownArg WKA_ThisPointer (nodes st callNode) of
        None \<Rightarrow> Inl InvalidRead
      | Some thisIdx \<Rightarrow>
          (let (st1, thisArgLclNum) = representAsLclVar (callNode, thisIdx) st;
               (st2, thisForStub) = gtNewLclvNode thisArgLclNum TYP_REF st1;
               st3 = CurrentRange_InsertBefore callNode [thisForStub] st2
           in case FindWellKnownArg WKA_VirtualStubCell (nodes st3 callNode) of
                None \<Rightarrow> Inl InvalidRead
              | Some cellIdx \<Rightarrow>
                  (let cellArg = gtArgs (nodes st3 callNode) ! cellIdx;
                       st4 = updNode callNode
                               (\<lambda>n. n\<lparr>gtArgs := take cellIdx (gtArgs n) @ drop (Suc cellIdx) (gtArgs n)\<rparr>) st3;
                       (st5, stubCall) =
                          gtNewHelperCallNode CORINFO_HELP_LLVM_RESOLVE_INTERFACE_CALL_TARGET TYP_I_IMPL
                            [thisForStub, argNode cellArg] st4;
                       st6 = CurrentRange_InsertBefore callNode [stubCall] st5
                   in bindE
                        (if gtCallType (nodes st6 callNode) = CT_INDIRECT then
                           (case gtCallAddr (nodes st6 callNode) of
                              None \<Rightarrow> Inl InvalidRead
                            | Some addr \<Rightarrow>
                                if gtOper (nodes st6 addr) = GT_LCL_VAR
                                then Inr (CurrentRange_Remove orc addr False st6)
                                else Inr (updNode addr (\<lambda>n. n\<lparr>gtLIRUnusedValue := True\<rparr>) st6))
                         else Inr st6)
                        (\<lambda>st7.
                           lowerCallRec stubCall
                             (updNode callNode
                                (\<lambda>n. n\<lparr>gtCallType := CT_INDIRECT, gtCallAddr := Some stubCall,
                                        gtStubCallStubAddr := None, gtCallCookie := None,
                                        gtFlags := gtFlags n - {GTF_CALL_VIRT_STUB},
                                        gtCallMoreFlags := gtCallMoreFlags n - {GTF_CALL_M_VIRTSTUB_REL_INDIRECT}\<rparr>)
                                st7)))))"

definition lowerDelegateInvoke :: "Oracles \<Rightarrow> nat \<Rightarrow> Llvm \<Rightarrow> error + Llvm" where
  "lowerDelegateInvoke orc callNode st =
     (case FindWellKnownArg WKA_ThisPointer (nodes st callNode) of
        None \<Rightarrow> Inl InvalidRead
      | Some thisIdx \<Rightarrow>
          (let (st1, delegateThisLclNum) = representAsLclVar (callNode, thisIdx) st;
               delegateThis = Def st1 (callNode, thisIdx);
               (st2, targetThisOffet) = gtNewIconNode (offsetOfDelegateInstance orc) TYP_I_IMPL st1;
               (st3, targetThisAddr) = gtNewOperNode GT_ADD TYP_BYREF delegateThis targetThisOffet st2;
               (st4, targetThis) = gtNewIndir TYP_REF targetThisAddr {} st3;
               st5 = CurrentRange_InsertBefore callNode [targetThisOffet, targetThisAddr, targetThis] st4;
               st6 = ReplaceWith (callNode, thisIdx) targetThis st5
           in bindE (lowerIndir targetThis st6) (\<lambda>st7.
                let (st8, delegateThis2) = gtNewLclvNode delegateThisLclNum TYP_REF st7;
                    (st9, callTargetOffset) = gtNewIconNode (offsetOfDelegateFirstTarget orc) TYP_I_IMPL st8;
                    (st10, callTargetAddr) = gtNewOperNode GT_ADD TYP_BYREF delegateThis2 callTargetOffset st9;
                    (st11, callTarget) = gtNewIndir TYP_I_IMPL callTargetAddr {GTF_IND_NONFAULTING} st10;
                    st12 = updNode callTarget (\<lambda>n. n\<lparr>gtFlags := gtFlags n \<union> {GTF_ORDER_SIDEEFF}\<rparr>) st11;
                    st13 = CurrentRange_InsertBefore callNode
                             [delegateThis2, callTargetOffset, callTargetAddr, callTarget] st12
                in Inr (updNode callNode (\<lambda>n. n\<lparr>gtControlExpr := Some callTarget\<rparr>) st13))))"

definition lowerCallReturn :: "Oracles \<Rightarrow> nat \<Rightarrow> Llvm \<Rightarrow> error + Llvm" where
  "lowerCallReturn orc callNode st =
     (let n = nodes st callNode in
      bindE (if IsHelperCall n then
               (case gtCallHelper n of
                  None \<Rightarrow> Inl InvalidRead
                | Some h \<Rightarrow> Inr (helperSigReturnType orc h))
             else if gtCorInfoType n = CORINFO_TYPE_UNDEF then Inr (toCorInfoType orc (gtType n))
             else Inr (gtCorInfoType n))
        (\<lambda>sigRetType.
           Inr (updNode callNode
                  (\<lambda>n. n\<lparr>gtCorInfoType := getLlvmReturnType orc sigRetType (gtRetClsHnd n)\<rparr>) st)))"

definition lowerCallArgToShadowStack :: "Oracles \<Rightarrow> nat \<Rightarrow> nat \<Rightarrow> Llvm \<Rightarrow> error + Llvm" where
  "lowerCallArgToShadowStack orc callNode sigArgIdx st =
     (let callArg = gtArgs (nodes st callNode) ! sigArgIdx;
          argNode0 = argNode callArg;
          sig = (if \<not> IsHelperCall (nodes st callNode) then
                   ((if argWellKnown callArg = WKA_ThisPointer then
                       (if gtType (nodes st argNode0) = TYP_REF then CORINFO_TYPE_CLASS else CORINFO_TYPE_BYREF)
                     else if argWellKnown callArg = WKA_InstParam \<or> argWellKnown callArg = WKA_RetBuffer
                     then CORINFO_TYPE_PTR
                     else if argSigCorInfoType callArg \<noteq> CORINFO_TYPE_UNDEF then argSigCorInfoType callArg
                     else toCorInfoType orc (argSigType callArg)),
                    argSigClass callArg)
                 else
                   (case gtCallHelper (nodes st callNode) of
                      None \<Rightarrow> (CORINFO_TYPE_UNDEF, 0)
                    | Some h \<Rightarrow> (helperSigArgType orc h sigArgIdx, helperSigArgClass orc h sigArgIdx)))
      in bindE (if gtType (nodes st argNode0) = TYP_STRUCT
                then bindE (normalizeStructUse orc (callNode, sigArgIdx) (typGetObjLayout orc (snd sig)) st)
                       (\<lambda>(st1, n). Inr st1)
                else Inr st)
           (\<lambda>st1.
              let argType = getLlvmArgTypeForArg orc (fst sig) (snd sig)
              in Inr (updNode callNode
                        (\<lambda>n. n\<lparr>gtArgs := (gtArgs n)[sigArgIdx :=
                                  (gtArgs n ! sigArgIdx)\<lparr>abiIsPointer := (argType = CORINFO_TYPE_PTR),
                                                          abiArgType := JITtype2varType orc argType\<rparr>]\<rparr>) st1)))"

definition lowerCallToShadowStack :: "Oracles \<Rightarrow> nat \<Rightarrow> Llvm \<Rightarrow> error + Llvm" where
  "lowerCallToShadowStack orc callNode st =
     (if IsHelperCall (nodes st callNode) \<and> gtCallHelper (nodes st callNode) = None then Inl InvalidRead
      else foldE (lowerCallArgToShadowStack orc callNode) [0..<length (gtArgs (nodes st callNode))] st)"

definition lowerUnmanagedCall ::
    "(nat \<Rightarrow> Llvm \<Rightarrow> error + Llvm) \<Rightarrow> Oracles \<Rightarrow> nat \<Rightarrow> Llvm \<Rightarrow> error + Llvm" where
  "lowerUnmanagedCall lowerCallRec orc callNode st =
     (let st1 = (if gtCallType (nodes st callNode) \<noteq> CT_INDIRECT
                 then updNode callNode
                        (\<lambda>n. n\<lparr>gtEntryPoint := Some (getExternalMethodAccessor orc n)\<rparr>) st
                 else st)
      in if GTF_CALL_M_SUPPRESS_GC_TRANSITION \<notin> gtCallMoreFlags (nodes st1 callNode) then
           (let (st2, frameAddr) = gtNewLclVarAddrNode (lvaInlinedPInvokeFrameVar orc) st1;
                (st3, helperCall) = gtNewHelperCallNode CORINFO_HELP_JIT_PINVOKE_BEGIN TYP_VOID [frameAddr] st2;
                st4 = CurrentRange_InsertBefore callNode [frameAddr, helperCall] st3
            in bindE (lowerLocal orc frameAddr st4) (\<lambda>st5.
               bindE (lowerCallRec helperCall st5) (\<lambda>st6.
                 let (st7, frameAddr2) = gtNewLclVarAddrNode (lvaInlinedPInvokeFrameVar orc) st6;
                     (st8, helperCall2) = gtNewHelperCallNode CORINFO_HELP_JIT_PINVOKE_END TYP_VOID [frameAddr2] st7
                 in Inr (CurrentRange_InsertAfter callNode [frameAddr2, helperCall2] st8))))
         else Inr st1)"

text \<open>
  The loop \<open>while (CurrentRange().LastNode() != callNode) Remove(LastNode(), true)\<close>. It
  reads a null pointer once the range is empty.
\<close>
function removeAfterCall :: "Oracles \<Rightarrow> nat \<Rightarrow> Llvm \<Rightarrow> error + Llvm" where
  "removeAfterCall orc callNode st =
     (case LastNode (m_currentRange st) of
        None \<Rightarrow> Inl InvalidRead
      | Some lastNode \<Rightarrow>
          if lastNode \<noteq> callNode
          then removeAfterCall orc callNode (CurrentRange_Remove orc lastNode True st)
          else Inr st)"
  by pat_completeness auto

termination removeAfterCall
proof (relation "measure (\<lambda>(orc, callNode, st). length (m_currentRange st))")
  show "wf (measure (\<lambda>(orc, callNode, st). length (m_currentRange st)))" by simp
next
  fix orc :: Oracles and callNode :: nat and st :: Llvm and lastNode :: nat
  assume l: "LastNode (m_currentRange st) = Some lastNode"
  then have ne: "m_currentRange st \<noteq> []" and lst: "lastNode = last (m_currentRange st)"
    by (auto simp: LastNode_def split: if_splits)
  have keep: "m_currentRange (fold (markUnused orc) xs s) = m_currentRange s" for xs s
    by (induction xs arbitrary: s) (simp_all add: markUnused_def updNode_def)
  have "lastNode \<in> set (m_currentRange st)" using ne lst by simp
  then have "length (remove1 lastNode (m_currentRange st)) < length (m_currentRange st)"
    by (simp add: length_remove1 ne)
  then show "((orc, callNode, CurrentRange_Remove orc lastNode True st), (orc, callNode, st))
          \<in> measure (\<lambda>(orc, callNode, st). length (m_currentRange st))"
    by (simp add: CurrentRange_Remove_def Let_def keep)
qed

definition lowerCallNoReturn :: "Oracles \<Rightarrow> nat \<Rightarrow> Llvm \<Rightarrow> error + Llvm" where
  "lowerCallNoReturn orc callNode st =
     (if fgIsThrow orc (nodes st callNode) \<or> IsNoReturn (nodes st callNode) then
        bindE (removeAfterCall orc callNode st) (\<lambda>st1.
          case m_currentBlock st1 of
            None \<Rightarrow> Inl InvalidRead
          | Some block \<Rightarrow>
              if bbKind (blocks st1 block) \<noteq> BBJ_THROW then Inr (fgConvertBBToThrowBB block st1)
              else Inr st1)
      else Inr st)"

definition lowerCallPrologue :: "Oracles \<Rightarrow> nat \<Rightarrow> Llvm \<Rightarrow> error + Llvm" where
  "lowerCallPrologue orc callNode st =
     (if IsHelperCallOf CORINFO_HELP_RETHROW (nodes st callNode) then lowerRethrow orc callNode st
      else if IsHelperCallOf CORINFO_HELP_OVERFLOW (nodes st callNode) \<and> gtArgs (nodes st callNode) \<noteq> []
      then
        (let arg = gtArgs (nodes st callNode) ! 0;
             st1 = CurrentRange_Remove orc (argNode arg) False st
         in Inr (updNode callNode (\<lambda>n. n\<lparr>gtArgs := tl (gtArgs n)\<rparr>) st1))
      else Inr st)"

text \<open>
  \<open>lowerCall\<close> calls itself on the helper calls that \<open>lowerVirtualStubCall\<close> and
  \<open>lowerUnmanagedCall\<close> insert. The first argument bounds the depth of that recursion; at
  depth zero the result is \<open>Diverges\<close>. \<open>gtArgs.MoveLateToEarly()\<close> has no counterpart: the
  model keeps one node for each argument.
\<close>
fun lowerCall :: "nat \<Rightarrow> Oracles \<Rightarrow> nat \<Rightarrow> Llvm \<Rightarrow> error + Llvm" where
  "lowerCall 0 orc callNode st = Inl Diverges"
| "lowerCall (Suc depth) orc callNode st =
     bindE (lowerCallPrologue orc callNode st) (\<lambda>st1.
     bindE (if NeedsNullCheck (nodes st1 callNode) \<or> IsVirtualStub (nodes st1 callNode)
            then insertNullCheckForCall orc callNode st1 else Inr st1) (\<lambda>st2.
     bindE (if IsVirtualStub (nodes st2 callNode)
            then lowerVirtualStubCall (lowerCall depth orc) orc callNode st2
            else if GTF_CALL_M_DELEGATE_INV \<in> gtCallMoreFlags (nodes st2 callNode)
            then lowerDelegateInvoke orc callNode st2
            else Inr st2) (\<lambda>st3.
     bindE (lowerCallReturn orc callNode st3) (\<lambda>st4.
     bindE (lowerCallToShadowStack orc callNode st4) (\<lambda>st5.
     bindE (if GTF_CALL_M_UNMANAGED \<in> gtCallMoreFlags (nodes st5 callNode)
            then lowerUnmanagedCall (lowerCall depth orc) orc callNode st5 else Inr st5) (\<lambda>st6.
     lowerCallNoReturn orc callNode st6))))))"

definition lowerNode :: "nat \<Rightarrow> Oracles \<Rightarrow> nat \<Rightarrow> Llvm \<Rightarrow> error + Llvm" where
  "lowerNode depth orc node st =
     (case gtOper (nodes st node) of
        GT_LCL_VAR \<Rightarrow> lowerLocal orc node st
      | GT_LCL_FLD \<Rightarrow> lowerLocal orc node st
      | GT_LCL_ADDR \<Rightarrow> lowerLocal orc node st
      | GT_STORE_LCL_VAR \<Rightarrow> lowerLocal orc node st
      | GT_STORE_LCL_FLD \<Rightarrow> lowerLocal orc node st
      | GT_CALL \<Rightarrow> lowerCall depth orc node st
      | GT_CATCH_ARG \<Rightarrow> Inr (lowerCatchArg node st)
      | GT_IND \<Rightarrow> lowerIndir node st
      | GT_BLK \<Rightarrow> lowerIndir node st
      | GT_NULLCHECK \<Rightarrow> lowerIndir node st
      | GT_STOREIND \<Rightarrow> lowerIndir node st
      | GT_STORE_BLK \<Rightarrow> lowerStoreBlk node st
      | GT_STORE_DYN_BLK \<Rightarrow> lowerStoreDynBlk node st
      | GT_DIV \<Rightarrow> lowerDivMod orc node st
      | GT_MOD \<Rightarrow> lowerDivMod orc node st
      | GT_UDIV \<Rightarrow> lowerDivMod orc node st
      | GT_UMOD \<Rightarrow> lowerDivMod orc node st
      | GT_RETURN \<Rightarrow> lowerReturn orc node st
      | GT_LCLHEAP \<Rightarrow> Inr (lowerLclHeap node st)
      | _ \<Rightarrow> Inr st)"

subsection \<open>Local classification: \<open>lowerLocalsBeforeNodes\<close>\<close>

text \<open>
  Modelled from the spec: \<open>initializeLocalInProlog\<close> is not in this file; the spec has
  "synthesize a prolog store initializing" the local. The model records the local and the
  node of the value.
\<close>
definition initializeLocalInProlog :: "nat \<Rightarrow> nat \<Rightarrow> Llvm \<Rightarrow> Llvm" where
  "initializeLocalInProlog lclNum val st = st\<lparr>prologInits := prologInits st @ [(lclNum, val)]\<rparr>"


definition initPromotedField :: "nat \<Rightarrow> nat \<Rightarrow> Llvm \<Rightarrow> Llvm" where
  "initPromotedField lclNum index st =
     (let fieldLclNum = lvFieldLclStart (lvaTable st lclNum) + index;
          fieldVarDsc = lvaTable st fieldLclNum
      in if lvRefCnt fieldVarDsc \<noteq> 0 then
           (let (st1, fieldValue) = gtNewLclFldNode lclNum (lvType fieldVarDsc) (lvFldOffset fieldVarDsc) st;
                st2 = initializeLocalInProlog fieldLclNum fieldValue st1
            in updLcl fieldLclNum (\<lambda>v. v\<lparr>lvHasExplicitInit := True\<rparr>) st2)
         else st)"




subsection \<open>The driver: \<open>Lower\<close>\<close>



subsection \<open>Predicates used in the proofs\<close>

text \<open>
  \<open>sameCallShape c st st1\<close>: from \<open>st\<close> to \<open>st1\<close> the current range and block, the blocks, and
  the operator, type, flags and call target of every node are the same, and the call \<open>c\<close> has
  the same argument nodes.
\<close>
definition sameCallShape :: "nat \<Rightarrow> Llvm \<Rightarrow> Llvm \<Rightarrow> bool" where
  "sameCallShape c st st1 =
     (m_currentRange st1 = m_currentRange st \<and> m_currentBlock st1 = m_currentBlock st \<and>
      blocks st1 = blocks st \<and>
      (\<forall>n. gtType (nodes st1 n) = gtType (nodes st n) \<and> gtOper (nodes st1 n) = gtOper (nodes st n) \<and>
           gtCallType (nodes st1 n) = gtCallType (nodes st n) \<and>
           gtCallHelper (nodes st1 n) = gtCallHelper (nodes st n) \<and>
           gtCallMoreFlags (nodes st1 n) = gtCallMoreFlags (nodes st n) \<and>
           gtFlags (nodes st1 n) = gtFlags (nodes st n)) \<and>
      map argNode (gtArgs (nodes st1 c)) = map argNode (gtArgs (nodes st c)))"

subsection \<open>Predicates used in the proofs about the spiller\<close>

text \<open>
  \<open>shapeOf n\<close> is what the spiller never changes of a node: everything but the mark and
  the nodes its operand edges point to.
\<close>
definition shapeOf :: "GenTree \<Rightarrow> GenTree" where
  "shapeOf n = n\<lparr>gtLIRMark := False, gtOps := map (\<lambda>_. 0) (gtOps n),
                 gtArgs := map (\<lambda>a. a\<lparr>argNode := 0\<rparr>) (gtArgs n),
                 gtControlExpr := map_option (\<lambda>_. 0) (gtControlExpr n),
                 gtCallCookie := map_option (\<lambda>_. 0) (gtCallCookie n),
                 gtCallAddr := map_option (\<lambda>_. 0) (gtCallAddr n)\<rparr>"

text \<open>The nodes created since the state \<open>st0\<close>.\<close>
definition isFresh :: "SpillState \<Rightarrow> SpillState \<Rightarrow> nat \<Rightarrow> bool" where
  "isFresh st0 st n = (nextNode st0 \<le> n \<and> n < nextNode st)"

text \<open>
  Every node that is not new has the shape it had in \<open>st0\<close>, each of its operand edges is
  the one it had or a new node, and no new node is contained.
\<close>
definition NodesInv :: "SpillState \<Rightarrow> SpillState \<Rightarrow> bool" where
  "NodesInv st0 st =
     (nextNode st0 \<le> nextNode st \<and>
      (\<forall>n. \<not> isFresh st0 st n \<longrightarrow> shapeOf (nodes st n) = shapeOf (nodes st0 n)) \<and>
      (\<forall>n i. \<not> isFresh st0 st n \<longrightarrow> i < length (UseEdges (nodes st0 n)) \<longrightarrow>
             UseEdges (nodes st n) ! i = UseEdges (nodes st0 n) ! i \<or>
             isFresh st0 st (UseEdges (nodes st n) ! i)) \<and>
      (\<forall>f. isFresh st0 st f \<longrightarrow> \<not> gtContained (nodes st f)))"

text \<open>
  The table of live definitions against the nodes \<open>proc\<close> walked so far: the keys are
  distinct, every marked node is a key, every key has been walked and has a type that can
  be spilled, every slot in the table is a local, and so is every slot of the free-lists,
  those of the reference free-list with the type \<open>TYP_REF\<close>.
\<close>
definition TableInv :: "SpillState \<Rightarrow> nat list \<Rightarrow> SpillState \<Rightarrow> bool" where
  "TableInv st0 proc st =
     (distinct (map m_key (liveGcDefs st)) \<and>
      (\<forall>n. gtLIRMark (nodes st n) \<longrightarrow> TryGetValue n (liveGcDefs st) \<noteq> None) \<and>
      (\<forall>k. TryGetValue k (liveGcDefs st) \<noteq> None \<longrightarrow>
           k \<in> set proc \<and> gtType (nodes st0 k) \<in> {TYP_REF, TYP_BYREF, TYP_STRUCT}) \<and>
      (\<forall>k s. TryGetValue k (liveGcDefs st) = Some (Some s) \<longrightarrow> s < lvaCount st) \<and>
      (\<forall>s\<in>set (spillLclsRef st). s < lvaCount st \<and> lvType (lvaTable st s) = TYP_REF) \<and>
      (\<forall>s\<in>set (spillLclsByref st). s < lvaCount st))"

text \<open>
  The range is the nodes walked so far, with new nodes among them, followed by the nodes
  \<open>todo\<close> still to walk; none of these nodes is new.
\<close>
definition RangeInv :: "SpillState \<Rightarrow> nat list \<Rightarrow> nat list \<Rightarrow> SpillState \<Rightarrow> bool" where
  "RangeInv st0 proc todo st =
     (distinct (blockRange st) \<and>
      (\<forall>x\<in>set proc \<union> set todo. x < nextNode st0) \<and>
      (\<exists>walked. blockRange st = walked @ todo \<and> set proc \<subseteq> set walked \<and>
              (\<forall>x\<in>set walked. x \<in> set proc \<or> isFresh st0 st x)))"

text \<open>
  The state in which the walk of a block starts: the range has no node twice and only
  nodes that exist, no node is marked, the table and the stack of contained operands are
  empty, a contained operand stands in the range before its user, and the free-lists hold
  locals, the reference free-list locals of type \<open>TYP_REF\<close>.
\<close>
definition spillWellFormed :: "SpillState \<Rightarrow> bool" where
  "spillWellFormed st0 =
     (distinct (blockRange st0) \<and>
      (\<forall>x\<in>set (blockRange st0). x < nextNode st0) \<and>
      (\<forall>n. \<not> gtLIRMark (nodes st0 n)) \<and>
      liveGcDefs st0 = [] \<and> containedOperands st0 = [] \<and>
      (\<forall>u\<in>set (blockRange st0). \<forall>c\<in>set (UseEdges (nodes st0 u)).
           gtContained (nodes st0 c) \<longrightarrow> c \<in> set (takeWhile (\<lambda>x. x \<noteq> u) (blockRange st0))) \<and>
      (\<forall>s\<in>set (spillLclsRef st0). s < lvaCount st0 \<and> lvType (lvaTable st0 s) = TYP_REF) \<and>
      (\<forall>s\<in>set (spillLclsByref st0). s < lvaCount st0))"

definition SpillInv :: "SpillState \<Rightarrow> nat list \<Rightarrow> nat list \<Rightarrow> SpillState \<Rightarrow> bool" where
  "SpillInv st0 proc todo st =
     (NodesInv st0 st \<and> TableInv st0 proc st \<and> RangeInv st0 proc todo st)"

text \<open>
  What spilling the definition \<open>d\<close> to the slot \<open>s\<close> does to the state: one new node, the
  store of \<open>d\<close> to \<open>s\<close>, right after \<open>d\<close> in the range; the slot is a local, taken from a
  free-list or new; nothing else changes.
\<close>
definition SpillEff :: "nat \<Rightarrow> nat \<Rightarrow> SpillState \<Rightarrow> SpillState \<Rightarrow> bool" where
  "SpillEff d s st st' =
     (nextNode st' = Suc (nextNode st) \<and>
      (\<forall>n. n \<noteq> nextNode st \<longrightarrow> nodes st' n = nodes st n) \<and>
      gtOper (nodes st' (nextNode st)) = GT_STORE_LCL_VAR \<and>
      gtLclNum (nodes st' (nextNode st)) = s \<and>
      UseEdges (nodes st' (nextNode st)) = [d] \<and>
      \<not> gtContained (nodes st' (nextNode st)) \<and>
      \<not> gtLIRMark (nodes st' (nextNode st)) \<and>
      blockRange st' = insertAfter d [nextNode st] (blockRange st) \<and>
      liveGcDefs st' = liveGcDefs st \<and> containedOperands st' = containedOperands st \<and>
      lclHeapUsed st' = lclHeapUsed st \<and>
      lvaCount st \<le> lvaCount st' \<and>
      (\<forall>l. l < lvaCount st \<longrightarrow> lvaTable st' l = lvaTable st l) \<and>
      s < lvaCount st' \<and>
      (gtType (nodes st d) = TYP_REF \<longrightarrow> lvType (lvaTable st' s) = TYP_REF) \<and>
      set (spillLclsRef st') \<subseteq> set (spillLclsRef st) \<and>
      set (spillLclsByref st') \<subseteq> set (spillLclsByref st))"

text \<open>
  What replacing the \<open>i\<close>-th operand of \<open>user\<close>, the spilled definition \<open>operand\<close>, by a
  load from its slot \<open>s\<close> does to the state: one new node, the load, right before \<open>user\<close>
  in the range and at the end of the operand edge; the definition is no longer marked nor
  in the table; the slot is pushed on the free-list of its type.
\<close>
definition LoadEff :: "nat \<Rightarrow> nat \<Rightarrow> nat \<Rightarrow> nat \<Rightarrow> SpillState \<Rightarrow> SpillState \<Rightarrow> bool" where
  "LoadEff user i operand s st st' =
     (nextNode st' = Suc (nextNode st) \<and>
      (\<forall>n. n \<noteq> nextNode st \<and> n \<noteq> user \<and> n \<noteq> operand \<longrightarrow> nodes st' n = nodes st n) \<and>
      gtOper (nodes st' (nextNode st)) = GT_LCL_VAR \<and>
      gtLclNum (nodes st' (nextNode st)) = s \<and>
      gtType (nodes st' (nextNode st)) = lvType (lvaTable st s) \<and>
      \<not> gtContained (nodes st' (nextNode st)) \<and>
      \<not> gtLIRMark (nodes st' (nextNode st)) \<and>
      shapeOf (nodes st' user) = shapeOf (nodes st user) \<and>
      UseEdges (nodes st' user) = (UseEdges (nodes st user))[i := nextNode st] \<and>
      shapeOf (nodes st' operand) = shapeOf (nodes st operand) \<and>
      (operand \<noteq> user \<longrightarrow> UseEdges (nodes st' operand) = UseEdges (nodes st operand)) \<and>
      \<not> gtLIRMark (nodes st' operand) \<and>
      (\<forall>n. n \<noteq> operand \<longrightarrow> n \<noteq> nextNode st \<longrightarrow> gtLIRMark (nodes st' n) = gtLIRMark (nodes st n)) \<and>
      blockRange st' = insertBefore user [nextNode st] (blockRange st) \<and>
      liveGcDefs st' = fst (TryRemove operand (liveGcDefs st)) \<and>
      lvaTable st' = lvaTable st \<and> lvaCount st' = lvaCount st \<and>
      spillLclsRef st' =
        (if lvType (lvaTable st s) = TYP_REF then s # spillLclsRef st else spillLclsRef st) \<and>
      set (spillLclsByref st') \<subseteq> insert s (set (spillLclsByref st)) \<and>
      containedOperands st' = containedOperands st \<and> lclHeapUsed st' = lclHeapUsed st)"

text \<open>The rest of the loop over the users of a node, once the edges of a user are done.\<close>
definition drainContained :: "SpillState \<Rightarrow> SpillState option" where
  "drainContained st =
     (case containedOperands st of
        [] \<Rightarrow> Some st
      | u # rest \<Rightarrow> spillUsers u (st\<lparr>containedOperands := rest\<rparr>))"

text \<open>The place of a node in a range: the number of nodes before it.\<close>
definition placeIn :: "nat list \<Rightarrow> nat \<Rightarrow> nat" where
  "placeIn r x = length (takeWhile (\<lambda>y. y \<noteq> x) r)"

text \<open>
  What spilling the table entry of the definition \<open>k\<close> does to the state: nothing but the
  table's layout if the entry has a slot; otherwise the definition is spilled to a slot,
  which the entry then holds.
\<close>
definition SpillKeyEff :: "nat \<Rightarrow> SpillState \<Rightarrow> SpillState \<Rightarrow> bool" where
  "SpillKeyEff k st st' =
     (\<exists>s st1 t'.
        (TryGetValue k (liveGcDefs st) = Some (Some s) \<and> st1 = st \<or>
         TryGetValue k (liveGcDefs st) = Some None \<and> SpillEff k s st st1) \<and>
        st' = st1\<lparr>liveGcDefs := t'\<rparr> \<and>
        map m_key t' = map m_key (liveGcDefs st) \<and>
        (\<forall>k'. TryGetValue k' t' =
                (if k' = k then Some (Some s) else TryGetValue k' (liveGcDefs st))))"

text \<open>The steps of the loop body for a node that is not contained, beside the two loops.\<close>
definition heapStep :: "nat \<Rightarrow> SpillState \<Rightarrow> SpillState" where
  "heapStep node st = (if gtOper (nodes st node) = GT_LCLHEAP then st\<lparr>lclHeapUsed := True\<rparr> else st)"

definition safepointStep :: "Oracles \<Rightarrow> nat \<Rightarrow> SpillState \<Rightarrow> error + SpillState" where
  "safepointStep orc node st =
     (if isPotentialGcSafePoint orc (nodes st node) \<and> length (liveGcDefs st) \<noteq> 0
      then foldE spillLiveDef [0..<length (liveGcDefs st)] st
      else Inr st)"

definition addDefStep :: "Oracles \<Rightarrow> nat \<Rightarrow> SpillState \<Rightarrow> SpillState" where
  "addDefStep orc node st =
     (if IsValue orc (nodes st node) \<and> \<not> gtLIRUnusedValue (nodes st node) \<and>
         isGcTemp orc st (nodes st node)
      then
        (let st5 = updNode node (\<lambda>n. n\<lparr>gtLIRMark := True\<rparr>) st
         in st5\<lparr>liveGcDefs :=
                  AddOrUpdate orc (DeterministicNodeHashInfo_GetHashCode orc (nodes st5 node))
                    node None (liveGcDefs st5)\<rparr>)
      else st)"

text \<open>
  \<open>keptByNode orc st0 proc n todo T T'\<close>: a property \<open>T\<close> of the state is kept by every step of
  the loop body for the node \<open>n\<close>, and gives \<open>T'\<close> once the definition of \<open>n\<close> is added.
\<close>
definition keptByNode ::
    "Oracles \<Rightarrow> SpillState \<Rightarrow> nat list \<Rightarrow> nat \<Rightarrow> nat list \<Rightarrow>
     (SpillState \<Rightarrow> bool) \<Rightarrow> (SpillState \<Rightarrow> bool) \<Rightarrow> bool" where
  "keptByNode orc st0 proc n todo T T' =
     ((\<forall>s b. T s \<longrightarrow> T (s\<lparr>lclHeapUsed := b\<rparr>)) \<and>
      (\<forall>s r. T s \<longrightarrow> T (s\<lparr>containedOperands := r\<rparr>)) \<and>
      (\<forall>k s s'. SpillInv st0 proc (n # todo) s \<longrightarrow> SpillKeyEff k s s' \<longrightarrow> T s \<longrightarrow> T s') \<and>
      (\<forall>u i s. (u = n \<or> u \<in> set proc \<and> gtContained (nodes st0 u)) \<longrightarrow>
           i < length (UseEdges (nodes st0 u)) \<longrightarrow> SpillInv st0 proc (n # todo) s \<longrightarrow>
           T s \<longrightarrow> T (spillUseEdge u i s)) \<and>
      (\<forall>s. SpillInv st0 proc (n # todo) s \<longrightarrow> \<not> gtContained (nodes st0 n) \<longrightarrow> T s \<longrightarrow>
           T' (addDefStep orc n s)) \<and>
      (\<forall>s. gtContained (nodes st0 n) \<longrightarrow> T s \<longrightarrow> T' s))"

text \<open>
  \<open>soleUse st0 X U j\<close>: the definition \<open>X\<close>, of type \<open>TYP_REF\<close> and not contained, is the
  \<open>j\<close>-th operand of the node \<open>U\<close>, which is not contained, and no other operand edge
  points to \<open>X\<close>.
\<close>
definition soleUse :: "SpillState \<Rightarrow> nat \<Rightarrow> nat \<Rightarrow> nat \<Rightarrow> bool" where
  "soleUse st0 X U j =
     (X < nextNode st0 \<and> gtType (nodes st0 X) = TYP_REF \<and> \<not> gtContained (nodes st0 X) \<and>
      U < nextNode st0 \<and> \<not> gtContained (nodes st0 U) \<and>
      j < length (UseEdges (nodes st0 U)) \<and> UseEdges (nodes st0 U) ! j = X \<and>
      (\<forall>u i. i < length (UseEdges (nodes st0 u)) \<longrightarrow> UseEdges (nodes st0 u) ! i = X \<longrightarrow>
             u = U \<and> i = j))"

text \<open>
  \<open>Spilled st0 X s st\<close>: the slot \<open>s\<close> is a local of type \<open>TYP_REF\<close>, and right after \<open>X\<close> in
  the range stands a new node that stores \<open>X\<close> to \<open>s\<close>.
\<close>
definition Spilled :: "SpillState \<Rightarrow> nat \<Rightarrow> nat \<Rightarrow> SpillState \<Rightarrow> bool" where
  "Spilled st0 X s st =
     (s < lvaCount st \<and> lvType (lvaTable st s) = TYP_REF \<and>
      (\<exists>S r1 r2. blockRange st = r1 @ X # S # r2 \<and> isFresh st0 st S \<and>
          gtOper (nodes st S) = GT_STORE_LCL_VAR \<and> gtLclNum (nodes st S) = s \<and>
          UseEdges (nodes st S) = [X]))"

text \<open>
  \<open>TrackLive st0 X U j st\<close>: \<open>X\<close> is marked and still the \<open>j\<close>-th operand of \<open>U\<close>, and if its
  table entry holds a slot then \<open>X\<close> is spilled to that slot.
\<close>
definition TrackLive :: "SpillState \<Rightarrow> nat \<Rightarrow> nat \<Rightarrow> nat \<Rightarrow> SpillState \<Rightarrow> bool" where
  "TrackLive st0 X U j st =
     (gtLIRMark (nodes st X) \<and> UseEdges (nodes st U) ! j = X \<and>
      (\<forall>s. TryGetValue X (liveGcDefs st) = Some (Some s) \<longrightarrow> Spilled st0 X s st))"

text \<open>
  \<open>Stretch st0 L U st\<close>: \<open>L\<close> stands before \<open>U\<close> in the range, with only new reads of locals
  between them.
\<close>
definition Stretch :: "SpillState \<Rightarrow> nat \<Rightarrow> nat \<Rightarrow> SpillState \<Rightarrow> bool" where
  "Stretch st0 L U st =
     (\<exists>r1 ls r2. blockRange st = r1 @ L # ls @ U # r2 \<and>
         (\<forall>l\<in>set ls. isFresh st0 st l \<and> gtOper (nodes st l) = GT_LCL_VAR))"

text \<open>
  \<open>TrackUsed st0 X U j s L st\<close>: \<open>X\<close> is spilled to \<open>s\<close> and no longer in the table, the \<open>j\<close>-th
  operand of \<open>U\<close> is the new node \<open>L\<close>, a read of the local \<open>s\<close>, and between \<open>L\<close> and \<open>U\<close> in
  the range stand only new reads of locals.
\<close>
definition TrackUsed :: "SpillState \<Rightarrow> nat \<Rightarrow> nat \<Rightarrow> nat \<Rightarrow> nat \<Rightarrow> nat \<Rightarrow> SpillState \<Rightarrow> bool" where
  "TrackUsed st0 X U j s L st =
     (Spilled st0 X s st \<and> TryGetValue X (liveGcDefs st) = None \<and>
      UseEdges (nodes st U) ! j = L \<and> isFresh st0 st L \<and>
      gtOper (nodes st L) = GT_LCL_VAR \<and> gtLclNum (nodes st L) = s \<and>
      Stretch st0 L U st)"

subsection \<open>Example inputs\<close>

definition exampleBlocks :: "nat \<Rightarrow> BasicBlock" where
  "exampleBlocks = (\<lambda>_. blankBlock BBJ_NONE)(0 := (blankBlock BBJ_NONE)\<lparr>bbTryIndex := Some 0\<rparr>,
                      1 := (blankBlock BBJ_RETURN)\<lparr>bbHndIndex := Some 0\<rparr>)"

definition exampleFlowGraph :: Compiler where
  "exampleFlowGraph = \<lparr>nodes = (\<lambda>_. blankNode (GT_OTHER 0) TYP_VOID), nextNode = 0, lvaTable = (\<lambda>_. blankLclVarDsc), lvaCount = 0,
     opts_IsReversePInvoke = True, blocks = exampleBlocks, nextBlock = 2,
     fgOrder = [0, 1], fgFirstBBScratch = None,
     compHndBBtab = [blankEHblkDsc\<lparr>ebdTryBeg := 0, ebdTryLast := 0, ebdHndBeg := 1, ebdHndLast := 1,
        ebdEnclosingTryIndex := NO_ENCLOSING_INDEX, ebdEnclosingHndIndex := NO_ENCLOSING_INDEX\<rparr>],
     fgCodeRefs = [], prologInits = []\<rparr>"

definition exampleNoTry :: Compiler where
  "exampleNoTry = \<lparr>nodes = (\<lambda>_. blankNode (GT_OTHER 0) TYP_VOID), nextNode = 0, lvaTable = (\<lambda>_. blankLclVarDsc), lvaCount = 0,
     opts_IsReversePInvoke = True, blocks = (\<lambda>_. blankBlock BBJ_RETURN), nextBlock = 2,
     fgOrder = [0, 1], fgFirstBBScratch = None, compHndBBtab = [], fgCodeRefs = [], prologInits = []\<rparr>"


definition exampleOracles :: Oracles where
  "exampleOracles = \<lparr>
     gcSafePointTable = (\<lambda>oper callType helper flags. oper = GT_CALL),
     operIsNoValue = (\<lambda>oper. oper \<in> {GT_STORE_LCL_VAR, GT_STORE_LCL_FLD, GT_STOREIND, GT_STORE_BLK,
                                     GT_STORE_DYN_BLK, GT_RETURN, GT_NULLCHECK}),
     layoutHasGCPtr = (\<lambda>l. l = 1),
     typeCode = (\<lambda>t. case t of TYP_VOID \<Rightarrow> 0 | TYP_INT \<Rightarrow> 1 | TYP_LONG \<Rightarrow> 2 | TYP_I_IMPL \<Rightarrow> 1
                         | TYP_REF \<Rightarrow> 3 | TYP_BYREF \<Rightarrow> 4 | TYP_STRUCT \<Rightarrow> 5),
     operCode = (\<lambda>oper. case oper of GT_LCL_VAR \<Rightarrow> 1 | GT_IND \<Rightarrow> 8 | GT_CALL \<Rightarrow> 6 | _ \<Rightarrow> 0),
     tablePlace = (\<lambda>hs h. length (filter (\<lambda>x. x \<le> h) hs)),
     nodeAddress = (\<lambda>n. 4096 + 64 * n),
     HasCatchHandler = (\<lambda>d. ebdHandlerType d = EH_HANDLER_CATCH),
     fgAddrCouldBeNull = (\<lambda>n. True),
     isThrowHelper = (\<lambda>h. h = CORINFO_HELP_OTHER 7),
     getLlvmTypeForStruct = (\<lambda>l. l div 2),
     typGetObjLayout = (\<lambda>c. c),
     getLlvmReturnType = (\<lambda>t c. t),
     getLlvmArgTypeForArg = (\<lambda>t c. t),
     helperSigReturnType = (\<lambda>h. CORINFO_TYPE_OTHER 0),
     helperSigArgType = (\<lambda>h i. CORINFO_TYPE_PTR),
     helperSigArgClass = (\<lambda>h i. 0),
     toCorInfoType = (\<lambda>t. CORINFO_TYPE_OTHER 0),
     JITtype2varType = (\<lambda>t. TYP_I_IMPL),
     getExternalMethodAccessor = (\<lambda>n. 0),
     offsetOfDelegateInstance = 8,
     offsetOfDelegateFirstTarget = 24,
     lvaInlinedPInvokeFrameVar = 0,
     compRetType = TYP_VOID,
     compRetTypeClass = 0,
     ehAnyFunclets = False,
     isFuncletParameter = (\<lambda>l. False),
     fgVarNeedsExplicitZeroInit = (\<lambda>l. True),
     doUseDynamicStackForLclHeap = True,
     canBeReplacedWithItsField = (\<lambda>v. False),
     isPartialLclFld = (\<lambda>n. False),
     operMayDivideByZero = (\<lambda>n. True),
     operMayOverflow = (\<lambda>n. False)\<rparr>"

text \<open>
  A block inside a catch handler: a catch argument, a rethrow, a read of a struct local,
  a call of a helper that always throws, and a return after it.
\<close>
definition exampleNodes :: "nat \<Rightarrow> GenTree" where
  "exampleNodes = (\<lambda>_. blankNode (GT_OTHER 0) TYP_VOID)
     (0 := blankNode GT_CATCH_ARG TYP_REF,
      1 := (blankNode GT_CALL TYP_VOID)\<lparr>gtCallType := CT_HELPER, gtCallHelper := Some CORINFO_HELP_RETHROW\<rparr>,
      2 := (blankNode GT_LCL_VAR TYP_STRUCT)\<lparr>gtLclNum := 1\<rparr>,
      3 := (blankNode GT_STORE_LCL_VAR TYP_STRUCT)\<lparr>gtLclNum := 2, gtOps := [2]\<rparr>,
      4 := (blankNode GT_CALL TYP_VOID)\<lparr>gtCallType := CT_HELPER, gtCallHelper := Some (CORINFO_HELP_OTHER 7)\<rparr>,
      5 := blankNode GT_RETURN TYP_VOID)"

definition exampleLlvm :: Llvm where
  "exampleLlvm = \<lparr>
     nodes = exampleNodes, nextNode = 6,
     lvaTable = (\<lambda>_. blankLclVarDsc)
        (0 := blankLclVarDsc\<lparr>lvType := TYP_I_IMPL, lvRefCnt := 1\<rparr>,
         1 := blankLclVarDsc\<lparr>lvType := TYP_STRUCT, lvLayout := 2\<rparr>,
         2 := blankLclVarDsc\<lparr>lvType := TYP_STRUCT, lvLayout := 3\<rparr>),
     lvaCount = 3,
     opts_IsReversePInvoke = False,
     blocks = (\<lambda>_. blankBlock BBJ_NONE)(0 := (blankBlock BBJ_RETURN)\<lparr>bbHndIndex := Some 0, bbRange := [0, 1, 2, 3, 4, 5]\<rparr>),
     nextBlock = 1, fgOrder = [0], fgFirstBBScratch = None,
     compHndBBtab = [blankEHblkDsc\<lparr>ebdHandlerType := EH_HANDLER_CATCH\<rparr>],
     fgCodeRefs = [], prologInits = [],
     m_currentBlock = Some 0, m_currentRange = [0, 1, 2, 3, 4, 5], m_lclHeapUsed = True,
     shadowStackLclNum = 0, shadowStackLocals = []\<rparr>"


text \<open>The same block inside a filter's handler region that is not a catch.\<close>
definition exampleLlvmFinally :: Llvm where
  "exampleLlvmFinally = exampleLlvm\<lparr>compHndBBtab := [blankEHblkDsc\<lparr>ebdHandlerType := EH_HANDLER_FINALLY\<rparr>]\<rparr>"

text \<open>
  A block for the spiller: \<open>t0 = LCL_VAR<ref>; t1 = IND<ref>(t0); CALL; t3 = LCL_VAR<ref>;
  STOREIND(t3, t1)\<close>. The value \<open>t1\<close> is live across the call.
\<close>
definition exampleSpill :: SpillState where
  "exampleSpill = \<lparr>nodes = (\<lambda>_. blankNode (GT_OTHER 0) TYP_VOID)
       (0 := (blankNode GT_LCL_VAR TYP_REF),
        1 := (blankNode GT_IND TYP_REF)\<lparr>gtOps := [0]\<rparr>,
        2 := (blankNode GT_CALL TYP_VOID),
        3 := (blankNode GT_LCL_VAR TYP_REF),
        4 := (blankNode GT_STOREIND TYP_VOID)\<lparr>gtOps := [3, 1]\<rparr>),
     nextNode = 5, lvaTable = (\<lambda>_. blankLclVarDsc), lvaCount = 1,
     blockRange = [0, 1, 2, 3, 4], liveGcDefs = [], spillLclsRef = [], spillLclsByref = [],
     containedOperands = [], lclHeapUsed = False\<rparr>"

text \<open>
  The block \<open>t0 = LCL_VAR<ref>; CALL; t2 = LCL_VAR<ref>; STOREIND(t2, t0)\<close>: the value live
  across the call is the read of a local.
\<close>
definition exampleSpillLocal :: SpillState where
  "exampleSpillLocal = \<lparr>nodes = (\<lambda>_. blankNode (GT_OTHER 0) TYP_VOID)
       (0 := (blankNode GT_LCL_VAR TYP_REF),
        1 := (blankNode GT_CALL TYP_VOID),
        2 := (blankNode GT_LCL_VAR TYP_REF),
        3 := (blankNode GT_STOREIND TYP_VOID)\<lparr>gtOps := [2, 0]\<rparr>),
     nextNode = 4, lvaTable = (\<lambda>_. blankLclVarDsc), lvaCount = 1,
     blockRange = [0, 1, 2, 3], liveGcDefs = [], spillLclsRef = [], spillLclsByref = [],
     containedOperands = [], lclHeapUsed = False\<rparr>"

lemma insertAfter_last: "xs \<noteq> [] \<Longrightarrow> distinct xs \<Longrightarrow> insertAfter (last xs) new xs = xs @ new"
  by (induction xs) auto

lemma insertAfter_snoc: "a \<notin> set xs \<Longrightarrow> insertAfter a new (xs @ [a]) = xs @ a # new"
  by (induction xs) auto

lemma takeWhile_snoc: "l \<notin> set xs \<Longrightarrow> takeWhile (\<lambda>b. b \<noteq> l) (xs @ l # ys) = xs"
  by (induction xs) auto

lemma BlocksFromTo_all: "xs \<noteq> [] \<Longrightarrow> distinct xs \<Longrightarrow> BlocksFromTo (xs @ ys) (hd xs) (last xs) = xs"
proof -
  assume a: "xs \<noteq> []" "distinct xs"
  then obtain zs l where xs: "xs = zs @ [l]" "l \<notin> set zs"
    by (metis append_butlast_last_id distinct.simps(2) distinct1_rotate rotate1.simps(2))
  have d: "dropWhile (\<lambda>b. b \<noteq> hd xs) (xs @ ys) = xs @ ys"
    using a by (cases xs) auto
  show ?thesis
    unfolding BlocksFromTo_def d Let_def using xs takeWhile_snoc[of l zs ys] by simp
qed

lemma fold_absorb_tab [simp]: "compHndBBtab (fold (absorbTryLess n) bs c) = compHndBBtab c"
  by (induction bs arbitrary: c) (auto simp: absorbTryLess_def updBlock_def)
lemma fold_absorb_order [simp]: "fgOrder (fold (absorbTryLess n) bs c) = fgOrder c"
  by (induction bs arbitrary: c) (auto simp: absorbTryLess_def updBlock_def)
lemma fold_absorb_next [simp]: "nextBlock (fold (absorbTryLess n) bs c) = nextBlock c"
  by (induction bs arbitrary: c) (auto simp: absorbTryLess_def updBlock_def)
lemma fold_absorb_scratch [simp]: "fgFirstBBScratch (fold (absorbTryLess n) bs c) = fgFirstBBScratch c"
  by (induction bs arbitrary: c) (auto simp: absorbTryLess_def updBlock_def)

lemma fold_absorb_block:
  "blocks (fold (absorbTryLess n) bs c) b =
     (if b \<in> set bs \<and> bbTryIndex (blocks c b) = None then (blocks c b)\<lparr>bbTryIndex := Some n\<rparr> else blocks c b)"
  by (induction bs arbitrary: c) (auto simp: absorbTryLess_def updBlock_def hasTryIndex_def)

lemma fold_nest_blocks [simp]: "blocks (fold (nestUnder n) is c) = blocks c"
  by (induction "is" arbitrary: c) (auto simp: nestUnder_def updEHDsc_def)
lemma fold_nest_order [simp]: "fgOrder (fold (nestUnder n) is c) = fgOrder c"
  by (induction "is" arbitrary: c) (auto simp: nestUnder_def updEHDsc_def)
lemma fold_nest_next [simp]: "nextBlock (fold (nestUnder n) is c) = nextBlock c"
  by (induction "is" arbitrary: c) (auto simp: nestUnder_def updEHDsc_def)
lemma fold_nest_len [simp]: "length (compHndBBtab (fold (nestUnder n) is c)) = length (compHndBBtab c)"
  by (induction "is" arbitrary: c) (auto simp: nestUnder_def updEHDsc_def)

lemma fold_nest_tab:
  "distinct is \<Longrightarrow> i < length (compHndBBtab c) \<Longrightarrow>
   compHndBBtab (fold (nestUnder n) is c) ! i =
     (if i \<in> set is \<and> ebdEnclosingTryIndex (compHndBBtab c ! i) = NO_ENCLOSING_INDEX
      then (compHndBBtab c ! i)\<lparr>ebdEnclosingTryIndex := of_nat n\<rparr> else compHndBBtab c ! i)"
proof (induction "is" arbitrary: c)
  case Nil then show ?case by simp
next
  case (Cons a "is")
  have len: "length (compHndBBtab (nestUnder n a c)) = length (compHndBBtab c)"
    by (simp add: nestUnder_def updEHDsc_def)
  have nth: "compHndBBtab (nestUnder n a c) ! i =
      (if i = a \<and> ebdEnclosingTryIndex (compHndBBtab c ! i) = NO_ENCLOSING_INDEX
       then (compHndBBtab c ! i)\<lparr>ebdEnclosingTryIndex := of_nat n\<rparr> else compHndBBtab c ! i)"
    using Cons.prems by (auto simp: nestUnder_def updEHDsc_def)
  show ?case using Cons.prems Cons.IH[of "nestUnder n a c"] len nth by auto
qed

lemma updBlock_proj [simp]:
  "blocks (updBlock b f c) = (blocks c)(b := f (blocks c b))"
  "fgOrder (updBlock b f c) = fgOrder c"
  "compHndBBtab (updBlock b f c) = compHndBBtab c"
  "nextBlock (updBlock b f c) = nextBlock c"
  by (simp_all add: updBlock_def)

lemma updEHDsc_proj [simp]:
  "blocks (updEHDsc i f c) = blocks c"
  "fgOrder (updEHDsc i f c) = fgOrder c"
  "compHndBBtab (updEHDsc i f c) = (compHndBBtab c)[i := f (compHndBBtab c ! i)]"
  "nextBlock (updEHDsc i f c) = nextBlock c"
  by (simp_all add: updEHDsc_def)

lemma fgAddEHTableEntry_proj [simp]:
  "blocks (fgAddEHTableEntry i c) = blocks c"
  "fgOrder (fgAddEHTableEntry i c) = fgOrder c"
  "i = length (compHndBBtab c) \<Longrightarrow> compHndBBtab (fgAddEHTableEntry i c) = compHndBBtab c @ [blankEHblkDsc]"
  "nextBlock (fgAddEHTableEntry i c) = nextBlock c"
  by (simp_all add: fgAddEHTableEntry_def)

lemma fgNewBBafter_proj [simp]:
  "snd (fgNewBBafter k a c) = nextBlock c"
  "blocks (fst (fgNewBBafter k a c)) = (blocks c)(nextBlock c := blankBlock k)"
  "fgOrder (fst (fgNewBBafter k a c)) = insertAfter a [nextBlock c] (fgOrder c)"
  "compHndBBtab (fst (fgNewBBafter k a c)) = compHndBBtab c"
  "nextBlock (fst (fgNewBBafter k a c)) = Suc (nextBlock c)"
  by (simp_all add: fgNewBBafter_def Let_def)

lemma absorbTryLess_proj [simp]:
  "fgOrder (absorbTryLess n b c) = fgOrder c"
  "compHndBBtab (absorbTryLess n b c) = compHndBBtab c"
  "nextBlock (absorbTryLess n b c) = nextBlock c"
  by (simp_all add: absorbTryLess_def)

lemma absorb_fold_cons: "fold (absorbTryLess n) bs (absorbTryLess n b c) = fold (absorbTryLess n) (b # bs) c"
  by simp

lemma scratch_upd_proj [simp]:
  "blocks (c\<lparr>fgFirstBBScratch := x\<rparr>) = blocks c"
  by simp


lemma fold_nest_all:
  "k \<le> length (compHndBBtab c) \<Longrightarrow>
   compHndBBtab (fold (nestUnder n) [0..<k] c) =
     map (\<lambda>d. if ebdEnclosingTryIndex d = NO_ENCLOSING_INDEX then d\<lparr>ebdEnclosingTryIndex := of_nat n\<rparr> else d)
       (take k (compHndBBtab c)) @ drop k (compHndBBtab c)"
  by (rule nth_equalityI) (auto simp: fold_nest_tab nth_append)

lemma AUEH_plain:
  assumes rev: "opts_IsReversePInvoke c" and ord: "fgOrder c = f # rest"
      and f: "\<not> hasTryIndex (blocks c f)"
      and dist: "distinct (fgOrder c)"
      and alloc: "\<forall>b\<in>set (fgOrder c). b < nextBlock c"
  shows "\<exists>c'. AddUnhandledExceptionHandler c = Inr c' \<and>
     fgOrder c' = fgOrder c @ [nextBlock c, Suc (nextBlock c)] \<and>
     compHndBBtab c' =
       map (\<lambda>d. if ebdEnclosingTryIndex d = NO_ENCLOSING_INDEX
                 then d\<lparr>ebdEnclosingTryIndex := of_nat (length (compHndBBtab c))\<rparr> else d) (compHndBBtab c) @
       [\<lparr>ebdHandlerType = EH_HANDLER_FILTER, ebdTryBeg = f, ebdTryLast = last (fgOrder c),
         ebdFilter = Some (nextBlock c), ebdHndBeg = Suc (nextBlock c), ebdHndLast = Suc (nextBlock c),
         ebdEnclosingTryIndex = NO_ENCLOSING_INDEX, ebdEnclosingHndIndex = NO_ENCLOSING_INDEX,
         ebdTryBegOffset = bbCodeOffs (blocks c f), ebdTryEndOffset = bbCodeOffsEnd (blocks c (last (fgOrder c))),
         ebdFilterBegOffset = 0, ebdHndBegOffset = 0, ebdHndEndOffset = 0\<rparr>] \<and>
     bbKind (blocks c' (nextBlock c)) = BBJ_THROW \<and>
     bbKind (blocks c' (Suc (nextBlock c))) = BBJ_THROW \<and>
     bbCatchTyp (blocks c' (nextBlock c)) = BBCT_FILTER \<and>
     bbCatchTyp (blocks c' (Suc (nextBlock c))) = BBCT_FILTER_HANDLER \<and>
     (\<forall>b\<in>set (fgOrder c). bbTryIndex (blocks c' b) =
         (if bbTryIndex (blocks c b) = None then Some (length (compHndBBtab c)) else bbTryIndex (blocks c b)))"
proof -
  have fr1: "nextBlock c \<notin> set (f # rest)" and fr2: "Suc (nextBlock c) \<notin> set (f # rest)"
    using alloc ord by auto
  have lst: "last (f # rest) \<in> set (f # rest)" by (rule last_in_set) simp
  have ia: "insertAfter (last (f # rest)) [nextBlock c] (f # rest) = f # rest @ [nextBlock c]"
    using insertAfter_last[of "f # rest"] dist ord by simp
  have ib: "insertAfter (nextBlock c) [Suc (nextBlock c)] (f # rest @ [nextBlock c]) = f # rest @ [nextBlock c, Suc (nextBlock c)]"
    using insertAfter_snoc[of "nextBlock c" "f # rest"] fr1 by simp
  have bl: "BlocksFromTo (f # rest @ [nextBlock c, Suc (nextBlock c)]) f (last (f # rest)) = f # rest"
    using BlocksFromTo_all[of "f # rest" "[nextBlock c, Suc (nextBlock c)]"] dist ord by simp
  have ne1: "last (f # rest) \<noteq> nextBlock c" "last (f # rest) \<noteq> Suc (nextBlock c)"
     "f \<noteq> nextBlock c" "f \<noteq> Suc (nextBlock c)"
     "nextBlock c \<noteq> last (f # rest)" "Suc (nextBlock c) \<noteq> last (f # rest)"
     "nextBlock c \<noteq> f" "Suc (nextBlock c) \<noteq> f" "nextBlock c \<notin> set rest" "Suc (nextBlock c) \<notin> set rest"
    using fr1 fr2 lst by auto
  show ?thesis
    using rev f
    unfolding AddUnhandledExceptionHandler_def ord Let_def
    apply (simp only: if_True if_False list.case option.case split_beta not_True_eq_False not_False_eq_True simp_thms)
    apply (rule exI, rule conjI, rule refl)
    apply (intro conjI)
    subgoal by (simp add: ord ia ib del: insertAfter.simps last.simps fold.simps)
    subgoal by (simp add: ord ia ib bl fold_nest_all absorb_fold_cons blankEHblkDsc_def ne1 hasTryIndex_def del: insertAfter.simps last.simps fold.simps)
    subgoal by (simp add: ord ia ib bl fold_absorb_block absorb_fold_cons ne1 fr1 fr2 blankBlock_def del: insertAfter.simps last.simps fold.simps)
    subgoal by (simp add: ord ia ib bl fold_absorb_block absorb_fold_cons ne1 fr1 fr2 blankBlock_def del: insertAfter.simps last.simps fold.simps)
    subgoal by (simp add: ord ia ib bl fold_absorb_block absorb_fold_cons ne1 fr1 fr2 blankBlock_def del: insertAfter.simps last.simps fold.simps)
    subgoal by (simp add: ord ia ib bl fold_absorb_block absorb_fold_cons ne1 fr1 fr2 blankBlock_def del: insertAfter.simps last.simps fold.simps)
    subgoal using fr1 fr2 by (auto simp add: ord ia ib bl fold_absorb_block absorb_fold_cons ne1 blankBlock_def hasTryIndex_def simp del: insertAfter.simps last.simps fold.simps)
    done
qed


lemma fgEnsureFirstBBisScratch_proj [simp]:
  "blocks (fgEnsureFirstBBisScratch c) = (blocks c)(nextBlock c := (blankBlock BBJ_NONE)\<lparr>bbFlags := {BBF_INTERNAL, BBF_IMPORTED}\<rparr>)"
  "fgOrder (fgEnsureFirstBBisScratch c) = nextBlock c # fgOrder c"
  "compHndBBtab (fgEnsureFirstBBisScratch c) = compHndBBtab c"
  "nextBlock (fgEnsureFirstBBisScratch c) = Suc (nextBlock c)"
  "fgFirstBBScratch (fgEnsureFirstBBisScratch c) = Some (nextBlock c)"
  by (simp_all add: fgEnsureFirstBBisScratch_def Let_def)

lemma AUEH_split:
  assumes rev: "opts_IsReversePInvoke c" and ord: "fgOrder c = f # rest"
      and f: "hasTryIndex (blocks c f)"
      and dist: "distinct (fgOrder c)"
      and alloc: "\<forall>b\<in>set (fgOrder c). b < nextBlock c"
  shows "\<exists>c'. AddUnhandledExceptionHandler c = Inr c' \<and>
     fgOrder c' = nextBlock c # fgOrder c @ [Suc (nextBlock c), Suc (Suc (nextBlock c))] \<and>
     compHndBBtab c' =
       map (\<lambda>d. if ebdEnclosingTryIndex d = NO_ENCLOSING_INDEX
                 then d\<lparr>ebdEnclosingTryIndex := of_nat (length (compHndBBtab c))\<rparr> else d) (compHndBBtab c) @
       [\<lparr>ebdHandlerType = EH_HANDLER_FILTER, ebdTryBeg = nextBlock c, ebdTryLast = last (fgOrder c),
         ebdFilter = Some (Suc (nextBlock c)), ebdHndBeg = Suc (Suc (nextBlock c)),
         ebdHndLast = Suc (Suc (nextBlock c)),
         ebdEnclosingTryIndex = NO_ENCLOSING_INDEX, ebdEnclosingHndIndex = NO_ENCLOSING_INDEX,
         ebdTryBegOffset = 0, ebdTryEndOffset = bbCodeOffsEnd (blocks c (last (fgOrder c))),
         ebdFilterBegOffset = 0, ebdHndBegOffset = 0, ebdHndEndOffset = 0\<rparr>] \<and>
     bbKind (blocks c' (Suc (nextBlock c))) = BBJ_THROW \<and>
     bbKind (blocks c' (Suc (Suc (nextBlock c)))) = BBJ_THROW \<and>
     bbCatchTyp (blocks c' (Suc (nextBlock c))) = BBCT_FILTER \<and>
     bbCatchTyp (blocks c' (Suc (Suc (nextBlock c)))) = BBCT_FILTER_HANDLER \<and>
     (\<forall>b\<in>set (nextBlock c # fgOrder c). bbTryIndex (blocks c' b) =
         (if b = nextBlock c \<or> bbTryIndex (blocks c b) = None then Some (length (compHndBBtab c)) else bbTryIndex (blocks c b)))"
proof -
  let ?n = "nextBlock c"
  have fr: "?n \<notin> set (f # rest)" "Suc ?n \<notin> set (f # rest)" "Suc (Suc ?n) \<notin> set (f # rest)"
    using alloc ord by auto
  have lst: "last (f # rest) \<in> set (f # rest)" by (rule last_in_set) simp
  have d2: "distinct (?n # f # rest)" using dist ord fr by simp
  have ia: "insertAfter (last (f # rest)) [Suc ?n] (?n # f # rest) = ?n # f # rest @ [Suc ?n]"
    using insertAfter_last[of "?n # f # rest" "[Suc ?n]"] d2 by simp
  have ib: "insertAfter (Suc ?n) [Suc (Suc ?n)] (?n # f # rest @ [Suc ?n]) = ?n # f # rest @ [Suc ?n, Suc (Suc ?n)]"
    using insertAfter_snoc[of "Suc ?n" "?n # f # rest" "[Suc (Suc ?n)]"] fr by simp
  have bl: "BlocksFromTo (?n # f # rest @ [Suc ?n, Suc (Suc ?n)]) ?n (last (f # rest)) = ?n # f # rest"
    using BlocksFromTo_all[of "?n # f # rest" "[Suc ?n, Suc (Suc ?n)]"] d2 by simp
  have ne1: "last (f # rest) \<noteq> ?n" "last (f # rest) \<noteq> Suc ?n" "last (f # rest) \<noteq> Suc (Suc ?n)"
     "f \<noteq> ?n" "f \<noteq> Suc ?n" "f \<noteq> Suc (Suc ?n)"
     "?n \<noteq> last (f # rest)" "Suc ?n \<noteq> last (f # rest)" "Suc (Suc ?n) \<noteq> last (f # rest)"
     "?n \<noteq> f" "Suc ?n \<noteq> f" "Suc (Suc ?n) \<noteq> f"
     "?n \<notin> set rest" "Suc ?n \<notin> set rest" "Suc (Suc ?n) \<notin> set rest"
    using fr lst by auto
  show ?thesis
    using rev f
    unfolding AddUnhandledExceptionHandler_def ord Let_def
    apply (simp only: if_True if_False list.case option.case split_beta not_True_eq_False not_False_eq_True simp_thms
            fgEnsureFirstBBisScratch_proj)
    apply (rule exI, rule conjI, rule refl)
    apply (intro conjI)
    subgoal by (simp add: ord ia ib del: insertAfter.simps last.simps fold.simps)
    subgoal by (simp add: ord ia ib bl fold_nest_all absorb_fold_cons blankEHblkDsc_def blankBlock_def ne1 hasTryIndex_def del: insertAfter.simps last.simps fold.simps)
    subgoal by (simp add: ord ia ib bl fold_absorb_block absorb_fold_cons ne1 blankBlock_def del: insertAfter.simps last.simps fold.simps)
    subgoal by (simp add: ord ia ib bl fold_absorb_block absorb_fold_cons ne1 blankBlock_def del: insertAfter.simps last.simps fold.simps)
    subgoal by (simp add: ord ia ib bl fold_absorb_block absorb_fold_cons ne1 blankBlock_def del: insertAfter.simps last.simps fold.simps)
    subgoal by (simp add: ord ia ib bl fold_absorb_block absorb_fold_cons ne1 blankBlock_def del: insertAfter.simps last.simps fold.simps)
    subgoal using fr by (auto simp add: ord ia ib bl fold_absorb_block absorb_fold_cons ne1 blankBlock_def hasTryIndex_def simp del: insertAfter.simps last.simps fold.simps)
    done
qed

theorem C3_reverse_entry_single_region:
  assumes rev: "opts_IsReversePInvoke c"
      and notab: "compHndBBtab c = []"
      and ne: "fgOrder c \<noteq> []"
      and dist: "distinct (fgOrder c)"
      and alloc: "\<forall>b\<in>set (fgOrder c). b < nextBlock c"
      and noidx: "\<forall>b\<in>set (fgOrder c). bbTryIndex (blocks c b) = None"
  shows "\<exists>c' d. AddUnhandledExceptionHandler c = Inr c' \<and>
           compHndBBtab c' = [d] \<and>
           fgOrder c' = fgOrder c @ [nextBlock c, Suc (nextBlock c)] \<and>
           nextBlock c \<notin> set (fgOrder c) \<and> Suc (nextBlock c) \<notin> set (fgOrder c) \<and>
           ebdTryBeg d = hd (fgOrder c) \<and>
           ebdTryLast d = last (fgOrder c) \<and>
           (\<forall>b\<in>set (fgOrder c). bbTryIndex (blocks c' b) = Some 0) \<and>
           ebdHandlerType d = EH_HANDLER_FILTER \<and>
           ebdFilter d = Some (nextBlock c) \<and>
           ebdHndBeg d = Suc (nextBlock c) \<and>
           ebdHndLast d = Suc (nextBlock c) \<and>
           bbKind (blocks c' (nextBlock c)) = BBJ_THROW \<and>
           bbKind (blocks c' (Suc (nextBlock c))) = BBJ_THROW \<and>
           bbCatchTyp (blocks c' (nextBlock c)) = BBCT_FILTER \<and>
           bbCatchTyp (blocks c' (Suc (nextBlock c))) = BBCT_FILTER_HANDLER \<and>
           ebdEnclosingTryIndex d = NO_ENCLOSING_INDEX \<and>
           ebdEnclosingHndIndex d = NO_ENCLOSING_INDEX"
proof -
  obtain f rest where ord: "fgOrder c = f # rest" using ne by (cases "fgOrder c") auto
  have f: "\<not> hasTryIndex (blocks c f)" using noidx ord by (simp add: hasTryIndex_def)
  from AUEH_plain[OF rev ord f dist alloc] obtain c' where
    r: "AddUnhandledExceptionHandler c = Inr c'"
    and o: "fgOrder c' = fgOrder c @ [nextBlock c, Suc (nextBlock c)]"
    and t: "compHndBBtab c' = [\<lparr>ebdHandlerType = EH_HANDLER_FILTER, ebdTryBeg = f, ebdTryLast = last (fgOrder c),
         ebdFilter = Some (nextBlock c), ebdHndBeg = Suc (nextBlock c), ebdHndLast = Suc (nextBlock c),
         ebdEnclosingTryIndex = NO_ENCLOSING_INDEX, ebdEnclosingHndIndex = NO_ENCLOSING_INDEX,
         ebdTryBegOffset = bbCodeOffs (blocks c f), ebdTryEndOffset = bbCodeOffsEnd (blocks c (last (fgOrder c))),
         ebdFilterBegOffset = 0, ebdHndBegOffset = 0, ebdHndEndOffset = 0\<rparr>]"
    and k: "bbKind (blocks c' (nextBlock c)) = BBJ_THROW" "bbKind (blocks c' (Suc (nextBlock c))) = BBJ_THROW"
       "bbCatchTyp (blocks c' (nextBlock c)) = BBCT_FILTER"
       "bbCatchTyp (blocks c' (Suc (nextBlock c))) = BBCT_FILTER_HANDLER"
    and i: "\<forall>b\<in>set (fgOrder c). bbTryIndex (blocks c' b) =
         (if bbTryIndex (blocks c b) = None then Some (length (compHndBBtab c)) else bbTryIndex (blocks c b))"
    unfolding notab by auto
  have fr: "nextBlock c \<notin> set (fgOrder c)" "Suc (nextBlock c) \<notin> set (fgOrder c)" using alloc by auto
  have i': "\<forall>b\<in>set (fgOrder c). bbTryIndex (blocks c' b) = Some 0"
    using i noidx notab by simp
  show ?thesis
    using r o t k i' fr ord by simp
qed

theorem C3_witness:
  "opts_IsReversePInvoke exampleNoTry \<and> compHndBBtab exampleNoTry = [] \<and>
   (\<exists>c' d. AddUnhandledExceptionHandler exampleNoTry = Inr c' \<and> compHndBBtab c' = [d] \<and>
      fgOrder c' = [0, 1, 2, 3] \<and> ebdTryBeg d = 0 \<and> ebdTryLast d = 1 \<and>
      ebdFilter d = Some 2 \<and> ebdHndBeg d = 3)"
proof -
  have h: "opts_IsReversePInvoke exampleNoTry" "compHndBBtab exampleNoTry = []"
      "fgOrder exampleNoTry \<noteq> []" "distinct (fgOrder exampleNoTry)"
      "\<forall>b\<in>set (fgOrder exampleNoTry). b < nextBlock exampleNoTry"
      "\<forall>b\<in>set (fgOrder exampleNoTry). bbTryIndex (blocks exampleNoTry b) = None"
    by (simp_all add: exampleNoTry_def blankBlock_def)
  have o: "fgOrder exampleNoTry = [0, 1]" "nextBlock exampleNoTry = 2"
    by (simp_all add: exampleNoTry_def)
  show ?thesis
    using h(1,2) C3_reverse_entry_single_region[OF h] unfolding o
    by (auto simp: numeral_3_eq_3)
qed

theorem C4_synthesized_region_invariants:
  assumes rev: "opts_IsReversePInvoke c"
      and ne: "fgOrder c \<noteq> []"
      and dist: "distinct (fgOrder c)"
      and alloc: "\<forall>b\<in>set (fgOrder c). b < nextBlock c"
      and tab_wf: "\<forall>d\<in>set (compHndBBtab c). ebdTryBeg d \<in> set (fgOrder c) \<and> hasTryIndex (blocks c (ebdTryBeg d))"
      and tab_dist: "distinct (map ebdTryBeg (compHndBBtab c))"
      and bound: "length (compHndBBtab c) < 65535"
  shows "\<exists>c'. AddUnhandledExceptionHandler c = Inr c' \<and>
           length (compHndBBtab c') = Suc (length (compHndBBtab c)) \<and>
           ebdHandlerType (compHndBBtab c' ! length (compHndBBtab c)) = EH_HANDLER_FILTER \<and>
           ebdTryBeg (compHndBBtab c' ! length (compHndBBtab c)) = hd (fgOrder c') \<and>
           (hasTryIndex (blocks c (hd (fgOrder c))) \<longrightarrow> hd (fgOrder c') = nextBlock c) \<and>
           (\<not> hasTryIndex (blocks c (hd (fgOrder c))) \<longrightarrow> hd (fgOrder c') = hd (fgOrder c)) \<and>
           (\<forall>i<length (compHndBBtab c).
               ebdTryBeg (compHndBBtab c' ! i) = ebdTryBeg (compHndBBtab c ! i) \<and>
               ebdHndBeg (compHndBBtab c' ! i) = ebdHndBeg (compHndBBtab c ! i) \<and>
               (if ebdEnclosingTryIndex (compHndBBtab c ! i) = NO_ENCLOSING_INDEX
                then unat (ebdEnclosingTryIndex (compHndBBtab c' ! i)) = length (compHndBBtab c)
                else ebdEnclosingTryIndex (compHndBBtab c' ! i) = ebdEnclosingTryIndex (compHndBBtab c ! i))) \<and>
           distinct (map ebdTryBeg (compHndBBtab c'))"
proof -
  let ?n = "length (compHndBBtab c)"
  let ?nest = "\<lambda>d. if ebdEnclosingTryIndex d = NO_ENCLOSING_INDEX
                 then d\<lparr>ebdEnclosingTryIndex := (of_nat ?n :: 16 word)\<rparr> else d"
  obtain f rest where ord: "fgOrder c = f # rest" using ne by (cases "fgOrder c") auto
  have un: "unat (of_nat ?n :: 16 word) = ?n"
    using bound by (simp add: unat_of_nat)
  have comp: "ebdTryBeg \<circ> ?nest = ebdTryBeg"
    by (rule ext) simp
  have begs: "map ebdTryBeg (map ?nest (compHndBBtab c)) = map ebdTryBeg (compHndBBtab c)"
    by (simp add: comp)
  show ?thesis
  proof (cases "hasTryIndex (blocks c f)")
    case False
    from AUEH_plain[OF rev ord False dist alloc] obtain c' where
      r: "AddUnhandledExceptionHandler c = Inr c'"
      and o: "fgOrder c' = fgOrder c @ [nextBlock c, Suc (nextBlock c)]"
      and t: "compHndBBtab c' = map ?nest (compHndBBtab c) @
       [\<lparr>ebdHandlerType = EH_HANDLER_FILTER, ebdTryBeg = f, ebdTryLast = last (fgOrder c),
         ebdFilter = Some (nextBlock c), ebdHndBeg = Suc (nextBlock c), ebdHndLast = Suc (nextBlock c),
         ebdEnclosingTryIndex = NO_ENCLOSING_INDEX, ebdEnclosingHndIndex = NO_ENCLOSING_INDEX,
         ebdTryBegOffset = bbCodeOffs (blocks c f), ebdTryEndOffset = bbCodeOffsEnd (blocks c (last (fgOrder c))),
         ebdFilterBegOffset = 0, ebdHndBegOffset = 0, ebdHndEndOffset = 0\<rparr>]"
      by blast
    have fnot: "f \<notin> set (map ebdTryBeg (compHndBBtab c))"
      using tab_wf False by auto
    have d: "distinct (map ebdTryBeg (compHndBBtab c'))"
      unfolding t map_append begs using tab_dist fnot by simp
    show ?thesis
      apply (rule exI[of _ c'])
      using r o d un False ord unfolding t by (simp add: nth_append)
  next
    case True
    from AUEH_split[OF rev ord True dist alloc] obtain c' where
      r: "AddUnhandledExceptionHandler c = Inr c'"
      and o: "fgOrder c' = nextBlock c # fgOrder c @ [Suc (nextBlock c), Suc (Suc (nextBlock c))]"
      and t: "compHndBBtab c' = map ?nest (compHndBBtab c) @
       [\<lparr>ebdHandlerType = EH_HANDLER_FILTER, ebdTryBeg = nextBlock c, ebdTryLast = last (fgOrder c),
         ebdFilter = Some (Suc (nextBlock c)), ebdHndBeg = Suc (Suc (nextBlock c)),
         ebdHndLast = Suc (Suc (nextBlock c)),
         ebdEnclosingTryIndex = NO_ENCLOSING_INDEX, ebdEnclosingHndIndex = NO_ENCLOSING_INDEX,
         ebdTryBegOffset = 0, ebdTryEndOffset = bbCodeOffsEnd (blocks c (last (fgOrder c))),
         ebdFilterBegOffset = 0, ebdHndBegOffset = 0, ebdHndEndOffset = 0\<rparr>]"
      by blast
    have fnot: "nextBlock c \<notin> set (map ebdTryBeg (compHndBBtab c))"
      using tab_wf alloc by auto
    have d: "distinct (map ebdTryBeg (compHndBBtab c'))"
      unfolding t map_append begs using tab_dist fnot by simp
    show ?thesis
      apply (rule exI[of _ c'])
      using r o d un True ord unfolding t by (simp add: nth_append)
  qed
qed

theorem C4_witness:
  "opts_IsReversePInvoke exampleFlowGraph \<and> hasTryIndex (blocks exampleFlowGraph 0) \<and>
   (\<exists>c'. AddUnhandledExceptionHandler exampleFlowGraph = Inr c' \<and>
      length (compHndBBtab c') = 2 \<and>
      ebdTryBeg (compHndBBtab c' ! 0) = 0 \<and> unat (ebdEnclosingTryIndex (compHndBBtab c' ! 0)) = 1 \<and>
      ebdTryBeg (compHndBBtab c' ! 1) = 2 \<and> hd (fgOrder c') = 2 \<and>
      distinct (map ebdTryBeg (compHndBBtab c')))"
proof -
  have h: "opts_IsReversePInvoke exampleFlowGraph" "fgOrder exampleFlowGraph \<noteq> []"
      "distinct (fgOrder exampleFlowGraph)"
      "\<forall>b\<in>set (fgOrder exampleFlowGraph). b < nextBlock exampleFlowGraph"
      "\<forall>d\<in>set (compHndBBtab exampleFlowGraph). ebdTryBeg d \<in> set (fgOrder exampleFlowGraph) \<and>
          hasTryIndex (blocks exampleFlowGraph (ebdTryBeg d))"
      "distinct (map ebdTryBeg (compHndBBtab exampleFlowGraph))"
      "length (compHndBBtab exampleFlowGraph) < 65535"
    by (simp_all add: exampleFlowGraph_def exampleBlocks_def hasTryIndex_def blankEHblkDsc_def)
  have o: "fgOrder exampleFlowGraph = [0, 1]" "nextBlock exampleFlowGraph = 2"
      "hasTryIndex (blocks exampleFlowGraph 0)"
      "length (compHndBBtab exampleFlowGraph) = 1"
      "ebdTryBeg (compHndBBtab exampleFlowGraph ! 0) = 0"
      "ebdEnclosingTryIndex (compHndBBtab exampleFlowGraph ! 0) = NO_ENCLOSING_INDEX"
    by (simp_all add: exampleFlowGraph_def exampleBlocks_def hasTryIndex_def blankEHblkDsc_def)
  show ?thesis
    using h(1) o(3) C4_synthesized_region_invariants[OF h] unfolding o(1,2,4)
    by (auto simp: o)
qed

subsection \<open>Facts about the node and range primitives\<close>

lemma newNode_proj [simp]:
  "snd (newNode gt st) = nextNode st"
  "nodes (fst (newNode gt st)) = (nodes st)(nextNode st := gt)"
  "nextNode (fst (newNode gt st)) = Suc (nextNode st)"
  "lvaTable (fst (newNode gt st)) = lvaTable st"
  "lvaCount (fst (newNode gt st)) = lvaCount st"
  "IR.more (fst (newNode gt st)) = IR.more st"
  by (simp_all add: newNode_def)

lemma updNode_proj [simp]:
  "nodes (updNode n f st) = (nodes st)(n := f (nodes st n))"
  "nextNode (updNode n f st) = nextNode st"
  "lvaTable (updNode n f st) = lvaTable st"
  "lvaCount (updNode n f st) = lvaCount st"
  "IR.more (updNode n f st) = IR.more st"
  by (simp_all add: updNode_def)

lemma updLcl_proj [simp]:
  "nodes (updLcl l f st) = nodes st"
  "nextNode (updLcl l f st) = nextNode st"
  "lvaTable (updLcl l f st) = (lvaTable st)(l := f (lvaTable st l))"
  "lvaCount (updLcl l f st) = lvaCount st"
  "IR.more (updLcl l f st) = IR.more st"
  by (simp_all add: updLcl_def)

lemma lvaGrabTemp_proj [simp]:
  "snd (lvaGrabTemp st) = lvaCount st"
  "nodes (fst (lvaGrabTemp st)) = nodes st"
  "nextNode (fst (lvaGrabTemp st)) = nextNode st"
  "lvaTable (fst (lvaGrabTemp st)) = (lvaTable st)(lvaCount st := blankLclVarDsc)"
  "lvaCount (fst (lvaGrabTemp st)) = Suc (lvaCount st)"
  "IR.more (fst (lvaGrabTemp st)) = IR.more st"
  by (simp_all add: lvaGrabTemp_def)

lemma bindE_simps [simp]:
  "bindE (Inl e) f = Inl e"
  "bindE (Inr x) f = f x"
  by (simp_all add: bindE_def)


subsection \<open>Struct-use normalization\<close>

text \<open>
  C9: where the layout of the used value is the required layout, or has the same LLVM
  type, \<open>normalizeStructUse\<close> changes nothing and returns the node of the use.
\<close>
theorem C9_normalizeStructUse_matching_layout_noop:
  assumes "GetLayout st (nodes st (Def st use)) = layout \<or>
           getLlvmTypeForStruct orc (GetLayout st (nodes st (Def st use))) = getLlvmTypeForStruct orc layout"
  shows "normalizeStructUse orc use layout st = Inr (st, Def st use)"
  using assms by (auto simp: normalizeStructUse_def Let_def)


theorem C9_witness:
  "GetLayout exampleLlvm (nodes exampleLlvm (Def exampleLlvm (3, 0))) = 2 \<and>
   getLlvmTypeForStruct exampleOracles 2 = getLlvmTypeForStruct exampleOracles 3 \<and>
   normalizeStructUse exampleOracles (3, 0) 3 exampleLlvm = Inr (exampleLlvm, 2)"
proof -
  have d: "Def exampleLlvm (3, 0) = 2"
    by (simp add: Def_def exampleLlvm_def exampleNodes_def UseEdges_def blankNode_def)
  have l: "GetLayout exampleLlvm (nodes exampleLlvm 2) = 2"
    by (simp add: GetLayout_def exampleLlvm_def exampleNodes_def blankNode_def)
  have t: "getLlvmTypeForStruct exampleOracles 2 = getLlvmTypeForStruct exampleOracles 3"
    by (simp add: exampleOracles_def)
  have h: "GetLayout exampleLlvm (nodes exampleLlvm (Def exampleLlvm (3, 0))) = 3 \<or>
           getLlvmTypeForStruct exampleOracles (GetLayout exampleLlvm (nodes exampleLlvm (Def exampleLlvm (3, 0)))) =
           getLlvmTypeForStruct exampleOracles 3"
    using d l t by simp
  show ?thesis
    using C9_normalizeStructUse_matching_layout_noop[OF h] d l t by simp
qed

subsection \<open>Catch arguments and rethrows\<close>

lemma gtNewLclvNode_proj [simp]:
  "snd (gtNewLclvNode lclNum typ st) = nextNode st"
  "nodes (fst (gtNewLclvNode lclNum typ st)) = (nodes st)(nextNode st := (blankNode GT_LCL_VAR typ)\<lparr>gtLclNum := lclNum\<rparr>)"
  "nextNode (fst (gtNewLclvNode lclNum typ st)) = Suc (nextNode st)"
  "lvaTable (fst (gtNewLclvNode lclNum typ st)) = lvaTable st"
  "lvaCount (fst (gtNewLclvNode lclNum typ st)) = lvaCount st"
  "IR.more (fst (gtNewLclvNode lclNum typ st)) = IR.more st"
  by (simp_all add: gtNewLclvNode_def)

lemma insertShadowStackAddr_zero:
  "insertShadowStackAddr n 0 l st =
     (CurrentRange_InsertBefore n [nextNode st] (fst (gtNewLclvNode l TYP_I_IMPL st)), nextNode st)"
  by (simp add: insertShadowStackAddr_def Let_def split_beta)

lemma lowerCatchArg_eq:
  "lowerCatchArg n st =
     updNode n (\<lambda>x. x\<lparr>gtOper := GT_IND, gtFlags := gtFlags x \<union> {GTF_IND_NONFAULTING}, gtOps := [nextNode st]\<rparr>)
       (CurrentRange_InsertBefore n [nextNode st] (fst (gtNewLclvNode (shadowStackLclNum st) TYP_I_IMPL st)))"
  by (simp add: lowerCatchArg_def getCatchArgOffset_def insertShadowStackAddr_zero)

lemma CurrentRange_InsertBefore_proj [simp]:
  "nodes (CurrentRange_InsertBefore a new st) = nodes st"
  "nextNode (CurrentRange_InsertBefore a new st) = nextNode st"
  "lvaTable (CurrentRange_InsertBefore a new st) = lvaTable st"
  "lvaCount (CurrentRange_InsertBefore a new st) = lvaCount st"
  "m_currentRange (CurrentRange_InsertBefore a new st) = insertBefore a new (m_currentRange st)"
  "m_currentBlock (CurrentRange_InsertBefore a new st) = m_currentBlock st"
  "blocks (CurrentRange_InsertBefore a new st) = blocks st"
  "compHndBBtab (CurrentRange_InsertBefore a new st) = compHndBBtab st"
  "fgCodeRefs (CurrentRange_InsertBefore a new st) = fgCodeRefs st"
  "shadowStackLclNum (CurrentRange_InsertBefore a new st) = shadowStackLclNum st"
  by (simp_all add: CurrentRange_InsertBefore_def)

lemma newNode_more_Llvm [simp]:
  "m_currentRange (fst (newNode gt st)) = m_currentRange st"
  "m_currentBlock (fst (newNode gt st)) = m_currentBlock st"
  "blocks (fst (newNode gt st)) = blocks st"
  "compHndBBtab (fst (newNode gt st)) = compHndBBtab st"
  "fgCodeRefs (fst (newNode gt st)) = fgCodeRefs st"
  "shadowStackLclNum (fst (newNode gt st)) = shadowStackLclNum st"
  "m_lclHeapUsed (fst (newNode gt st)) = m_lclHeapUsed st"
  "prologInits (fst (newNode gt st)) = prologInits st"
  by (simp_all add: newNode_def)

lemma updNode_more_Llvm [simp]:
  "m_currentRange (updNode n f st) = m_currentRange st"
  "m_currentBlock (updNode n f st) = m_currentBlock st"
  "blocks (updNode n f st) = blocks st"
  "compHndBBtab (updNode n f st) = compHndBBtab st"
  "fgCodeRefs (updNode n f st) = fgCodeRefs st"
  "shadowStackLclNum (updNode n f st) = shadowStackLclNum st"
  "m_lclHeapUsed (updNode n f st) = m_lclHeapUsed st"
  "prologInits (updNode n f st) = prologInits st"
  by (simp_all add: updNode_def)

lemma gtNewLclvNode_more_Llvm [simp]:
  "m_currentRange (fst (gtNewLclvNode l t st)) = m_currentRange st"
  "m_currentBlock (fst (gtNewLclvNode l t st)) = m_currentBlock st"
  "blocks (fst (gtNewLclvNode l t st)) = blocks st"
  "compHndBBtab (fst (gtNewLclvNode l t st)) = compHndBBtab st"
  "fgCodeRefs (fst (gtNewLclvNode l t st)) = fgCodeRefs st"
  "shadowStackLclNum (fst (gtNewLclvNode l t st)) = shadowStackLclNum st"
  "m_lclHeapUsed (fst (gtNewLclvNode l t st)) = m_lclHeapUsed st"
  "prologInits (fst (gtNewLclvNode l t st)) = prologInits st"
  by (simp_all add: gtNewLclvNode_def)

lemma lowerRethrow_catch:
  assumes "m_currentBlock st = Some b" "bbHndIndex (blocks st b) = Some h" "h < length (compHndBBtab st)"
      and "HasCatchHandler orc (compHndBBtab st ! h)"
  shows "lowerRethrow orc c st =
     Inr (updNode c (\<lambda>n. n\<lparr>gtArgs := NewCallArg_Primitive (nextNode st) CORINFO_TYPE_PTR # gtArgs n\<rparr>)
            (CurrentRange_InsertBefore c [nextNode st] (fst (gtNewLclvNode (shadowStackLclNum st) TYP_I_IMPL st))))"
  using assms by (simp add: lowerRethrow_def getCatchArgOffset_def insertShadowStackAddr_zero)

lemma lowerRethrow_Inr:
  assumes "lowerRethrow orc c st = Inr st2"
  shows "st2 = updNode c (\<lambda>n. n\<lparr>gtArgs := NewCallArg_Primitive (nextNode st) CORINFO_TYPE_PTR # gtArgs n\<rparr>)
            (CurrentRange_InsertBefore c [nextNode st] (fst (gtNewLclvNode (shadowStackLclNum st) TYP_I_IMPL st)))"
  using assms
  by (auto simp: lowerRethrow_def getCatchArgOffset_def insertShadowStackAddr_zero
           split: option.splits if_splits)

text \<open>
  C10: \<open>lowerCatchArg\<close> turns the catch argument into an indirection, marked non-faulting,
  of a read of the shadow-stack local with no offset added, put right before it. No
  null-reference fault is registered for the block, neither by \<open>lowerCatchArg\<close> nor by
  \<open>lowerIndir\<close> on the result, and the argument that \<open>lowerRethrow\<close> prepends is a
  read of the same local, again with no offset added.
\<close>
theorem C10_lowerCatchArg_nonfaulting_offset_zero:
  assumes "catchArgNode < nextNode st"
  shows "gtOper (nodes (lowerCatchArg catchArgNode st) catchArgNode) = GT_IND \<and>
         GTF_IND_NONFAULTING \<in> gtFlags (nodes (lowerCatchArg catchArgNode st) catchArgNode) \<and>
         UseEdges (nodes (lowerCatchArg catchArgNode st) catchArgNode) = [nextNode st] \<and>
         nodes (lowerCatchArg catchArgNode st) (nextNode st) =
           (blankNode GT_LCL_VAR TYP_I_IMPL)\<lparr>gtLclNum := shadowStackLclNum st\<rparr> \<and>
         getCatchArgOffset = 0 \<and>
         m_currentRange (lowerCatchArg catchArgNode st) =
           insertBefore catchArgNode [nextNode st] (m_currentRange st) \<and>
         fgCodeRefs (lowerCatchArg catchArgNode st) = fgCodeRefs st \<and>
         lowerIndir catchArgNode (lowerCatchArg catchArgNode st) = Inr (lowerCatchArg catchArgNode st) \<and>
         (gtOper (nodes st catchArgNode) = GT_CATCH_ARG \<longrightarrow>
            lowerNode depth orc catchArgNode st = Inr (lowerCatchArg catchArgNode st)) \<and>
         (\<forall>callNode st2. callNode < nextNode st \<and> lowerRethrow orc callNode st = Inr st2 \<longrightarrow>
            (\<exists>arg. gtArgs (nodes st2 callNode) = arg # gtArgs (nodes st callNode) \<and>
                   nodes st2 (argNode arg) = (blankNode GT_LCL_VAR TYP_I_IMPL)\<lparr>gtLclNum := shadowStackLclNum st\<rparr>))"
proof -
  have ne: "nextNode st \<noteq> catchArgNode" using assms by simp
  have a: "gtOper (nodes (lowerCatchArg catchArgNode st) catchArgNode) = GT_IND"
      "GTF_IND_NONFAULTING \<in> gtFlags (nodes (lowerCatchArg catchArgNode st) catchArgNode)"
      "UseEdges (nodes (lowerCatchArg catchArgNode st) catchArgNode) = [nextNode st]"
    by (simp_all add: lowerCatchArg_eq UseEdges_def)
  have b: "nodes (lowerCatchArg catchArgNode st) (nextNode st) =
           (blankNode GT_LCL_VAR TYP_I_IMPL)\<lparr>gtLclNum := shadowStackLclNum st\<rparr>"
    using ne by (simp add: lowerCatchArg_eq)
  have c: "m_currentRange (lowerCatchArg catchArgNode st) = insertBefore catchArgNode [nextNode st] (m_currentRange st)"
      "fgCodeRefs (lowerCatchArg catchArgNode st) = fgCodeRefs st"
    by (simp_all add: lowerCatchArg_eq)
  have d: "lowerIndir catchArgNode (lowerCatchArg catchArgNode st) = Inr (lowerCatchArg catchArgNode st)"
    using a(2) by (simp add: lowerIndir_def)
  have e: "gtOper (nodes st catchArgNode) = GT_CATCH_ARG \<longrightarrow>
            lowerNode depth orc catchArgNode st = Inr (lowerCatchArg catchArgNode st)"
    by (simp add: lowerNode_def)
  have f: "\<exists>arg. gtArgs (nodes st2 callNode) = arg # gtArgs (nodes st callNode) \<and>
                   nodes st2 (argNode arg) = (blankNode GT_LCL_VAR TYP_I_IMPL)\<lparr>gtLclNum := shadowStackLclNum st\<rparr>"
    if "callNode < nextNode st" "lowerRethrow orc callNode st = Inr st2" for callNode st2
    using that lowerRethrow_Inr[OF that(2)]
    by (simp add: NewCallArg_Primitive_def)
  show ?thesis using a b c d e f by (simp add: getCatchArgOffset_def)
qed


theorem C10_witness:
  "(0::nat) < nextNode exampleLlvm \<and>
   gtOper (nodes (lowerCatchArg 0 exampleLlvm) 0) = GT_IND \<and>
   UseEdges (nodes (lowerCatchArg 0 exampleLlvm) 0) = [6] \<and>
   gtLclNum (nodes (lowerCatchArg 0 exampleLlvm) 6) = 0 \<and>
   m_currentRange (lowerCatchArg 0 exampleLlvm) = [6, 0, 1, 2, 3, 4, 5] \<and>
   fgCodeRefs (lowerCatchArg 0 exampleLlvm) = []"
proof -
  have h: "(0::nat) < nextNode exampleLlvm" by (simp add: exampleLlvm_def)
  have v: "nextNode exampleLlvm = 6" "m_currentRange exampleLlvm = [0, 1, 2, 3, 4, 5]"
      "fgCodeRefs exampleLlvm = []" "shadowStackLclNum exampleLlvm = 0"
    by (simp_all add: exampleLlvm_def)
  show ?thesis
    using h C10_lowerCatchArg_nonfaulting_offset_zero[OF h, of 0 exampleOracles]
    by (simp add: v)
qed

text \<open>
  C6: a rethrow helper call in a block whose handler region is not a catch aborts the
  lowering of the call with the implementation limitation "Nested rethrow"; in a catch
  handler the call gets, as its new first argument, a read of the shadow-stack local
  (the exception object's address, at offset zero), put right before the call.
\<close>
theorem C6_rethrow_limitation_or_prepend:
  assumes "IsHelperCallOf CORINFO_HELP_RETHROW (nodes st callNode)"
      and "m_currentBlock st = Some block"
      and "bbHndIndex (blocks st block) = Some hndIndex"
      and "hndIndex < length (compHndBBtab st)"
      and "callNode < nextNode st"
  shows "(\<not> HasCatchHandler orc (compHndBBtab st ! hndIndex) \<longrightarrow>
            lowerRethrow orc callNode st = Inl (IMPL_LIMITATION ''Nested rethrow'') \<and>
            lowerCall (Suc depth) orc callNode st = Inl (IMPL_LIMITATION ''Nested rethrow'') \<and>
            (gtOper (nodes st callNode) = GT_CALL \<longrightarrow>
               lowerNode (Suc depth) orc callNode st = Inl (IMPL_LIMITATION ''Nested rethrow''))) \<and>
         (HasCatchHandler orc (compHndBBtab st ! hndIndex) \<longrightarrow>
            (\<exists>st'. lowerRethrow orc callNode st = Inr st' \<and>
                   lowerCallPrologue orc callNode st = Inr st' \<and>
                   gtArgs (nodes st' callNode) =
                     NewCallArg_Primitive (nextNode st) CORINFO_TYPE_PTR # gtArgs (nodes st callNode) \<and>
                   nodes st' (nextNode st) = (blankNode GT_LCL_VAR TYP_I_IMPL)\<lparr>gtLclNum := shadowStackLclNum st\<rparr> \<and>
                   m_currentRange st' = insertBefore callNode [nextNode st] (m_currentRange st)))"
proof (intro conjI impI)
  assume n: "\<not> HasCatchHandler orc (compHndBBtab st ! hndIndex)"
  show r: "lowerRethrow orc callNode st = Inl (IMPL_LIMITATION ''Nested rethrow'')"
    using assms n by (simp add: lowerRethrow_def)
  show c: "lowerCall (Suc depth) orc callNode st = Inl (IMPL_LIMITATION ''Nested rethrow'')"
    using assms(1) r by (simp add: lowerCallPrologue_def)
  show "lowerNode (Suc depth) orc callNode st = Inl (IMPL_LIMITATION ''Nested rethrow'')"
    if "gtOper (nodes st callNode) = GT_CALL"
    using that c by (simp add: lowerNode_def)
next
  assume y: "HasCatchHandler orc (compHndBBtab st ! hndIndex)"
  have ne: "nextNode st \<noteq> callNode" using assms(5) by simp
  show "\<exists>st'. lowerRethrow orc callNode st = Inr st' \<and>
                   lowerCallPrologue orc callNode st = Inr st' \<and>
                   gtArgs (nodes st' callNode) =
                     NewCallArg_Primitive (nextNode st) CORINFO_TYPE_PTR # gtArgs (nodes st callNode) \<and>
                   nodes st' (nextNode st) = (blankNode GT_LCL_VAR TYP_I_IMPL)\<lparr>gtLclNum := shadowStackLclNum st\<rparr> \<and>
                   m_currentRange st' = insertBefore callNode [nextNode st] (m_currentRange st)"
    using assms(1) ne lowerRethrow_catch[OF assms(2,3,4) y, of callNode]
    by (simp add: lowerCallPrologue_def)
qed

theorem C6_witness:
  "IsHelperCallOf CORINFO_HELP_RETHROW (nodes exampleLlvm 1) \<and>
   HasCatchHandler exampleOracles (compHndBBtab exampleLlvm ! 0) \<and>
   \<not> HasCatchHandler exampleOracles (compHndBBtab exampleLlvmFinally ! 0) \<and>
   lowerCall 2 exampleOracles 1 exampleLlvmFinally = Inl (IMPL_LIMITATION ''Nested rethrow'') \<and>
   (\<exists>st'. lowerRethrow exampleOracles 1 exampleLlvm = Inr st' \<and>
          map argNode (gtArgs (nodes st' 1)) = [6] \<and>
          m_currentRange st' = [0, 6, 1, 2, 3, 4, 5])"
proof -
  have h: "IsHelperCallOf CORINFO_HELP_RETHROW (nodes exampleLlvm 1)"
      "m_currentBlock exampleLlvm = Some 0" "bbHndIndex (blocks exampleLlvm 0) = Some 0"
      "0 < length (compHndBBtab exampleLlvm)" "1 < nextNode exampleLlvm"
    by (simp_all add: exampleLlvm_def exampleNodes_def IsHelperCallOf_def blankNode_def blankBlock_def)
  have h': "IsHelperCallOf CORINFO_HELP_RETHROW (nodes exampleLlvmFinally 1)"
      "m_currentBlock exampleLlvmFinally = Some 0" "bbHndIndex (blocks exampleLlvmFinally 0) = Some 0"
      "0 < length (compHndBBtab exampleLlvmFinally)" "1 < nextNode exampleLlvmFinally"
    by (simp_all add: exampleLlvmFinally_def exampleLlvm_def exampleNodes_def IsHelperCallOf_def
          blankNode_def blankBlock_def)
  have y: "HasCatchHandler exampleOracles (compHndBBtab exampleLlvm ! 0)"
    by (simp add: exampleLlvm_def exampleOracles_def blankEHblkDsc_def)
  have n: "\<not> HasCatchHandler exampleOracles (compHndBBtab exampleLlvmFinally ! 0)"
    by (simp add: exampleLlvmFinally_def exampleLlvm_def exampleOracles_def blankEHblkDsc_def)
  have v: "nextNode exampleLlvm = 6" "m_currentRange exampleLlvm = [0, 1, 2, 3, 4, 5]"
      "gtArgs (nodes exampleLlvm (Suc 0)) = []"
    by (simp_all add: exampleLlvm_def exampleNodes_def blankNode_def)
  have one: "Suc (Suc 0) = 2" by simp
  show ?thesis
    using h(1) y n
      C6_rethrow_limitation_or_prepend[OF h', of exampleOracles "Suc 0"]
      C6_rethrow_limitation_or_prepend[OF h, of exampleOracles 0]
    by (auto simp: v one NewCallArg_Primitive_def)
qed

subsection \<open>Calls that do not return\<close>





lemma fgIsThrow_cong:
  "gtOper n' = gtOper n \<Longrightarrow> gtCallType n' = gtCallType n \<Longrightarrow> gtCallHelper n' = gtCallHelper n \<Longrightarrow>
   fgIsThrow orc n' = fgIsThrow orc n"
  by (simp add: fgIsThrow_def)




lemma sameCallShape_refl: "sameCallShape c st st"
  by (simp add: sameCallShape_def)







subsection \<open>Local classification\<close>

lemma initializeLocalInProlog_proj [simp]:
  "nodes (initializeLocalInProlog l v st) = nodes st"
  "nextNode (initializeLocalInProlog l v st) = nextNode st"
  "lvaTable (initializeLocalInProlog l v st) = lvaTable st"
  "lvaCount (initializeLocalInProlog l v st) = lvaCount st"
  "m_lclHeapUsed (initializeLocalInProlog l v st) = m_lclHeapUsed st"
  "prologInits (initializeLocalInProlog l v st) = prologInits st @ [(l, v)]"
  by (simp_all add: initializeLocalInProlog_def)

lemma updLcl_more_Llvm [simp]:
  "m_lclHeapUsed (updLcl l f st) = m_lclHeapUsed st"
  "prologInits (updLcl l f st) = prologInits st"
  by (simp_all add: updLcl_def)

lemma lvaGrabTemp_more_Llvm [simp]:
  "m_lclHeapUsed (fst (lvaGrabTemp st)) = m_lclHeapUsed st"
  "prologInits (fst (lvaGrabTemp st)) = prologInits st"
  by (simp_all add: lvaGrabTemp_def)

lemma initPromotedField_frame [simp]:
  "lvaCount (initPromotedField l i st) = lvaCount st"
  "m_lclHeapUsed (initPromotedField l i st) = m_lclHeapUsed st"
  by (simp_all add: initPromotedField_def gtNewLclFldNode_def Let_def split_beta)

lemma fold_initPromotedField_frame [simp]:
  "lvaCount (fold (initPromotedField l) is st) = lvaCount st"
  "m_lclHeapUsed (fold (initPromotedField l) is st) = m_lclHeapUsed st"
  by (induction "is" arbitrary: st) simp_all





subsection \<open>The driver\<close>


subsection \<open>The spiller does not depend on where the nodes are in memory\<close>











text \<open>
  By contrast, with the raw pointer as hash code the order of the table's buckets follows
  the addresses: the same two keys, added in the same order, come out in opposite orders
  in two runs that place the nodes differently.
\<close>
lemma raw_pointer_hash_orders_by_address:
  "map m_key (AddOrUpdate exampleOracles (RawPointer_GetHashCode exampleOracles 1) 1 None
             (AddOrUpdate exampleOracles (RawPointer_GetHashCode exampleOracles 0) 0 None [])) = [0, 1] \<and>
   map m_key (AddOrUpdate (exampleOracles\<lparr>nodeAddress := \<lambda>n. 8192 - 64 * n\<rparr>)
                (RawPointer_GetHashCode (exampleOracles\<lparr>nodeAddress := \<lambda>n. 8192 - 64 * n\<rparr>) 1) 1 None
             (AddOrUpdate (exampleOracles\<lparr>nodeAddress := \<lambda>n. 8192 - 64 * n\<rparr>)
                (RawPointer_GetHashCode (exampleOracles\<lparr>nodeAddress := \<lambda>n. 8192 - 64 * n\<rparr>) 0) 0 None [])) = [1, 0]"
  by (simp add: AddOrUpdate_def RawPointer_GetHashCode_def exampleOracles_def
        DeterministicNodeHashInfo_Equals_def)

subsection \<open>Inserting into a range\<close>

lemma insertAfter_append:
  "a \<in> set xs \<Longrightarrow> insertAfter a new (xs @ ys) = insertAfter a new xs @ ys"
  by (induction xs) auto

lemma insertBefore_append:
  "a \<in> set xs \<Longrightarrow> insertBefore a new (xs @ ys) = insertBefore a new xs @ ys"
  by (induction xs) auto

lemma insertBefore_head:
  "a \<notin> set xs \<Longrightarrow> insertBefore a new (xs @ a # ys) = xs @ new @ a # ys"
  by (induction xs) auto

lemma insertAfter_absent: "a \<notin> set xs \<Longrightarrow> insertAfter a new xs = xs"
  by (induction xs) auto

lemma insertBefore_absent: "a \<notin> set xs \<Longrightarrow> insertBefore a new xs = xs"
  by (induction xs) auto

lemma set_insertAfter:
  "a \<in> set xs \<Longrightarrow> set (insertAfter a new xs) = set new \<union> set xs"
  by (induction xs) auto

lemma set_insertBefore:
  "a \<in> set xs \<Longrightarrow> set (insertBefore a new xs) = set new \<union> set xs"
  by (induction xs) auto

lemma set_insertAfter_subset: "set (insertAfter a new xs) \<subseteq> set new \<union> set xs"
  by (induction xs) auto

lemma set_insertBefore_subset: "set (insertBefore a new xs) \<subseteq> set new \<union> set xs"
  by (induction xs) auto

lemma set_insertAfter_super: "set xs \<subseteq> set (insertAfter a new xs)"
  by (induction xs) auto

lemma set_insertBefore_super: "set xs \<subseteq> set (insertBefore a new xs)"
  by (induction xs) auto

lemma distinct_insertAfter:
  "distinct xs \<Longrightarrow> x \<notin> set xs \<Longrightarrow> distinct (insertAfter a [x] xs)"
proof (induction xs)
  case (Cons y ys)
  have "set (insertAfter a [x] ys) \<subseteq> insert x (set ys)"
    using set_insertAfter_subset [of a "[x]" ys] by simp
  with Cons show ?case by auto
qed simp

lemma distinct_insertBefore:
  "distinct xs \<Longrightarrow> x \<notin> set xs \<Longrightarrow> distinct (insertBefore a [x] xs)"
proof (induction xs)
  case (Cons y ys)
  have "set (insertBefore a [x] ys) \<subseteq> insert x (set ys)"
    using set_insertBefore_subset [of a "[x]" ys] by simp
  with Cons show ?case by auto
qed simp

text \<open>Two neighbours stay neighbours when a node goes in after another node than the first.\<close>
lemma insertAfter_keeps_pair:
  "a \<noteq> x \<Longrightarrow> \<exists>r1' r2'. insertAfter a new (r1 @ x # s # r2) = r1' @ x # s # r2'"
proof (cases "a \<in> set r1")
  case True
  then show ?thesis by (auto simp add: insertAfter_append)
next
  case False
  assume ax: "a \<noteq> x"
  have "insertAfter a new (r1 @ x # s # r2) = r1 @ x # insertAfter a new (s # r2)"
    using False ax by (induction r1) auto
  then show ?thesis
    by (cases "s = a") (auto intro: exI [of _ r1])
qed

lemma insertBefore_keeps_pair:
  "b \<noteq> s \<Longrightarrow> \<exists>r1' r2'. insertBefore b new (r1 @ x # s # r2) = r1' @ x # s # r2'"
proof (cases "b \<in> set r1")
  case True
  then show ?thesis by (auto simp add: insertBefore_append)
next
  case False
  assume bs: "b \<noteq> s"
  show ?thesis
  proof (cases "b = x")
    case True
    then have "insertBefore b new (r1 @ x # s # r2) = (r1 @ new) @ x # s # r2"
      using False by (simp add: insertBefore_head)
    then show ?thesis by blast
  next
    case bx: False
    have "insertBefore b new (r1 @ x # s # r2) = r1 @ x # s # insertBefore b new r2"
      using False bx bs by (induction r1) auto
    then show ?thesis by blast
  qed
qed

text \<open>
  A stretch \<open>l, ls, u\<close> of the range stays one when a node goes in after a node that is
  neither \<open>l\<close> nor in \<open>ls\<close>, or before a node that is neither in \<open>ls\<close> nor \<open>u\<close>.
\<close>
lemma insertAfter_keeps_stretch:
  assumes "a \<noteq> l" "a \<notin> set ls"
  shows "\<exists>r1' r2'. insertAfter a new (r1 @ l # ls @ u # r2) = r1' @ l # ls @ u # r2'"
proof (cases "a \<in> set r1")
  case True
  then show ?thesis by (auto simp add: insertAfter_append)
next
  case False
  have 1: "insertAfter a new (r1 @ l # ls @ u # r2) = r1 @ l # insertAfter a new (ls @ u # r2)"
    using False assms by (induction r1) auto
  have 2: "insertAfter a new (ls @ u # r2) = ls @ insertAfter a new (u # r2)"
    using assms(2) by (induction ls) auto
  show ?thesis
    unfolding 1 2 by (cases "u = a") (auto intro: exI [of _ r1])
qed

lemma insertBefore_keeps_stretch:
  assumes "b \<noteq> u" "b \<notin> set ls"
  shows "\<exists>r1' r2'. insertBefore b new (r1 @ l # ls @ u # r2) = r1' @ l # ls @ u # r2'"
proof (cases "b \<in> set r1")
  case True
  then show ?thesis by (auto simp add: insertBefore_append)
next
  case False
  show ?thesis
  proof (cases "b = l")
    case True
    then have "insertBefore b new (r1 @ l # ls @ u # r2) = (r1 @ new) @ l # ls @ u # r2"
      using False by (simp add: insertBefore_head)
    then show ?thesis by blast
  next
    case bl: False
    have 1: "insertBefore b new (r1 @ l # ls @ u # r2) = r1 @ l # insertBefore b new (ls @ u # r2)"
      using False bl by (induction r1) auto
    have 2: "insertBefore b new (ls @ u # r2) = ls @ u # insertBefore b new r2"
      using assms by (induction ls) auto
    show ?thesis unfolding 1 2 by blast
  qed
qed

text \<open>A node that goes in before \<open>u\<close> itself lengthens the stretch at its end.\<close>
lemma insertBefore_grows_stretch:
  assumes "distinct (r1 @ l # ls @ u # r2)"
  shows "insertBefore u [x] (r1 @ l # ls @ u # r2) = r1 @ l # (ls @ [x]) @ u # r2"
proof -
  have "u \<notin> set (r1 @ l # ls)" using assms by auto
  then have "insertBefore u [x] ((r1 @ l # ls) @ u # r2) = (r1 @ l # ls) @ [x] @ u # r2"
    by (rule insertBefore_head)
  then show ?thesis by simp
qed

subsection \<open>The position of a node in a range\<close>

lemma takeWhile_prefix_mem:
  assumes "distinct (p @ t)" "u \<in> set p"
  shows "set (takeWhile (\<lambda>x. x \<noteq> u) (p @ t)) \<subseteq> set p"
proof -
  have "takeWhile (\<lambda>x. x \<noteq> u) (p @ t) = takeWhile (\<lambda>x. x \<noteq> u) p"
    using assms(2) by (induction p) auto
  then show ?thesis using set_takeWhileD by fastforce
qed

lemma takeWhile_pos_less:
  assumes "distinct r" "c \<in> set (takeWhile (\<lambda>x. x \<noteq> u) r)"
  shows "length (takeWhile (\<lambda>x. x \<noteq> c) r) < length (takeWhile (\<lambda>x. x \<noteq> u) r)"
  using assms
proof (induction r)
  case (Cons y ys)
  then show ?case by (cases "y = u"; cases "y = c") auto
qed simp

subsection \<open>The shape of a node\<close>

lemma shapeOf_mark [simp]: "shapeOf (n\<lparr>gtLIRMark := b\<rparr>) = shapeOf n"
  by (simp add: shapeOf_def)

lemma UseEdges_mark [simp]: "UseEdges (n\<lparr>gtLIRMark := b\<rparr>) = UseEdges n"
  by (simp add: UseEdges_def)

lemma map_argNode_erase:
  "map (\<lambda>a. a\<lparr>argNode := 0\<rparr>) (xs[i := (xs ! i)\<lparr>argNode := v\<rparr>]) = map (\<lambda>a. a\<lparr>argNode := 0\<rparr>) xs"
  by (induction xs arbitrary: i) (auto split: nat.splits)

lemma map_const_update: "map (\<lambda>_. 0::nat) (xs[i := v]) = map (\<lambda>_. 0) xs"
  by (induction xs arbitrary: i) (auto split: nat.splits)

lemma shapeOf_setUseEdge [simp]: "shapeOf (setUseEdge i v n) = shapeOf n"
proof (cases "gtOper n = GT_CALL")
  case False
  then show ?thesis by (simp add: setUseEdge_def shapeOf_def map_const_update)
next
  case True
  show ?thesis
  proof (cases "gtControlExpr n")
    case None
    then show ?thesis
      using True
      by (cases "gtCallCookie n"; cases "gtCallAddr n")
         (auto simp add: setUseEdge_def shapeOf_def Let_def map_argNode_erase)
  next
    case (Some c)
    then show ?thesis
      using True
      by (cases "gtCallCookie n"; cases "gtCallAddr n")
         (auto simp add: setUseEdge_def shapeOf_def Let_def map_argNode_erase)
  qed
qed

lemma UseEdges_setUseEdge:
  assumes "i < length (UseEdges n)"
  shows "UseEdges (setUseEdge i v n) = (UseEdges n)[i := v]"
proof (cases "gtOper n = GT_CALL")
  case False
  then show ?thesis by (simp add: setUseEdge_def UseEdges_def)
next
  case call: True
  have m: "map argNode (xs[k := (xs ! k)\<lparr>argNode := v\<rparr>]) = (map argNode xs)[k := v]" for xs k
    by (induction xs arbitrary: k) (auto split: nat.splits)
  show ?thesis
  proof (cases "i < length (gtArgs n)")
    case True
    then show ?thesis
      using call by (simp add: setUseEdge_def UseEdges_def Let_def m list_update_append)
  next
    case False
    then obtain d where i: "i = length (gtArgs n) + d"
      using le_Suc_ex not_less by blast
    consider "d = 0" | "d = 1" | "d = 2" | "3 \<le> d" by arith
    then show ?thesis
    proof cases
      case 1
      then show ?thesis
        using call assms unfolding i
        by (cases "gtControlExpr n"; cases "gtCallCookie n"; cases "gtCallAddr n")
           (simp_all add: setUseEdge_def UseEdges_def Let_def list_update_append)
    next
      case 2
      then show ?thesis
        using call assms unfolding i
        by (cases "gtControlExpr n"; cases "gtCallCookie n"; cases "gtCallAddr n")
           (simp_all add: setUseEdge_def UseEdges_def Let_def list_update_append)
    next
      case 3
      then show ?thesis
        using call assms unfolding i
        by (cases "gtControlExpr n"; cases "gtCallCookie n"; cases "gtCallAddr n")
           (simp_all add: setUseEdge_def UseEdges_def Let_def list_update_append)
    next
      case 4
      then show ?thesis
        using call assms unfolding i
        by (cases "gtControlExpr n"; cases "gtCallCookie n"; cases "gtCallAddr n")
           (simp_all add: setUseEdge_def UseEdges_def Let_def list_update_append)
    qed
  qed
qed

lemma length_UseEdges_shapeOf: "length (UseEdges (shapeOf n)) = length (UseEdges n)"
  by (cases "gtControlExpr n"; cases "gtCallCookie n"; cases "gtCallAddr n")
     (auto simp add: UseEdges_def shapeOf_def)

lemma shape_eqD:
  assumes "shapeOf a = shapeOf b"
  shows "gtOper a = gtOper b" "gtType a = gtType b" "gtContained a = gtContained b"
    "gtLIRUnusedValue a = gtLIRUnusedValue b" "gtIconHandle a = gtIconHandle b"
    "gtLayout a = gtLayout b" "gtLclNum a = gtLclNum b" "gtCallType a = gtCallType b"
    "gtCallHelper a = gtCallHelper b" "gtCallMoreFlags a = gtCallMoreFlags b"
    "length (UseEdges a) = length (UseEdges b)"
    "map argWellKnown (gtArgs a) = map argWellKnown (gtArgs b)"
proof -
  show "gtOper a = gtOper b" using arg_cong [OF assms, of gtOper] by (simp add: shapeOf_def)
  show "gtType a = gtType b" using arg_cong [OF assms, of gtType] by (simp add: shapeOf_def)
  show "gtContained a = gtContained b"
    using arg_cong [OF assms, of gtContained] by (simp add: shapeOf_def)
  show "gtLIRUnusedValue a = gtLIRUnusedValue b"
    using arg_cong [OF assms, of gtLIRUnusedValue] by (simp add: shapeOf_def)
  show "gtIconHandle a = gtIconHandle b"
    using arg_cong [OF assms, of gtIconHandle] by (simp add: shapeOf_def)
  show "gtLayout a = gtLayout b" using arg_cong [OF assms, of gtLayout] by (simp add: shapeOf_def)
  show "gtLclNum a = gtLclNum b" using arg_cong [OF assms, of gtLclNum] by (simp add: shapeOf_def)
  show "gtCallType a = gtCallType b"
    using arg_cong [OF assms, of gtCallType] by (simp add: shapeOf_def)
  show "gtCallHelper a = gtCallHelper b"
    using arg_cong [OF assms, of gtCallHelper] by (simp add: shapeOf_def)
  show "gtCallMoreFlags a = gtCallMoreFlags b"
    using arg_cong [OF assms, of gtCallMoreFlags] by (simp add: shapeOf_def)
  show "length (UseEdges a) = length (UseEdges b)"
    using arg_cong [OF assms, of "\<lambda>n. length (UseEdges n)"]
    by (simp only: length_UseEdges_shapeOf)
  have "map argWellKnown (gtArgs (shapeOf a)) = map argWellKnown (gtArgs (shapeOf b))"
    using assms by simp
  then show "map argWellKnown (gtArgs a) = map argWellKnown (gtArgs b)"
    by (simp add: shapeOf_def comp_def)
qed

subsection \<open>The table of live definitions\<close>

lemma TryGetValue_None_iff: "TryGetValue k t = None \<longleftrightarrow> k \<notin> set (map m_key t)"
  by (induction t) (auto simp add: DeterministicNodeHashInfo_Equals_def)

lemma TryGetValue_nth:
  "distinct (map m_key t) \<Longrightarrow> i < length t \<Longrightarrow> TryGetValue (m_key (t ! i)) t = Some (m_value (t ! i))"
proof (induction t arbitrary: i)
  case (Cons b bs)
  then show ?case
    by (cases i) (auto simp add: DeterministicNodeHashInfo_Equals_def)
qed simp

lemma snd_TryRemove: "snd (TryRemove k t) = TryGetValue k t"
  by (induction t) (auto simp add: split_beta)

lemma keys_TryRemove: "map m_key (fst (TryRemove k t)) = remove1 k (map m_key t)"
  by (induction t) (auto simp add: split_beta DeterministicNodeHashInfo_Equals_def)

lemma TryGetValue_TryRemove:
  "distinct (map m_key t) \<Longrightarrow>
     TryGetValue k' (fst (TryRemove k t)) = (if k' = k then None else TryGetValue k' t)"
proof (induction t)
  case (Cons b bs)
  then show ?case
    by (auto simp add: split_beta DeterministicNodeHashInfo_Equals_def TryGetValue_None_iff)
qed simp

lemma keys_updateValue: "map m_key (updateValue k v t) = map m_key t"
  by (induction t) auto

lemma TryGetValue_updateValue:
  "TryGetValue k' (updateValue k v t) =
     (if k' = k \<and> TryGetValue k t \<noteq> None then Some v else TryGetValue k' t)"
  by (induction t) (auto simp add: DeterministicNodeHashInfo_Equals_def)

lemma TryGetValue_append:
  "TryGetValue k (xs @ ys) = (case TryGetValue k xs of None \<Rightarrow> TryGetValue k ys | Some v \<Rightarrow> Some v)"
  by (induction xs) auto

lemma TryGetValue_AddOrUpdate:
  "TryGetValue k' (AddOrUpdate orc h k v t) = (if k' = k then Some v else TryGetValue k' t)"
proof (cases "TryGetValue k t = None")
  case False
  then show ?thesis by (simp add: AddOrUpdate_def TryGetValue_updateValue)
next
  case True
  define p where "p = min (tablePlace orc (map m_hash t) h) (length t)"
  have split: "TryGetValue x t = (case TryGetValue x (take p t) of
                  None \<Rightarrow> TryGetValue x (drop p t) | Some v \<Rightarrow> Some v)" for x
    using TryGetValue_append [of x "take p t" "drop p t"] by simp
  have none: "TryGetValue k (take p t) = None"
    using True split [of k] by (auto split: option.splits)
  show ?thesis
    using True none split [of k']
    by (auto simp add: AddOrUpdate_def Let_def TryGetValue_append p_def [symmetric]
          DeterministicNodeHashInfo_Equals_def split: option.splits)
qed

lemma keys_AddOrUpdate:
  "set (map m_key (AddOrUpdate orc h k v t)) = insert k (set (map m_key t))"
proof -
  have "x \<in> set (map m_key (AddOrUpdate orc h k v t)) \<longleftrightarrow> x \<in> insert k (set (map m_key t))" for x
  proof -
    have "x \<in> set (map m_key (AddOrUpdate orc h k v t)) \<longleftrightarrow> TryGetValue x (AddOrUpdate orc h k v t) \<noteq> None"
      by (simp only: TryGetValue_None_iff simp_thms)
    also have "\<dots> \<longleftrightarrow> x = k \<or> TryGetValue x t \<noteq> None"
      by (simp add: TryGetValue_AddOrUpdate)
    also have "\<dots> \<longleftrightarrow> x \<in> insert k (set (map m_key t))"
      by (simp only: TryGetValue_None_iff simp_thms insert_iff)
    finally show ?thesis .
  qed
  then show ?thesis by blast
qed

lemma distinct_AddOrUpdate:
  assumes "distinct (map m_key t)"
  shows "distinct (map m_key (AddOrUpdate orc h k v t))"
proof (cases "TryGetValue k t = None")
  case False
  then show ?thesis using assms by (simp add: AddOrUpdate_def keys_updateValue)
next
  case True
  define p where "p = min (tablePlace orc (map m_hash t) h) (length t)"
  have d: "distinct (map m_key (take p t @ drop p t))" using assms by simp
  have k: "k \<notin> set (map m_key (take p t @ drop p t))"
    using True by (simp add: TryGetValue_None_iff)
  show ?thesis
    using True d k
    by (auto simp add: AddOrUpdate_def Let_def p_def [symmetric] simp del: append_take_drop_id)
qed

lemma keys_value_update: "map m_key (t[i := (t ! i)\<lparr>m_value := v\<rparr>]) = map m_key t"
  by (induction t arbitrary: i) (auto split: nat.splits)

lemma TryGetValue_value_update:
  "distinct (map m_key t) \<Longrightarrow> i < length t \<Longrightarrow>
     TryGetValue k' (t[i := (t ! i)\<lparr>m_value := v\<rparr>]) =
       (if k' = m_key (t ! i) then Some v else TryGetValue k' t)"
proof (induction t arbitrary: i)
  case (Cons b bs)
  then show ?case
    by (cases i) (auto simp add: DeterministicNodeHashInfo_Equals_def TryGetValue_None_iff)
qed simp

subsection \<open>Spilling a definition\<close>

lemma spillValue_Some [simp]: "spillValue d (Some s) st = Inr (st, Some s)"
  by (simp add: spillValue_def)

lemma spillValue_None_effect:
  assumes ty: "gtType (nodes st d) \<in> {TYP_REF, TYP_BYREF, TYP_STRUCT}"
    and ref: "\<forall>s\<in>set (spillLclsRef st). s < lvaCount st \<and> lvType (lvaTable st s) = TYP_REF"
    and byref: "\<forall>s\<in>set (spillLclsByref st). s < lvaCount st"
  shows "\<exists>st' s. spillValue d None st = Inr (st', Some s) \<and> SpillEff d s st st'"
proof -
  consider (r) "gtType (nodes st d) = TYP_REF" | (b) "gtType (nodes st d) = TYP_BYREF"
    | (s) "gtType (nodes st d) = TYP_STRUCT"
    using ty by auto
  then show ?thesis
  proof cases
    case r
    show ?thesis
    proof (cases "spillLclsRef st")
      case Nil
      then show ?thesis
        using r
        by (simp add: spillValue_def getSpillLcl_def bindE_def lvaGrabTemp_def updLcl_def
              gtNewTempStore_def newNode_def SpillEff_def blankNode_def UseEdges_def Let_def)
    next
      case (Cons l ls)
      then show ?thesis
        using r ref
        by (simp add: spillValue_def getSpillLcl_def bindE_def
              gtNewTempStore_def newNode_def SpillEff_def blankNode_def UseEdges_def Let_def)
           auto
    qed
  next
    case b
    show ?thesis
    proof (cases "spillLclsByref st")
      case Nil
      then show ?thesis
        using b
        by (simp add: spillValue_def getSpillLcl_def bindE_def lvaGrabTemp_def updLcl_def
              gtNewTempStore_def newNode_def SpillEff_def blankNode_def UseEdges_def Let_def)
    next
      case (Cons l ls)
      then show ?thesis
        using b byref
        by (simp add: spillValue_def getSpillLcl_def bindE_def
              gtNewTempStore_def newNode_def SpillEff_def blankNode_def UseEdges_def Let_def)
           auto
    qed
  next
    case s
    then show ?thesis
      by (simp add: spillValue_def getSpillLcl_def bindE_def lvaGrabTemp_def updLcl_def
            lvaSetStruct_def
            gtNewTempStore_def newNode_def SpillEff_def blankNode_def UseEdges_def Let_def)
  qed
qed


lemma isFresh_Suc:
  "nextNode st' = Suc (nextNode st) \<Longrightarrow> nextNode st0 \<le> nextNode st \<Longrightarrow>
     isFresh st0 st' n \<longleftrightarrow> isFresh st0 st n \<or> n = nextNode st"
  by (auto simp add: isFresh_def)

lemma RangeInv_bound:
  assumes "RangeInv st0 proc todo st" "nextNode st0 \<le> nextNode st"
  shows "\<forall>x\<in>set (blockRange st). x < nextNode st"
proof -
  obtain dn where r: "blockRange st = dn @ todo"
    and dn: "\<forall>x\<in>set dn. x \<in> set proc \<or> isFresh st0 st x"
    and old: "\<forall>x\<in>set proc \<union> set todo. x < nextNode st0"
    using assms(1) unfolding RangeInv_def by blast
  show ?thesis
  proof
    fix x assume "x \<in> set (blockRange st)"
    then consider "x \<in> set proc \<or> x \<in> set todo" | "isFresh st0 st x"
      unfolding r using dn by auto
    then show "x < nextNode st"
    proof cases
      case 1
      then have "x < nextNode st0" using old by blast
      then show ?thesis using assms(2) by simp
    next
      case 2
      then show ?thesis by (simp add: isFresh_def)
    qed
  qed
qed

lemma SpillEff_NodesInv:
  assumes "NodesInv st0 st" "SpillEff d s st st'"
  shows "NodesInv st0 st'"
proof -
  have le: "nextNode st0 \<le> nextNode st" using assms(1) by (simp add: NodesInv_def)
  have nx: "nextNode st' = Suc (nextNode st)" using assms(2) by (simp add: SpillEff_def)
  have same: "\<And>n. n \<noteq> nextNode st \<Longrightarrow> nodes st' n = nodes st n"
    using assms(2) by (simp add: SpillEff_def)
  have nc: "\<not> gtContained (nodes st' (nextNode st))" using assms(2) by (simp add: SpillEff_def)
  note fr = isFresh_Suc [OF nx le]
  show ?thesis
    unfolding NodesInv_def
  proof (intro conjI allI impI)
    show "nextNode st0 \<le> nextNode st'" using le nx by simp
  next
    fix n assume "\<not> isFresh st0 st' n"
    then have "\<not> isFresh st0 st n" "n \<noteq> nextNode st" by (simp_all add: fr)
    then show "shapeOf (nodes st' n) = shapeOf (nodes st0 n)"
      using assms(1) same by (simp add: NodesInv_def)
  next
    fix n i assume "\<not> isFresh st0 st' n" and i: "i < length (UseEdges (nodes st0 n))"
    then have n: "\<not> isFresh st0 st n" "n \<noteq> nextNode st" by (simp_all add: fr)
    have "UseEdges (nodes st n) ! i = UseEdges (nodes st0 n) ! i \<or>
          isFresh st0 st (UseEdges (nodes st n) ! i)"
      using assms(1) n(1) i unfolding NodesInv_def by blast
    then show "UseEdges (nodes st' n) ! i = UseEdges (nodes st0 n) ! i \<or>
               isFresh st0 st' (UseEdges (nodes st' n) ! i)"
      using same [OF n(2)] by (auto simp add: fr)
  next
    fix f assume "isFresh st0 st' f"
    then consider "isFresh st0 st f" "f \<noteq> nextNode st" | "f = nextNode st"
      by (auto simp add: fr)
    then show "\<not> gtContained (nodes st' f)"
    proof cases
      case 1
      then show ?thesis using assms(1) same by (simp add: NodesInv_def)
    next
      case 2
      then show ?thesis using nc by simp
    qed
  qed
qed

lemma TableInv_keys_old:
  assumes "TableInv st0 proc st" "RangeInv st0 proc todo st" "TryGetValue k (liveGcDefs st) \<noteq> None"
  shows "k \<in> set proc" "k < nextNode st0"
proof -
  show "k \<in> set proc" using assms(1,3) unfolding TableInv_def by blast
  then show "k < nextNode st0" using assms(2) unfolding RangeInv_def by blast
qed

lemma SpillEff_TableInv:
  assumes t: "TableInv st0 proc st" and r: "RangeInv st0 proc todo st"
    and n: "NodesInv st0 st" and e: "SpillEff d s st st'"
  shows "TableInv st0 proc st'"
proof -
  have le: "nextNode st0 \<le> nextNode st" using n by (simp add: NodesInv_def)
  have same: "\<And>n. n \<noteq> nextNode st \<Longrightarrow> nodes st' n = nodes st n"
    using e by (simp add: SpillEff_def)
  have nm: "\<not> gtLIRMark (nodes st' (nextNode st))" using e by (simp add: SpillEff_def)
  have tab: "liveGcDefs st' = liveGcDefs st" using e by (simp add: SpillEff_def)
  have lva: "lvaCount st \<le> lvaCount st'" "\<And>l. l < lvaCount st \<Longrightarrow> lvaTable st' l = lvaTable st l"
    using e by (simp_all add: SpillEff_def)
  have fl: "set (spillLclsRef st') \<subseteq> set (spillLclsRef st)"
    "set (spillLclsByref st') \<subseteq> set (spillLclsByref st)"
    using e by (simp_all add: SpillEff_def)
  show ?thesis
    unfolding TableInv_def tab
  proof (intro conjI allI impI ballI)
    show "distinct (map m_key (liveGcDefs st))" using t by (simp add: TableInv_def)
  next
    fix n assume m: "gtLIRMark (nodes st' n)"
    then have "n \<noteq> nextNode st" using nm by auto
    then have "gtLIRMark (nodes st n)" using m same by simp
    then show "TryGetValue n (liveGcDefs st) \<noteq> None" using t unfolding TableInv_def by blast
  next
    fix k assume "TryGetValue k (liveGcDefs st) \<noteq> None"
    then show "k \<in> set proc" "gtType (nodes st0 k) \<in> {TYP_REF, TYP_BYREF, TYP_STRUCT}"
      using t unfolding TableInv_def by blast+
  next
    fix k s' assume "TryGetValue k (liveGcDefs st) = Some (Some s')"
    then have "s' < lvaCount st" using t unfolding TableInv_def by blast
    then show "s' < lvaCount st'" using lva(1) by simp
  next
    fix x assume "x \<in> set (spillLclsRef st')"
    then have "x \<in> set (spillLclsRef st)" using fl by blast
    then have x: "x < lvaCount st" "lvType (lvaTable st x) = TYP_REF"
      using t unfolding TableInv_def by blast+
    show "x < lvaCount st'" using x(1) lva(1) by simp
    show "lvType (lvaTable st' x) = TYP_REF" using x lva(2) by simp
  next
    fix x assume "x \<in> set (spillLclsByref st')"
    then have "x \<in> set (spillLclsByref st)" using fl by blast
    then have "x < lvaCount st" using t unfolding TableInv_def by blast
    then show "x < lvaCount st'" using lva(1) by simp
  qed
qed

lemma SpillEff_RangeInv:
  assumes r: "RangeInv st0 proc todo st" and le: "nextNode st0 \<le> nextNode st"
    and d: "d \<in> set proc" and e: "SpillEff d s st st'"
  shows "RangeInv st0 proc todo st'"
proof -
  have nx: "nextNode st' = Suc (nextNode st)" using e by (simp add: SpillEff_def)
  have rng: "blockRange st' = insertAfter d [nextNode st] (blockRange st)"
    using e by (simp add: SpillEff_def)
  note fr = isFresh_Suc [OF nx le]
  obtain dn where dn: "blockRange st = dn @ todo" "set proc \<subseteq> set dn"
    "\<forall>x\<in>set dn. x \<in> set proc \<or> isFresh st0 st x"
    using r unfolding RangeInv_def by blast
  have ddn: "d \<in> set dn" using d dn(2) by blast
  have new: "nextNode st \<notin> set (blockRange st)"
    using RangeInv_bound [OF r le] by auto
  have rng': "blockRange st' = insertAfter d [nextNode st] dn @ todo"
    unfolding rng dn(1) using ddn by (rule insertAfter_append)
  have sets: "set (insertAfter d [nextNode st] dn) = insert (nextNode st) (set dn)"
    using set_insertAfter [OF ddn, of "[nextNode st]"] by simp
  show ?thesis
    unfolding RangeInv_def
  proof (intro conjI)
    show "distinct (blockRange st')"
      unfolding rng using r new by (simp add: RangeInv_def distinct_insertAfter)
    show "\<forall>x\<in>set proc \<union> set todo. x < nextNode st0" using r by (simp add: RangeInv_def)
    show "\<exists>walked. blockRange st' = walked @ todo \<and> set proc \<subseteq> set walked \<and>
            (\<forall>x\<in>set walked. x \<in> set proc \<or> isFresh st0 st' x)"
      using rng' sets dn(2,3) by (intro exI [of _ "insertAfter d [nextNode st] dn"]) (auto simp add: fr)
  qed
qed

lemma SpillEff_SpillInv:
  assumes "SpillInv st0 proc todo st" "d \<in> set proc" "SpillEff d s st st'"
  shows "SpillInv st0 proc todo st'"
  using assms SpillEff_NodesInv [of st0 st d s st'] SpillEff_TableInv [of st0 proc st todo d s st']
    SpillEff_RangeInv [of st0 proc todo st d s st']
  by (simp add: SpillInv_def NodesInv_def)

subsection \<open>Handling one operand edge\<close>

lemma gtLIRMark_setUseEdge [simp]: "gtLIRMark (setUseEdge i v n) = gtLIRMark n"
  by (simp add: setUseEdge_def Let_def)

lemma spillUseEdge_contained:
  "gtContained (nodes st (UseEdges (nodes st user) ! i)) \<Longrightarrow>
     spillUseEdge user i st =
       st\<lparr>containedOperands := UseEdges (nodes st user) ! i # containedOperands st\<rparr>"
  by (simp add: spillUseEdge_def)

lemma spillUseEdge_unmarked:
  "\<not> gtContained (nodes st (UseEdges (nodes st user) ! i)) \<Longrightarrow>
   \<not> gtLIRMark (nodes st (UseEdges (nodes st user) ! i)) \<Longrightarrow> spillUseEdge user i st = st"
  by (simp add: spillUseEdge_def)

lemma spillUseEdge_unspilled:
  assumes "\<not> gtContained (nodes st (UseEdges (nodes st user) ! i))"
    and "gtLIRMark (nodes st (UseEdges (nodes st user) ! i))"
    and "TryGetValue (UseEdges (nodes st user) ! i) (liveGcDefs st) = Some None"
  shows "spillUseEdge user i st =
     updNode (UseEdges (nodes st user) ! i) (\<lambda>n. n\<lparr>gtLIRMark := False\<rparr>)
       (st\<lparr>liveGcDefs := fst (TryRemove (UseEdges (nodes st user) ! i) (liveGcDefs st))\<rparr>)"
proof -
  have "snd (TryRemove (UseEdges (nodes st user) ! i) (liveGcDefs st)) = Some None"
    using assms(3) by (simp add: snd_TryRemove)
  then show ?thesis
    using assms(1,2) by (simp add: spillUseEdge_def split_beta Let_def)
qed

lemma spillUseEdge_spilled:
  assumes nc: "\<not> gtContained (nodes st (UseEdges (nodes st user) ! i))"
    and mk: "gtLIRMark (nodes st (UseEdges (nodes st user) ! i))"
    and v: "TryGetValue (UseEdges (nodes st user) ! i) (liveGcDefs st) = Some (Some s)"
    and u: "user < nextNode st" and ob: "UseEdges (nodes st user) ! i < nextNode st"
    and i: "i < length (UseEdges (nodes st user))"
  shows "LoadEff user i (UseEdges (nodes st user) ! i) s st (spillUseEdge user i st)"
proof -
  define operand where "operand = UseEdges (nodes st user) ! i"
  have rm: "snd (TryRemove operand (liveGcDefs st)) = Some (Some s)"
    using v by (simp add: snd_TryRemove operand_def)
  have eq: "spillUseEdge user i st =
      updNode operand (\<lambda>n. n\<lparr>gtLIRMark := False\<rparr>)
        (releaseSpillLcl s
          ((updNode user (setUseEdge i (nextNode st))
             (fst (gtNewLclVarNode s (st\<lparr>liveGcDefs := fst (TryRemove operand (liveGcDefs st))\<rparr>))))
           \<lparr>blockRange := insertBefore user [nextNode st] (blockRange st)\<rparr>))"
    using nc mk rm
    by (simp add: spillUseEdge_def split_beta Let_def operand_def [symmetric]
          gtNewLclVarNode_def gtNewLclvNode_def newNode_def updNode_def)
  have ne: "user \<noteq> nextNode st" "operand \<noteq> nextNode st"
    using u ob by (simp_all add: operand_def)
  show ?thesis
    unfolding operand_def [symmetric] eq
    using ne i
    by (simp add: LoadEff_def releaseSpillLcl_def updNode_def gtNewLclVarNode_def
          gtNewLclvNode_def newNode_def blankNode_def UseEdges_setUseEdge)
       (auto simp add: UseEdges_setUseEdge)
qed


lemma LoadEff_NodesInv:
  assumes inv: "NodesInv st0 st" and e: "LoadEff user i operand s st st'"
    and u: "user < nextNode st0" and ob: "operand < nextNode st0"
  shows "NodesInv st0 st'"
proof -
  have le: "nextNode st0 \<le> nextNode st" using inv by (simp add: NodesInv_def)
  have nx: "nextNode st' = Suc (nextNode st)" using e by (simp add: LoadEff_def)
  note fr = isFresh_Suc [OF nx le]
  have same: "\<And>n. n \<noteq> nextNode st \<Longrightarrow> n \<noteq> user \<Longrightarrow> n \<noteq> operand \<Longrightarrow> nodes st' n = nodes st n"
    using e by (simp add: LoadEff_def)
  have shu: "shapeOf (nodes st' user) = shapeOf (nodes st user)"
    and sho: "shapeOf (nodes st' operand) = shapeOf (nodes st operand)"
    and edu: "UseEdges (nodes st' user) = (UseEdges (nodes st user))[i := nextNode st]"
    and edo: "operand \<noteq> user \<Longrightarrow> UseEdges (nodes st' operand) = UseEdges (nodes st operand)"
    and nc: "\<not> gtContained (nodes st' (nextNode st))"
    using e by (simp_all add: LoadEff_def)
  have shape: "shapeOf (nodes st' n) = shapeOf (nodes st n)" if "n \<noteq> nextNode st" for n
    using that same [of n] shu sho by (cases "n = user"; cases "n = operand") auto
  have nfu: "\<not> isFresh st0 st user" "\<not> isFresh st0 st operand"
    using u ob by (simp_all add: isFresh_def)
  show ?thesis
    unfolding NodesInv_def
  proof (intro conjI allI impI)
    show "nextNode st0 \<le> nextNode st'" using le nx by simp
  next
    fix n assume "\<not> isFresh st0 st' n"
    then have n: "\<not> isFresh st0 st n" "n \<noteq> nextNode st" by (simp_all add: fr)
    then show "shapeOf (nodes st' n) = shapeOf (nodes st0 n)"
      using inv shape by (simp add: NodesInv_def)
  next
    fix n k assume "\<not> isFresh st0 st' n" and k: "k < length (UseEdges (nodes st0 n))"
    then have n: "\<not> isFresh st0 st n" "n \<noteq> nextNode st" by (simp_all add: fr)
    have old: "UseEdges (nodes st n) ! k = UseEdges (nodes st0 n) ! k \<or>
          isFresh st0 st (UseEdges (nodes st n) ! k)"
      using inv n(1) k unfolding NodesInv_def by blast
    have "shapeOf (nodes st n) = shapeOf (nodes st0 n)"
      using inv n(1) unfolding NodesInv_def by blast
    then have len: "k < length (UseEdges (nodes st n))" using k shape_eqD(11) by metis
    show "UseEdges (nodes st' n) ! k = UseEdges (nodes st0 n) ! k \<or>
               isFresh st0 st' (UseEdges (nodes st' n) ! k)"
    proof (cases "n = user")
      case True
      show ?thesis
      proof (cases "k = i")
        case True
        then show ?thesis using \<open>n = user\<close> edu len by (simp add: fr)
      next
        case False
        then show ?thesis using \<open>n = user\<close> edu old by (auto simp add: fr)
      qed
    next
      case False
      then have "UseEdges (nodes st' n) = UseEdges (nodes st n)"
        using edo same [of n] n(2) by (cases "n = operand") auto
      then show ?thesis using old by (auto simp add: fr)
    qed
  next
    fix f assume "isFresh st0 st' f"
    then consider "isFresh st0 st f" | "f = nextNode st" by (auto simp add: fr)
    then show "\<not> gtContained (nodes st' f)"
    proof cases
      case 1
      then have "f \<noteq> user" "f \<noteq> operand" "f \<noteq> nextNode st"
        using nfu by (auto simp add: isFresh_def)
      then have "nodes st' f = nodes st f" using same by simp
      then show ?thesis using inv 1 by (simp add: NodesInv_def)
    next
      case 2
      then show ?thesis using nc by simp
    qed
  qed
qed

lemma LoadEff_TableInv:
  assumes t: "TableInv st0 proc st" and e: "LoadEff user i operand s st st'"
    and v: "TryGetValue operand (liveGcDefs st) = Some (Some s)"
  shows "TableInv st0 proc st'"
proof -
  have d: "distinct (map m_key (liveGcDefs st))" using t by (simp add: TableInv_def)
  have tab: "liveGcDefs st' = fst (TryRemove operand (liveGcDefs st))"
    and lva: "lvaTable st' = lvaTable st" "lvaCount st' = lvaCount st"
    and nmo: "\<not> gtLIRMark (nodes st' operand)" and nmn: "\<not> gtLIRMark (nodes st' (nextNode st))"
    and mk: "\<And>n. n \<noteq> operand \<Longrightarrow> n \<noteq> nextNode st \<Longrightarrow> gtLIRMark (nodes st' n) = gtLIRMark (nodes st n)"
    and ref: "spillLclsRef st' =
        (if lvType (lvaTable st s) = TYP_REF then s # spillLclsRef st else spillLclsRef st)"
    and byref: "set (spillLclsByref st') \<subseteq> insert s (set (spillLclsByref st))"
    using e by (simp_all add: LoadEff_def)
  have look: "TryGetValue k (liveGcDefs st') = (if k = operand then None else TryGetValue k (liveGcDefs st))" for k
    unfolding tab using d by (rule TryGetValue_TryRemove)
  have s: "s < lvaCount st" using t v unfolding TableInv_def by blast
  show ?thesis
    unfolding TableInv_def
  proof (intro conjI allI impI ballI)
    show "distinct (map m_key (liveGcDefs st'))"
      unfolding tab keys_TryRemove using d by (rule distinct_remove1)
  next
    fix n assume m: "gtLIRMark (nodes st' n)"
    then have n: "n \<noteq> operand" "n \<noteq> nextNode st" using nmo nmn by auto
    then have "gtLIRMark (nodes st n)" using m mk by simp
    then have "TryGetValue n (liveGcDefs st) \<noteq> None" using t unfolding TableInv_def by blast
    then show "TryGetValue n (liveGcDefs st') \<noteq> None" using n by (simp add: look)
  next
    fix k assume "TryGetValue k (liveGcDefs st') \<noteq> None"
    then have "TryGetValue k (liveGcDefs st) \<noteq> None" by (simp add: look split: if_splits)
    then show "k \<in> set proc" "gtType (nodes st0 k) \<in> {TYP_REF, TYP_BYREF, TYP_STRUCT}"
      using t unfolding TableInv_def by blast+
  next
    fix k s' assume "TryGetValue k (liveGcDefs st') = Some (Some s')"
    then have "TryGetValue k (liveGcDefs st) = Some (Some s')" by (simp add: look split: if_splits)
    then show "s' < lvaCount st'" using t lva unfolding TableInv_def by auto
  next
    fix x assume x: "x \<in> set (spillLclsRef st')"
    have old: "\<forall>s\<in>set (spillLclsRef st). s < lvaCount st \<and> lvType (lvaTable st s) = TYP_REF"
      using t by (simp add: TableInv_def)
    show "x < lvaCount st'" using x ref old s lva by (auto split: if_splits)
    show "lvType (lvaTable st' x) = TYP_REF" using x ref old s lva by (auto split: if_splits)
  next
    fix x assume x: "x \<in> set (spillLclsByref st')"
    have old: "\<forall>s\<in>set (spillLclsByref st). s < lvaCount st"
      using t by (simp add: TableInv_def)
    show "x < lvaCount st'" using x byref old s lva by auto
  qed
qed

lemma LoadEff_RangeInv:
  assumes r: "RangeInv st0 proc (n # todo) st" and le: "nextNode st0 \<le> nextNode st"
    and u: "user = n \<or> user \<in> set proc" and e: "LoadEff user i operand s st st'"
  shows "RangeInv st0 proc (n # todo) st'"
proof -
  have nx: "nextNode st' = Suc (nextNode st)" using e by (simp add: LoadEff_def)
  have rng: "blockRange st' = insertBefore user [nextNode st] (blockRange st)"
    using e by (simp add: LoadEff_def)
  note fr = isFresh_Suc [OF nx le]
  obtain dn where dn: "blockRange st = dn @ n # todo" "set proc \<subseteq> set dn"
    "\<forall>x\<in>set dn. x \<in> set proc \<or> isFresh st0 st x"
    using r unfolding RangeInv_def by blast
  have dist: "distinct (blockRange st)" using r by (simp add: RangeInv_def)
  have new: "nextNode st \<notin> set (blockRange st)"
    using RangeInv_bound [OF r le] by auto
  have "\<exists>dn'. blockRange st' = dn' @ n # todo \<and> set dn' = insert (nextNode st) (set dn)"
  proof (cases "user \<in> set dn")
    case True
    have "blockRange st' = insertBefore user [nextNode st] dn @ n # todo"
      unfolding rng dn(1) using True by (rule insertBefore_append)
    moreover have "set (insertBefore user [nextNode st] dn) = insert (nextNode st) (set dn)"
      using set_insertBefore [OF True, of "[nextNode st]"] by simp
    ultimately show ?thesis by blast
  next
    case False
    then have "user = n" using u dn(2) by blast
    then have "blockRange st' = (dn @ [nextNode st]) @ n # todo"
      unfolding rng dn(1) using False by (simp add: insertBefore_head)
    then show ?thesis by (intro exI [of _ "dn @ [nextNode st]"]) simp
  qed
  then obtain dn' where dn': "blockRange st' = dn' @ n # todo" "set dn' = insert (nextNode st) (set dn)"
    by blast
  show ?thesis
    unfolding RangeInv_def
  proof (intro conjI)
    show "distinct (blockRange st')"
      unfolding rng using dist new by (simp add: distinct_insertBefore)
    show "\<forall>x\<in>set proc \<union> set (n # todo). x < nextNode st0" using r by (simp add: RangeInv_def)
    show "\<exists>walked. blockRange st' = walked @ n # todo \<and> set proc \<subseteq> set walked \<and>
            (\<forall>x\<in>set walked. x \<in> set proc \<or> isFresh st0 st' x)"
      using dn' dn(2,3) by (intro exI [of _ dn']) (auto simp add: fr)
  qed
qed

lemma unmark_NodesInv:
  assumes "NodesInv st0 st"
  shows "NodesInv st0 (updNode operand (\<lambda>n. n\<lparr>gtLIRMark := False\<rparr>) (st\<lparr>liveGcDefs := t\<rparr>))"
  using assms by (simp add: NodesInv_def updNode_def isFresh_def)

lemma unmark_RangeInv:
  assumes "RangeInv st0 proc todo st"
  shows "RangeInv st0 proc todo (updNode operand (\<lambda>n. n\<lparr>gtLIRMark := False\<rparr>) (st\<lparr>liveGcDefs := t\<rparr>))"
  using assms by (simp add: RangeInv_def updNode_def isFresh_def)

lemma unmark_TableInv:
  assumes t: "TableInv st0 proc st"
  shows "TableInv st0 proc (updNode operand (\<lambda>n. n\<lparr>gtLIRMark := False\<rparr>)
           (st\<lparr>liveGcDefs := fst (TryRemove operand (liveGcDefs st))\<rparr>))"
proof -
  have d: "distinct (map m_key (liveGcDefs st))" using t by (simp add: TableInv_def)
  note look = TryGetValue_TryRemove [OF d]
  show ?thesis
    using t
    unfolding TableInv_def
    by (simp add: updNode_def look keys_TryRemove)
qed

lemma spillUseEdge_SpillInv:
  assumes inv: "SpillInv st0 proc (n # todo) st"
    and user: "user = n \<or> user \<in> set proc"
    and i: "i < length (UseEdges (nodes st0 user))"
  shows "SpillInv st0 proc (n # todo) (spillUseEdge user i st)"
proof -
  define operand where "operand = UseEdges (nodes st user) ! i"
  have ni: "NodesInv st0 st" and ti: "TableInv st0 proc st" and ri: "RangeInv st0 proc (n # todo) st"
    using inv by (simp_all add: SpillInv_def)
  have le: "nextNode st0 \<le> nextNode st" using ni by (simp add: NodesInv_def)
  have u0: "user < nextNode st0" using ri user unfolding RangeInv_def by auto
  then have "shapeOf (nodes st user) = shapeOf (nodes st0 user)"
    using ni by (simp add: NodesInv_def isFresh_def)
  then have len: "i < length (UseEdges (nodes st user))" using i shape_eqD(11) by metis
  consider (c) "gtContained (nodes st operand)"
    | (u) "\<not> gtContained (nodes st operand)" "\<not> gtLIRMark (nodes st operand)"
    | (m) "\<not> gtContained (nodes st operand)" "gtLIRMark (nodes st operand)"
    by blast
  then show ?thesis
  proof cases
    case c
    then show ?thesis
      using inv
      by (simp add: spillUseEdge_contained operand_def SpillInv_def NodesInv_def TableInv_def
            RangeInv_def isFresh_def)
  next
    case u
    then show ?thesis using inv by (simp add: spillUseEdge_unmarked operand_def)
  next
    case m
    then have key: "TryGetValue operand (liveGcDefs st) \<noteq> None"
      using ti unfolding TableInv_def by blast
    have o0: "operand < nextNode st0" using TableInv_keys_old(2) [OF ti ri key] .
    show ?thesis
    proof (cases "TryGetValue operand (liveGcDefs st) = Some None")
      case True
      show ?thesis
        unfolding spillUseEdge_unspilled [OF m(1,2) [unfolded operand_def] True [unfolded operand_def]]
        unfolding operand_def [symmetric] SpillInv_def
        using unmark_NodesInv [OF ni] unmark_TableInv [OF ti] unmark_RangeInv [OF ri] by blast
    next
      case False
      then obtain s where s: "TryGetValue operand (liveGcDefs st) = Some (Some s)"
        using key by (cases "TryGetValue operand (liveGcDefs st)") auto
      have eff: "LoadEff user i operand s st (spillUseEdge user i st)"
        unfolding operand_def
        using m s u0 o0 le len
        by (intro spillUseEdge_spilled) (simp_all add: operand_def)
      show ?thesis
        unfolding SpillInv_def
        using LoadEff_NodesInv [OF ni eff u0 o0] LoadEff_TableInv [OF ti eff s]
          LoadEff_RangeInv [OF ri le user eff] by blast
    qed
  qed
qed

subsection \<open>The loop over the users of a node\<close>

lemma SpillInv_containedOperands [simp]:
  "SpillInv st0 proc todo (s\<lparr>containedOperands := r\<rparr>) = SpillInv st0 proc todo s"
  by (simp add: SpillInv_def NodesInv_def TableInv_def RangeInv_def isFresh_def)

lemma SpillInv_lclHeapUsed [simp]:
  "SpillInv st0 proc todo (s\<lparr>lclHeapUsed := b\<rparr>) = SpillInv st0 proc todo s"
  by (simp add: SpillInv_def NodesInv_def TableInv_def RangeInv_def isFresh_def)

lemma SpillInv_user_length:
  assumes inv: "SpillInv st0 proc (n # todo) st" and user: "user = n \<or> user \<in> set proc"
  shows "user < nextNode st0" "shapeOf (nodes st user) = shapeOf (nodes st0 user)"
    "length (UseEdges (nodes st user)) = length (UseEdges (nodes st0 user))"
proof -
  show u0: "user < nextNode st0" using inv user unfolding SpillInv_def RangeInv_def by auto
  then show sh: "shapeOf (nodes st user) = shapeOf (nodes st0 user)"
    using inv by (simp add: SpillInv_def NodesInv_def isFresh_def)
  then show "length (UseEdges (nodes st user)) = length (UseEdges (nodes st0 user))"
    by (rule shape_eqD(11))
qed

text \<open>The four things that can happen at an operand edge.\<close>
lemma spillUseEdge_cases [consumes 3, case_names contained unmarked unspilled spilled]:
  assumes inv: "SpillInv st0 proc (n # todo) st"
    and user: "user = n \<or> user \<in> set proc"
    and i: "i < length (UseEdges (nodes st0 user))"
  obtains
    (contained) "spillUseEdge user i st =
        st\<lparr>containedOperands := UseEdges (nodes st user) ! i # containedOperands st\<rparr>"
      "UseEdges (nodes st user) ! i = UseEdges (nodes st0 user) ! i"
      "gtContained (nodes st0 (UseEdges (nodes st user) ! i))"
  | (unmarked) "spillUseEdge user i st = st"
  | (unspilled) "gtLIRMark (nodes st (UseEdges (nodes st user) ! i))"
      "TryGetValue (UseEdges (nodes st user) ! i) (liveGcDefs st) = Some None"
      "spillUseEdge user i st =
         updNode (UseEdges (nodes st user) ! i) (\<lambda>n. n\<lparr>gtLIRMark := False\<rparr>)
           (st\<lparr>liveGcDefs := fst (TryRemove (UseEdges (nodes st user) ! i) (liveGcDefs st))\<rparr>)"
      "UseEdges (nodes st user) ! i < nextNode st0"
  | (spilled) s where "gtLIRMark (nodes st (UseEdges (nodes st user) ! i))"
      "TryGetValue (UseEdges (nodes st user) ! i) (liveGcDefs st) = Some (Some s)"
      "LoadEff user i (UseEdges (nodes st user) ! i) s st (spillUseEdge user i st)"
      "UseEdges (nodes st user) ! i < nextNode st0"
proof -
  define operand where "operand = UseEdges (nodes st user) ! i"
  have ni: "NodesInv st0 st" and ti: "TableInv st0 proc st" and ri: "RangeInv st0 proc (n # todo) st"
    using inv by (simp_all add: SpillInv_def)
  have le: "nextNode st0 \<le> nextNode st" using ni by (simp add: NodesInv_def)
  note ul = SpillInv_user_length [OF inv user]
  have len: "i < length (UseEdges (nodes st user))" using i ul(3) by simp
  consider (c) "gtContained (nodes st operand)"
    | (u) "\<not> gtContained (nodes st operand)" "\<not> gtLIRMark (nodes st operand)"
    | (m) "\<not> gtContained (nodes st operand)" "gtLIRMark (nodes st operand)"
    by blast
  then show ?thesis
  proof cases
    case c
    have nf: "\<not> isFresh st0 st operand" using c ni unfolding NodesInv_def by blast
    have "\<not> isFresh st0 st user" using ul(1) by (simp add: isFresh_def)
    then have "operand = UseEdges (nodes st0 user) ! i \<or> isFresh st0 st operand"
      using ni i unfolding NodesInv_def operand_def by blast
    then have 1: "operand = UseEdges (nodes st0 user) ! i" using nf by blast
    have "shapeOf (nodes st operand) = shapeOf (nodes st0 operand)"
      using ni nf unfolding NodesInv_def by blast
    then have 2: "gtContained (nodes st0 operand)" using c shape_eqD(3) by metis
    show ?thesis
      using contained [OF spillUseEdge_contained] c 1 2 unfolding operand_def by blast
  next
    case u
    then show ?thesis using unmarked spillUseEdge_unmarked unfolding operand_def by blast
  next
    case m
    then have key: "TryGetValue operand (liveGcDefs st) \<noteq> None"
      using ti unfolding TableInv_def by blast
    have o0: "operand < nextNode st0" using TableInv_keys_old(2) [OF ti ri key] .
    show ?thesis
    proof (cases "TryGetValue operand (liveGcDefs st) = Some None")
      case True
      show ?thesis
        using unspilled m True o0 spillUseEdge_unspilled [of st user i]
        unfolding operand_def by blast
    next
      case False
      then obtain s where s: "TryGetValue operand (liveGcDefs st) = Some (Some s)"
        using key by (cases "TryGetValue operand (liveGcDefs st)") auto
      have eff: "LoadEff user i operand s st (spillUseEdge user i st)"
        unfolding operand_def
        using m s ul(1) o0 le len
        by (intro spillUseEdge_spilled) (simp_all add: operand_def)
      show ?thesis
        using spilled [of s] m s eff o0 unfolding operand_def by blast
    qed
  qed
qed

lemma spillUseEdge_stack:
  assumes inv: "SpillInv st0 proc (n # todo) st"
    and user: "user = n \<or> user \<in> set proc"
    and i: "i < length (UseEdges (nodes st0 user))"
  shows "\<exists>cs. containedOperands (spillUseEdge user i st) = cs @ containedOperands st \<and>
           (\<forall>c\<in>set cs. c \<in> set (UseEdges (nodes st0 user)) \<and> gtContained (nodes st0 c))"
  using inv user i
proof (cases rule: spillUseEdge_cases)
  case contained
  show ?thesis
    unfolding contained(1)
    using contained(2,3) i
    by (intro exI [of _ "[UseEdges (nodes st user) ! i]"]) simp
next
  case unmarked
  then show ?thesis by simp
next
  case unspilled
  show ?thesis unfolding unspilled(3) by (simp add: updNode_def)
next
  case (spilled s)
  then show ?thesis by (simp add: LoadEff_def)
qed

lemma fold_spillUseEdge:
  assumes user: "user = n \<or> user \<in> set proc"
    and step: "\<And>i s. i \<in> set is \<Longrightarrow> SpillInv st0 proc (n # todo) s \<Longrightarrow> T s \<Longrightarrow>
                 T (spillUseEdge user i s)"
  shows "SpillInv st0 proc (n # todo) st \<Longrightarrow> T st \<Longrightarrow>
         \<forall>i\<in>set is. i < length (UseEdges (nodes st0 user)) \<Longrightarrow>
         SpillInv st0 proc (n # todo) (fold (spillUseEdge user) is st) \<and>
         T (fold (spillUseEdge user) is st) \<and>
         (\<exists>cs. containedOperands (fold (spillUseEdge user) is st) = cs @ containedOperands st \<and>
            (\<forall>c\<in>set cs. c \<in> set (UseEdges (nodes st0 user)) \<and> gtContained (nodes st0 c)))"
  using step
proof (induction "is" arbitrary: st)
  case Nil
  then show ?case by simp
next
  case (Cons i "is")
  have i: "i < length (UseEdges (nodes st0 user))" using Cons.prems(3) by simp
  have inv1: "SpillInv st0 proc (n # todo) (spillUseEdge user i st)"
    using spillUseEdge_SpillInv [OF Cons.prems(1) user i] .
  have T1: "T (spillUseEdge user i st)" using Cons.prems(4) [of i st] Cons.prems(1,2) by simp
  obtain cs1 where cs1: "containedOperands (spillUseEdge user i st) = cs1 @ containedOperands st"
    "\<forall>c\<in>set cs1. c \<in> set (UseEdges (nodes st0 user)) \<and> gtContained (nodes st0 c)"
    using spillUseEdge_stack [OF Cons.prems(1) user i] by blast
  have rest: "SpillInv st0 proc (n # todo) (fold (spillUseEdge user) is (spillUseEdge user i st)) \<and>
         T (fold (spillUseEdge user) is (spillUseEdge user i st)) \<and>
         (\<exists>cs. containedOperands (fold (spillUseEdge user) is (spillUseEdge user i st)) =
                 cs @ containedOperands (spillUseEdge user i st) \<and>
            (\<forall>c\<in>set cs. c \<in> set (UseEdges (nodes st0 user)) \<and> gtContained (nodes st0 c)))"
    using Cons.prems(3,4) by (intro Cons.IH [OF inv1 T1]) simp_all
  then obtain cs2 where cs2:
    "containedOperands (fold (spillUseEdge user) is (spillUseEdge user i st)) =
       cs2 @ containedOperands (spillUseEdge user i st)"
    "\<forall>c\<in>set cs2. c \<in> set (UseEdges (nodes st0 user)) \<and> gtContained (nodes st0 c)"
    by blast
  have "containedOperands (fold (spillUseEdge user) (i # is) st) = (cs2 @ cs1) @ containedOperands st"
    using cs1(1) cs2(1) by simp
  moreover have "\<forall>c\<in>set (cs2 @ cs1). c \<in> set (UseEdges (nodes st0 user)) \<and> gtContained (nodes st0 c)"
    using cs1(2) cs2(2) by auto
  ultimately show ?case using rest by (simp del: append_assoc)
qed

lemma spillUseEdges_fold:
  assumes "SpillInv st0 proc (n # todo) st" "user = n \<or> user \<in> set proc"
  shows "spillUseEdges user st =
           fold (spillUseEdge user) [0..<length (UseEdges (nodes st0 user))] st"
  using SpillInv_user_length(3) [OF assms] by (simp add: spillUseEdges_def)

lemma spillUsers_drain: "spillUsers user st = drainContained (spillUseEdges user st)"
  by (subst spillUsers.simps) (simp add: drainContained_def Let_def)

text \<open>A contained operand stands before its user among the nodes walked so far.\<close>
lemma contained_operand_place:
  assumes wf: "spillWellFormed st0" and r0: "blockRange st0 = proc @ n # todo"
    and u: "u = n \<or> u \<in> set proc"
    and c: "c \<in> set (UseEdges (nodes st0 u))" "gtContained (nodes st0 c)"
  shows "c \<in> set proc" "placeIn (blockRange st0) c < placeIn (blockRange st0) u"
proof -
  have d: "distinct (blockRange st0)" using wf by (simp add: spillWellFormed_def)
  have "u \<in> set (blockRange st0)" using u r0 by auto
  then have before: "c \<in> set (takeWhile (\<lambda>x. x \<noteq> u) (blockRange st0))"
    using wf c unfolding spillWellFormed_def by blast
  show "placeIn (blockRange st0) c < placeIn (blockRange st0) u"
    unfolding placeIn_def using d before by (rule takeWhile_pos_less)
  show "c \<in> set proc"
  proof (cases "u \<in> set proc")
    case True
    have "distinct (proc @ n # todo)" using d r0 by simp
    then show ?thesis using takeWhile_prefix_mem [OF _ True, of "n # todo"] before r0 by auto
  next
    case False
    then have un: "u = n" using u by blast
    have "n \<notin> set proc" using d r0 by auto
    then have "takeWhile (\<lambda>x. x \<noteq> n) (proc @ n # todo) = proc"
      by (induction proc) auto
    then show ?thesis using before r0 un by simp
  qed
qed

lemma mset_smaller_replace:
  fixes p :: nat
  assumes "\<forall>x\<in>set ks. x < p"
  shows "mset ks + R < add_mset p R"
proof -
  have "mset ks < {#p#}"
    using assms by (intro ex_gt_imp_less_multiset) auto
  then have "mset ks + R < {#p#} + R" by (rule add_strict_right_mono)
  then show ?thesis by simp
qed

lemma drainContained_total:
  assumes wf: "spillWellFormed st0" and r0: "blockRange st0 = proc @ n # todo"
    and step: "\<And>u i s. u \<in> set proc \<Longrightarrow> gtContained (nodes st0 u) \<Longrightarrow>
                 i < length (UseEdges (nodes st0 u)) \<Longrightarrow> SpillInv st0 proc (n # todo) s \<Longrightarrow>
                 T s \<Longrightarrow> T (spillUseEdge u i s)"
    and pop: "\<And>s r. T s \<Longrightarrow> T (s\<lparr>containedOperands := r\<rparr>)"
  shows "SpillInv st0 proc (n # todo) st \<Longrightarrow> T st \<Longrightarrow>
         \<forall>c\<in>set (containedOperands st). c \<in> set proc \<and> gtContained (nodes st0 c) \<Longrightarrow>
         \<exists>st'. drainContained st = Some st' \<and> SpillInv st0 proc (n # todo) st' \<and> T st' \<and>
               containedOperands st' = []"
proof (induction "mset (map (placeIn (blockRange st0)) (containedOperands st))" arbitrary: st
        rule: less_induct)
  case less
  show ?case
  proof (cases "containedOperands st")
    case Nil
    then show ?thesis using less.prems by (simp add: drainContained_def)
  next
    case (Cons c rest)
    define s0 where "s0 = st\<lparr>containedOperands := rest\<rparr>"
    define s1 where "s1 = spillUseEdges c s0"
    have c: "c \<in> set proc" "gtContained (nodes st0 c)" using less.prems(3) Cons by simp_all
    have inv0: "SpillInv st0 proc (n # todo) s0" using less.prems(1) by (simp add: s0_def)
    have T0: "T s0" unfolding s0_def using less.prems(2) by (rule pop)
    have cu: "c = n \<or> c \<in> set proc" using c(1) by simp
    have s1: "s1 = fold (spillUseEdge c) [0..<length (UseEdges (nodes st0 c))] s0"
      unfolding s1_def using inv0 cu by (rule spillUseEdges_fold)
    have f: "SpillInv st0 proc (n # todo) s1 \<and> T s1 \<and>
         (\<exists>cs. containedOperands s1 = cs @ containedOperands s0 \<and>
            (\<forall>x\<in>set cs. x \<in> set (UseEdges (nodes st0 c)) \<and> gtContained (nodes st0 x)))"
      unfolding s1
    proof (rule fold_spillUseEdge [where T = T, OF cu _ inv0 T0])
      show "\<And>i s. i \<in> set [0..<length (UseEdges (nodes st0 c))] \<Longrightarrow>
              SpillInv st0 proc (n # todo) s \<Longrightarrow> T s \<Longrightarrow> T (spillUseEdge c i s)"
        using step [OF c] by simp
      show "\<forall>i\<in>set [0..<length (UseEdges (nodes st0 c))]. i < length (UseEdges (nodes st0 c))"
        by simp
    qed
    then obtain cs where cs: "containedOperands s1 = cs @ rest"
      "\<forall>x\<in>set cs. x \<in> set (UseEdges (nodes st0 c)) \<and> gtContained (nodes st0 x)"
      by (auto simp add: s0_def)
    have csp: "\<forall>x\<in>set cs. x \<in> set proc \<and> placeIn (blockRange st0) x < placeIn (blockRange st0) c"
      using contained_operand_place [OF wf r0 cu] cs(2) by blast
    have stack1: "\<forall>x\<in>set (containedOperands s1). x \<in> set proc \<and> gtContained (nodes st0 x)"
      unfolding cs(1) using cs(2) csp less.prems(3) Cons by auto
    have "mset (map (placeIn (blockRange st0)) cs) + mset (map (placeIn (blockRange st0)) rest)
            < add_mset (placeIn (blockRange st0) c) (mset (map (placeIn (blockRange st0)) rest))"
      using csp by (intro mset_smaller_replace) auto
    then have dec: "mset (map (placeIn (blockRange st0)) (containedOperands s1))
            < mset (map (placeIn (blockRange st0)) (containedOperands st))"
      unfolding cs(1) Cons by simp
    have "\<exists>st'. drainContained s1 = Some st' \<and> SpillInv st0 proc (n # todo) st' \<and> T st' \<and>
               containedOperands st' = []"
      using f stack1 by (intro less.hyps [OF dec]) simp_all
    moreover have "drainContained st = drainContained s1"
      using Cons by (simp add: drainContained_def [of st] spillUsers_drain s1_def s0_def)
    ultimately show ?thesis by simp
  qed
qed

subsection \<open>The steps of the loop body\<close>

lemma spillNode_contained:
  "gtContained (nodes st node) \<Longrightarrow> spillNode orc node st = Inr (heapStep node st)"
  by (simp add: spillNode_def heapStep_def Let_def)

lemma spillNode_steps:
  assumes "\<not> gtContained (nodes st node)"
    and "spillRetBuffer orc node (heapStep node st) = Inr st2"
    and "spillUsers node st2 = Some st3"
    and "safepointStep orc node st3 = Inr st4"
  shows "spillNode orc node st = Inr (addDefStep orc node st4)"
  using assms
  by (simp add: spillNode_def heapStep_def safepointStep_def addDefStep_def Let_def bindE_def
        split: if_splits)

lemma SpillKeyEff_SpillInv:
  assumes inv: "SpillInv st0 proc todo st" and e: "SpillKeyEff k st st'"
  shows "SpillInv st0 proc todo st'"
proof -
  obtain s st1 t' where
    c: "TryGetValue k (liveGcDefs st) = Some (Some s) \<and> st1 = st \<or>
        TryGetValue k (liveGcDefs st) = Some None \<and> SpillEff k s st st1"
    and st': "st' = st1\<lparr>liveGcDefs := t'\<rparr>"
    and keys: "map m_key t' = map m_key (liveGcDefs st)"
    and look: "\<And>k'. TryGetValue k' t' = (if k' = k then Some (Some s) else TryGetValue k' (liveGcDefs st))"
    using e unfolding SpillKeyEff_def by blast
  have ti: "TableInv st0 proc st" and ri: "RangeInv st0 proc todo st"
    using inv by (simp_all add: SpillInv_def)
  have key: "TryGetValue k (liveGcDefs st) \<noteq> None" using c by auto
  have kp: "k \<in> set proc" using TableInv_keys_old(1) [OF ti ri key] .
  have inv1: "SpillInv st0 proc todo st1"
    using c inv SpillEff_SpillInv [OF inv kp] by blast
  have tab1: "liveGcDefs st1 = liveGcDefs st" using c by (auto simp add: SpillEff_def)
  have s: "s < lvaCount st1"
    using c ti unfolding TableInv_def SpillEff_def by blast
  have t1: "TableInv st0 proc st1" using inv1 by (simp add: SpillInv_def)
  have "distinct (map m_key t') \<and>
     (\<forall>n. gtLIRMark (nodes st1 n) \<longrightarrow> TryGetValue n t' \<noteq> None) \<and>
     (\<forall>k. TryGetValue k t' \<noteq> None \<longrightarrow>
          k \<in> set proc \<and> gtType (nodes st0 k) \<in> {TYP_REF, TYP_BYREF, TYP_STRUCT}) \<and>
     (\<forall>k s. TryGetValue k t' = Some (Some s) \<longrightarrow> s < lvaCount st1) \<and>
     (\<forall>s\<in>set (spillLclsRef st1). s < lvaCount st1 \<and> lvType (lvaTable st1 s) = TYP_REF) \<and>
     (\<forall>s\<in>set (spillLclsByref st1). s < lvaCount st1)"
  proof (intro conjI allI impI ballI)
    show "distinct (map m_key t')" using ti keys by (simp add: TableInv_def)
  next
    fix n assume "gtLIRMark (nodes st1 n)"
    then have "TryGetValue n (liveGcDefs st) \<noteq> None" using t1 tab1 unfolding TableInv_def by metis
    then show "TryGetValue n t' \<noteq> None" by (simp add: look)
  next
    fix k' assume "TryGetValue k' t' \<noteq> None"
    then have "TryGetValue k' (liveGcDefs st) \<noteq> None" using key by (simp add: look split: if_splits)
    then show "k' \<in> set proc" "gtType (nodes st0 k') \<in> {TYP_REF, TYP_BYREF, TYP_STRUCT}"
      using ti unfolding TableInv_def by blast+
  next
    fix k' s' assume "TryGetValue k' t' = Some (Some s')"
    then have "s' = s \<or> TryGetValue k' (liveGcDefs st1) = Some (Some s')"
      by (simp add: look tab1 split: if_splits)
    then show "s' < lvaCount st1" using s t1 unfolding TableInv_def by blast
  next
    fix x assume "x \<in> set (spillLclsRef st1)"
    then show "x < lvaCount st1" "lvType (lvaTable st1 x) = TYP_REF"
      using t1 unfolding TableInv_def by blast+
  next
    fix x assume "x \<in> set (spillLclsByref st1)"
    then show "x < lvaCount st1" using t1 unfolding TableInv_def by blast
  qed
  then have "TableInv st0 proc st'" unfolding st' TableInv_def by simp
  then show ?thesis
    using inv1 unfolding st' SpillInv_def
    by (simp add: NodesInv_def RangeInv_def isFresh_def)
qed

lemma spillValue_total:
  assumes inv: "SpillInv st0 proc todo st" and key: "TryGetValue k (liveGcDefs st) = Some v"
  shows "\<exists>st1 s. spillValue k v st = Inr (st1, Some s) \<and>
           (v = Some s \<and> st1 = st \<or> v = None \<and> SpillEff k s st st1)"
proof (cases v)
  case (Some s)
  then show ?thesis by simp
next
  case None
  have ti: "TableInv st0 proc st" and ri: "RangeInv st0 proc todo st" and ni: "NodesInv st0 st"
    using inv by (simp_all add: SpillInv_def)
  have k: "TryGetValue k (liveGcDefs st) \<noteq> None" using key by simp
  have k0: "k < nextNode st0" using TableInv_keys_old(2) [OF ti ri k] .
  then have "shapeOf (nodes st k) = shapeOf (nodes st0 k)"
    using ni by (simp add: NodesInv_def isFresh_def)
  then have "gtType (nodes st k) = gtType (nodes st0 k)" by (rule shape_eqD(2))
  then have ty: "gtType (nodes st k) \<in> {TYP_REF, TYP_BYREF, TYP_STRUCT}"
    using ti k unfolding TableInv_def by metis
  show ?thesis
    using spillValue_None_effect [OF ty] ti None unfolding TableInv_def by blast
qed

lemma spillLiveDef_effect:
  assumes inv: "SpillInv st0 proc todo st" and i: "i < length (liveGcDefs st)"
  shows "\<exists>st'. spillLiveDef i st = Inr st' \<and> SpillKeyEff (m_key (liveGcDefs st ! i)) st st'"
proof -
  define k where "k = m_key (liveGcDefs st ! i)"
  define v where "v = m_value (liveGcDefs st ! i)"
  have d: "distinct (map m_key (liveGcDefs st))"
    using inv by (simp add: SpillInv_def TableInv_def)
  have key: "TryGetValue k (liveGcDefs st) = Some v"
    unfolding k_def v_def using d i by (rule TryGetValue_nth)
  obtain st1 s where sv: "spillValue k v st = Inr (st1, Some s)"
    and c: "v = Some s \<and> st1 = st \<or> v = None \<and> SpillEff k s st st1"
    using spillValue_total [OF inv key] by blast
  have tab1: "liveGcDefs st1 = liveGcDefs st" using c by (auto simp add: SpillEff_def)
  define t' where "t' = (liveGcDefs st)[i := (liveGcDefs st ! i)\<lparr>m_value := Some s\<rparr>]"
  have eq: "spillLiveDef i st = Inr (st1\<lparr>liveGcDefs := t'\<rparr>)"
    using sv by (simp add: spillLiveDef_def Let_def k_def v_def bindE_def tab1 t'_def)
  have "SpillKeyEff k st (st1\<lparr>liveGcDefs := t'\<rparr>)"
    unfolding SpillKeyEff_def
  proof (intro exI [of _ s] exI [of _ st1] exI [of _ t'] conjI allI)
    show "TryGetValue k (liveGcDefs st) = Some (Some s) \<and> st1 = st \<or>
          TryGetValue k (liveGcDefs st) = Some None \<and> SpillEff k s st st1"
      using c key by auto
    show "map m_key t' = map m_key (liveGcDefs st)" unfolding t'_def by (rule keys_value_update)
    show "TryGetValue k' t' = (if k' = k then Some (Some s) else TryGetValue k' (liveGcDefs st))" for k'
      unfolding t'_def k_def using d i by (rule TryGetValue_value_update)
  qed simp
  then show ?thesis using eq k_def by simp
qed

lemma spillRetBuffer_effect:
  assumes inv: "SpillInv st0 proc todo st"
  shows "\<exists>st'. spillRetBuffer orc node st = Inr st' \<and>
           (st' = st \<or>
            (\<exists>a. a \<in> set (gtArgs (nodes st node)) \<and> gtOper (nodes st node) = GT_CALL \<and>
                 SpillKeyEff (argNode a) st st'))"
proof (cases "gtOper (nodes st node) = GT_CALL")
  case False
  then show ?thesis by (simp add: spillRetBuffer_def)
next
  case call: True
  show ?thesis
  proof (cases "GetRetBufferArg (nodes st node)")
    case None
    then show ?thesis using call by (simp add: spillRetBuffer_def)
  next
    case (Some a)
    then have a: "a \<in> set (gtArgs (nodes st node))"
      unfolding GetRetBufferArg_def by (auto simp add: find_Some_iff)
    define k where "k = argNode a"
    show ?thesis
    proof (cases "gtLIRMark (nodes st k)")
      case False
      then show ?thesis using call Some by (simp add: spillRetBuffer_def k_def)
    next
      case True
      then have "TryGetValue k (liveGcDefs st) \<noteq> None"
        using inv unfolding SpillInv_def TableInv_def by blast
      then obtain v where key: "TryGetValue k (liveGcDefs st) = Some v" by auto
      obtain st1 s where sv: "spillValue k v st = Inr (st1, Some s)"
        and c: "v = Some s \<and> st1 = st \<or> v = None \<and> SpillEff k s st st1"
        using spillValue_total [OF inv key] by blast
      have tab1: "liveGcDefs st1 = liveGcDefs st" using c by (auto simp add: SpillEff_def)
      define t' where "t' = AddOrUpdate orc (DeterministicNodeHashInfo_GetHashCode orc (nodes st1 k))
                              k (Some s) (liveGcDefs st)"
      have eq: "spillRetBuffer orc node st = Inr (st1\<lparr>liveGcDefs := t'\<rparr>)"
        using call Some True key sv
        by (simp add: spillRetBuffer_def Let_def k_def [symmetric] bindE_def tab1 t'_def)
      have upd: "t' = updateValue k (Some s) (liveGcDefs st)"
        unfolding t'_def using key by (simp add: AddOrUpdate_def)
      have "SpillKeyEff k st (st1\<lparr>liveGcDefs := t'\<rparr>)"
        unfolding SpillKeyEff_def
      proof (intro exI [of _ s] exI [of _ st1] exI [of _ t'] conjI allI)
        show "TryGetValue k (liveGcDefs st) = Some (Some s) \<and> st1 = st \<or>
              TryGetValue k (liveGcDefs st) = Some None \<and> SpillEff k s st st1"
          using c key by auto
        show "map m_key t' = map m_key (liveGcDefs st)" unfolding upd by (rule keys_updateValue)
        show "TryGetValue k' t' = (if k' = k then Some (Some s) else TryGetValue k' (liveGcDefs st))" for k'
          unfolding t'_def by (rule TryGetValue_AddOrUpdate)
      qed simp
      then show ?thesis using eq a call k_def by auto
    qed
  qed
qed

subsection \<open>The loop over the live definitions at a safe point\<close>

lemma SpillKeyEff_keys:
  "SpillKeyEff k st st' \<Longrightarrow> map m_key (liveGcDefs st') = map m_key (liveGcDefs st)"
  unfolding SpillKeyEff_def by auto

lemma SpillKeyEff_slot:
  assumes "SpillKeyEff k st st'"
  shows "\<exists>s. TryGetValue k (liveGcDefs st') = Some (Some s)"
  using assms unfolding SpillKeyEff_def by auto

lemma SpillKeyEff_keeps_slot:
  assumes "SpillKeyEff k st st'" "TryGetValue k' (liveGcDefs st) = Some (Some s')"
  shows "TryGetValue k' (liveGcDefs st') = Some (Some s')"
  using assms unfolding SpillKeyEff_def by auto

lemma SpillKeyEff_other:
  assumes "SpillKeyEff k st st'" "k' \<noteq> k"
  shows "TryGetValue k' (liveGcDefs st') = TryGetValue k' (liveGcDefs st)"
  using assms unfolding SpillKeyEff_def by auto

lemma SpillKeyEff_frame:
  assumes "SpillKeyEff k st st'"
  shows "containedOperands st' = containedOperands st"
proof -
  obtain s st1 t' where
    c: "TryGetValue k (liveGcDefs st) = Some (Some s) \<and> st1 = st \<or>
        TryGetValue k (liveGcDefs st) = Some None \<and> SpillEff k s st st1"
    and st': "st' = st1\<lparr>liveGcDefs := t'\<rparr>"
    using assms unfolding SpillKeyEff_def by blast
  have "containedOperands st1 = containedOperands st" using c by (auto simp add: SpillEff_def)
  then show ?thesis using st' by simp
qed

lemma foldE_spillLiveDef:
  assumes step: "\<And>i s s'. i \<in> set is \<Longrightarrow> SpillInv st0 proc todo s \<Longrightarrow>
                   SpillKeyEff (m_key (liveGcDefs s ! i)) s s' \<Longrightarrow> T s \<Longrightarrow> T s'"
  shows "SpillInv st0 proc todo st \<Longrightarrow> T st \<Longrightarrow> \<forall>i\<in>set is. i < length (liveGcDefs st) \<Longrightarrow>
         \<exists>st'. foldE spillLiveDef is st = Inr st' \<and> SpillInv st0 proc todo st' \<and> T st' \<and>
           map m_key (liveGcDefs st') = map m_key (liveGcDefs st) \<and>
           (\<forall>k s. TryGetValue k (liveGcDefs st) = Some (Some s) \<longrightarrow>
                  TryGetValue k (liveGcDefs st') = Some (Some s)) \<and>
           (\<forall>i\<in>set is. \<exists>s. TryGetValue (m_key (liveGcDefs st ! i)) (liveGcDefs st') = Some (Some s))"
  using step
proof (induction "is" arbitrary: st)
  case Nil
  then show ?case by simp
next
  case (Cons i "is")
  have i: "i < length (liveGcDefs st)" using Cons.prems(3) by simp
  obtain s1 where s1: "spillLiveDef i st = Inr s1"
    and e1: "SpillKeyEff (m_key (liveGcDefs st ! i)) st s1"
    using spillLiveDef_effect [OF Cons.prems(1) i] by blast
  have inv1: "SpillInv st0 proc todo s1" using SpillKeyEff_SpillInv [OF Cons.prems(1) e1] .
  have T1: "T s1" using Cons.prems(4) [of i st s1] Cons.prems(1,2) e1 by simp
  have keys1: "map m_key (liveGcDefs s1) = map m_key (liveGcDefs st)"
    using e1 by (rule SpillKeyEff_keys)
  then have len1: "length (liveGcDefs s1) = length (liveGcDefs st)"
    by (rule map_eq_imp_length_eq)
  have key_at: "m_key (liveGcDefs s1 ! i') = m_key (liveGcDefs st ! i')" if "i' < length (liveGcDefs st)" for i'
    using arg_cong [OF keys1, of "\<lambda>l. l ! i'"] that len1 by simp
  have "\<exists>st'. foldE spillLiveDef is s1 = Inr st' \<and> SpillInv st0 proc todo st' \<and> T st' \<and>
           map m_key (liveGcDefs st') = map m_key (liveGcDefs s1) \<and>
           (\<forall>k s. TryGetValue k (liveGcDefs s1) = Some (Some s) \<longrightarrow>
                  TryGetValue k (liveGcDefs st') = Some (Some s)) \<and>
           (\<forall>i\<in>set is. \<exists>s. TryGetValue (m_key (liveGcDefs s1 ! i)) (liveGcDefs st') = Some (Some s))"
  proof (rule Cons.IH [OF inv1 T1])
    show "\<forall>i\<in>set is. i < length (liveGcDefs s1)" using Cons.prems(3) len1 by simp
    fix i' s s'
    assume "i' \<in> set is" "SpillInv st0 proc todo s" "SpillKeyEff (m_key (liveGcDefs s ! i')) s s'" "T s"
    then show "T s'" using Cons.prems(4) [of i' s s'] by simp
  qed
  then obtain st' where r: "foldE spillLiveDef is s1 = Inr st'" "SpillInv st0 proc todo st'" "T st'"
    "map m_key (liveGcDefs st') = map m_key (liveGcDefs s1)"
    and keep: "\<And>k s. TryGetValue k (liveGcDefs s1) = Some (Some s) \<Longrightarrow>
                  TryGetValue k (liveGcDefs st') = Some (Some s)"
    and fin: "\<And>i'. i' \<in> set is \<Longrightarrow> \<exists>s. TryGetValue (m_key (liveGcDefs s1 ! i')) (liveGcDefs st') = Some (Some s)"
    by blast
  have eq: "foldE spillLiveDef (i # is) st = Inr st'" using s1 r(1) by (simp add: bindE_def)
  show ?case
  proof (intro exI [of _ st'] conjI allI impI ballI)
    show "foldE spillLiveDef (i # is) st = Inr st'" by (rule eq)
    show "SpillInv st0 proc todo st'" by (rule r(2))
    show "T st'" by (rule r(3))
    show "map m_key (liveGcDefs st') = map m_key (liveGcDefs st)" using r(4) keys1 by simp
  next
    fix k s assume "TryGetValue k (liveGcDefs st) = Some (Some s)"
    then have "TryGetValue k (liveGcDefs s1) = Some (Some s)"
      using SpillKeyEff_keeps_slot [OF e1] by blast
    then show "TryGetValue k (liveGcDefs st') = Some (Some s)" by (rule keep)
  next
    fix i' assume i': "i' \<in> set (i # is)"
    show "\<exists>s. TryGetValue (m_key (liveGcDefs st ! i')) (liveGcDefs st') = Some (Some s)"
    proof (cases "i' = i")
      case True
      obtain s where "TryGetValue (m_key (liveGcDefs st ! i)) (liveGcDefs s1) = Some (Some s)"
        using SpillKeyEff_slot [OF e1] by blast
      then show ?thesis using keep True by blast
    next
      case False
      then have m: "i' \<in> set is" using i' by simp
      then have "i' < length (liveGcDefs st)" using Cons.prems(3) by simp
      then show ?thesis using fin [OF m] key_at by simp
    qed
  qed
qed

subsection \<open>Adding the definition of the node\<close>

lemma RangeInv_shift:
  assumes "RangeInv st0 proc (n # todo) st"
  shows "RangeInv st0 (proc @ [n]) todo st"
proof -
  obtain dn where dn: "blockRange st = dn @ n # todo" "set proc \<subseteq> set dn"
    "\<forall>x\<in>set dn. x \<in> set proc \<or> isFresh st0 st x"
    using assms unfolding RangeInv_def by blast
  show ?thesis
    unfolding RangeInv_def
  proof (intro conjI)
    show "distinct (blockRange st)" using assms by (simp add: RangeInv_def)
    show "\<forall>x\<in>set (proc @ [n]) \<union> set todo. x < nextNode st0"
      using assms by (simp add: RangeInv_def)
    show "\<exists>walked. blockRange st = walked @ todo \<and> set (proc @ [n]) \<subseteq> set walked \<and>
            (\<forall>x\<in>set walked. x \<in> set (proc @ [n]) \<or> isFresh st0 st x)"
      using dn by (intro exI [of _ "dn @ [n]"]) auto
  qed
qed

lemma TableInv_mono:
  assumes "TableInv st0 proc st" "set proc \<subseteq> set proc'"
  shows "TableInv st0 proc' st"
  using assms unfolding TableInv_def by blast

lemma isGcTemp_type:
  "isGcTemp orc st node \<Longrightarrow> gtType node \<in> {TYP_REF, TYP_BYREF, TYP_STRUCT}"
  by (auto simp add: isGcTemp_def varTypeIsGC_def split: if_splits)

lemma addDefStep_SpillInv:
  assumes inv: "SpillInv st0 proc (n # todo) st"
  shows "SpillInv st0 (proc @ [n]) todo (addDefStep orc n st)"
proof -
  have ni: "NodesInv st0 st" and ti: "TableInv st0 proc st" and ri: "RangeInv st0 proc (n # todo) st"
    using inv by (simp_all add: SpillInv_def)
  have ri': "RangeInv st0 (proc @ [n]) todo st" using ri by (rule RangeInv_shift)
  have ti': "TableInv st0 (proc @ [n]) st" using ti by (rule TableInv_mono) auto
  show ?thesis
  proof (cases "IsValue orc (nodes st n) \<and> \<not> gtLIRUnusedValue (nodes st n) \<and>
                isGcTemp orc st (nodes st n)")
    case False
    have "addDefStep orc n st = st" unfolding addDefStep_def if_not_P [OF False] by (rule refl)
    then show ?thesis using ni ti' ri' by (simp add: SpillInv_def)
  next
    case True
    define t' where "t' = AddOrUpdate orc
        (DeterministicNodeHashInfo_GetHashCode orc ((nodes st n)\<lparr>gtLIRMark := True\<rparr>)) n None (liveGcDefs st)"
    have eq: "addDefStep orc n st = (updNode n (\<lambda>n. n\<lparr>gtLIRMark := True\<rparr>) st)\<lparr>liveGcDefs := t'\<rparr>"
      using True by (simp add: addDefStep_def Let_def updNode_def t'_def)
    have look: "TryGetValue k' t' = (if k' = n then Some None else TryGetValue k' (liveGcDefs st))" for k'
      unfolding t'_def by (rule TryGetValue_AddOrUpdate)
    have d': "distinct (map m_key t')"
      unfolding t'_def using ti by (intro distinct_AddOrUpdate) (simp add: TableInv_def)
    have n0: "n < nextNode st0" using ri unfolding RangeInv_def by auto
    then have "shapeOf (nodes st n) = shapeOf (nodes st0 n)"
      using ni by (simp add: NodesInv_def isFresh_def)
    then have "gtType (nodes st0 n) = gtType (nodes st n)" using shape_eqD(2) by metis
    then have ty: "gtType (nodes st0 n) \<in> {TYP_REF, TYP_BYREF, TYP_STRUCT}"
      using True isGcTemp_type by metis
    have 1: "NodesInv st0 (addDefStep orc n st)"
      unfolding eq using ni by (simp add: NodesInv_def updNode_def isFresh_def)
    have 2: "RangeInv st0 (proc @ [n]) todo (addDefStep orc n st)"
      unfolding eq using ri' by (simp add: RangeInv_def updNode_def isFresh_def)
    have "distinct (map m_key t') \<and>
     (\<forall>m. gtLIRMark (if m = n then (nodes st n)\<lparr>gtLIRMark := True\<rparr> else nodes st m) \<longrightarrow>
          TryGetValue m t' \<noteq> None) \<and>
     (\<forall>k. TryGetValue k t' \<noteq> None \<longrightarrow>
          k \<in> set (proc @ [n]) \<and> gtType (nodes st0 k) \<in> {TYP_REF, TYP_BYREF, TYP_STRUCT}) \<and>
     (\<forall>k s. TryGetValue k t' = Some (Some s) \<longrightarrow> s < lvaCount st) \<and>
     (\<forall>s\<in>set (spillLclsRef st). s < lvaCount st \<and> lvType (lvaTable st s) = TYP_REF) \<and>
     (\<forall>s\<in>set (spillLclsByref st). s < lvaCount st)"
    proof (intro conjI allI impI ballI)
      show "distinct (map m_key t')" by (rule d')
    next
      fix m assume "gtLIRMark (if m = n then (nodes st n)\<lparr>gtLIRMark := True\<rparr> else nodes st m)"
      then have "m = n \<or> gtLIRMark (nodes st m)" by (auto split: if_splits)
      then show "TryGetValue m t' \<noteq> None" using ti unfolding TableInv_def by (auto simp add: look)
    next
      fix k assume "TryGetValue k t' \<noteq> None"
      then consider "k = n" | "TryGetValue k (liveGcDefs st) \<noteq> None"
        by (auto simp add: look split: if_splits)
      then have "k \<in> set (proc @ [n]) \<and> gtType (nodes st0 k) \<in> {TYP_REF, TYP_BYREF, TYP_STRUCT}"
      proof cases
        case 1
        then show ?thesis using ty by simp
      next
        case 2
        then show ?thesis using ti' unfolding TableInv_def by blast
      qed
      then show "k \<in> set (proc @ [n])" "gtType (nodes st0 k) \<in> {TYP_REF, TYP_BYREF, TYP_STRUCT}"
        by blast+
    next
      fix k s assume "TryGetValue k t' = Some (Some s)"
      then have "TryGetValue k (liveGcDefs st) = Some (Some s)" by (simp add: look split: if_splits)
      then show "s < lvaCount st" using ti unfolding TableInv_def by blast
    next
      fix x assume "x \<in> set (spillLclsRef st)"
      then show "x < lvaCount st" "lvType (lvaTable st x) = TYP_REF"
        using ti unfolding TableInv_def by blast+
    next
      fix x assume "x \<in> set (spillLclsByref st)"
      then show "x < lvaCount st" using ti unfolding TableInv_def by blast
    qed
    then have 3: "TableInv st0 (proc @ [n]) (addDefStep orc n st)"
      unfolding eq TableInv_def by (simp add: updNode_def)
    show ?thesis using 1 2 3 by (simp add: SpillInv_def)
  qed
qed

lemma addDefStep_frame:
  "blockRange (addDefStep orc n st) = blockRange st"
  "containedOperands (addDefStep orc n st) = containedOperands st"
  "nextNode (addDefStep orc n st) = nextNode st"
  by (simp_all add: addDefStep_def Let_def updNode_def)

subsection \<open>The loop body\<close>

lemma heapStep_SpillInv [simp]:
  "SpillInv st0 proc todo (heapStep n st) = SpillInv st0 proc todo st"
  by (simp add: heapStep_def)

lemma keptByNodeD:
  assumes "keptByNode orc st0 proc n todo T T'"
  shows "\<And>s b. T s \<Longrightarrow> T (s\<lparr>lclHeapUsed := b\<rparr>)"
    and "\<And>s r. T s \<Longrightarrow> T (s\<lparr>containedOperands := r\<rparr>)"
    and "\<And>k s s'. SpillInv st0 proc (n # todo) s \<Longrightarrow> SpillKeyEff k s s' \<Longrightarrow> T s \<Longrightarrow> T s'"
    and "\<And>u i s. u = n \<or> u \<in> set proc \<and> gtContained (nodes st0 u) \<Longrightarrow>
           i < length (UseEdges (nodes st0 u)) \<Longrightarrow> SpillInv st0 proc (n # todo) s \<Longrightarrow>
           T s \<Longrightarrow> T (spillUseEdge u i s)"
    and "\<And>s. SpillInv st0 proc (n # todo) s \<Longrightarrow> \<not> gtContained (nodes st0 n) \<Longrightarrow> T s \<Longrightarrow>
           T' (addDefStep orc n s)"
    and "\<And>s. gtContained (nodes st0 n) \<Longrightarrow> T s \<Longrightarrow> T' s"
proof -
  note c = assms [unfolded keptByNode_def]
  show "\<And>s b. T s \<Longrightarrow> T (s\<lparr>lclHeapUsed := b\<rparr>)"
    by (rule c [THEN conjunct1, rule_format])
  show "\<And>s r. T s \<Longrightarrow> T (s\<lparr>containedOperands := r\<rparr>)"
    by (rule c [THEN conjunct2, THEN conjunct1, rule_format])
  show "\<And>k s s'. SpillInv st0 proc (n # todo) s \<Longrightarrow> SpillKeyEff k s s' \<Longrightarrow> T s \<Longrightarrow> T s'"
    by (rule c [THEN conjunct2, THEN conjunct2, THEN conjunct1, rule_format])
  show "\<And>u i s. u = n \<or> u \<in> set proc \<and> gtContained (nodes st0 u) \<Longrightarrow>
           i < length (UseEdges (nodes st0 u)) \<Longrightarrow> SpillInv st0 proc (n # todo) s \<Longrightarrow>
           T s \<Longrightarrow> T (spillUseEdge u i s)"
    by (rule c [THEN conjunct2, THEN conjunct2, THEN conjunct2, THEN conjunct1, rule_format])
  show "\<And>s. SpillInv st0 proc (n # todo) s \<Longrightarrow> \<not> gtContained (nodes st0 n) \<Longrightarrow> T s \<Longrightarrow>
           T' (addDefStep orc n s)"
    by (rule c [THEN conjunct2, THEN conjunct2, THEN conjunct2, THEN conjunct2, THEN conjunct1,
                rule_format])
  show "\<And>s. gtContained (nodes st0 n) \<Longrightarrow> T s \<Longrightarrow> T' s"
    by (rule c [THEN conjunct2, THEN conjunct2, THEN conjunct2, THEN conjunct2, THEN conjunct2,
                rule_format])
qed

lemma addDefStep_lookup:
  "k \<noteq> n \<Longrightarrow> TryGetValue k (liveGcDefs (addDefStep orc n st)) = TryGetValue k (liveGcDefs st)"
  by (simp add: addDefStep_def Let_def updNode_def TryGetValue_AddOrUpdate)

lemma safepointStep_total:
  assumes Tkey: "\<And>k s s'. SpillInv st0 proc todo s \<Longrightarrow> SpillKeyEff k s s' \<Longrightarrow> T s \<Longrightarrow> T s'"
    and inv3: "SpillInv st0 proc todo st3" and T3: "T st3"
  shows "\<exists>st4. safepointStep orc n st3 = Inr st4 \<and> SpillInv st0 proc todo st4 \<and> T st4 \<and>
             containedOperands st4 = containedOperands st3 \<and>
             (isPotentialGcSafePoint orc (nodes st3 n) \<longrightarrow>
                (\<forall>k. TryGetValue k (liveGcDefs st4) \<noteq> Some None))"
proof (cases "isPotentialGcSafePoint orc (nodes st3 n) \<and> length (liveGcDefs st3) \<noteq> 0")
  case False
  have "TryGetValue k (liveGcDefs st3) \<noteq> Some None" if "length (liveGcDefs st3) = 0" for k
    using that by simp
  then show ?thesis using False inv3 T3 by (auto simp add: safepointStep_def)
next
  case True
  have "\<exists>st'. foldE spillLiveDef [0..<length (liveGcDefs st3)] st3 = Inr st' \<and>
       SpillInv st0 proc todo st' \<and> (T st' \<and> containedOperands st' = containedOperands st3) \<and>
       map m_key (liveGcDefs st') = map m_key (liveGcDefs st3) \<and>
       (\<forall>k s. TryGetValue k (liveGcDefs st3) = Some (Some s) \<longrightarrow>
              TryGetValue k (liveGcDefs st') = Some (Some s)) \<and>
       (\<forall>i\<in>set [0..<length (liveGcDefs st3)].
           \<exists>s. TryGetValue (m_key (liveGcDefs st3 ! i)) (liveGcDefs st') = Some (Some s))"
  proof (rule foldE_spillLiveDef
           [where T = "\<lambda>s. T s \<and> containedOperands s = containedOperands st3", OF _ inv3])
    show "T st3 \<and> containedOperands st3 = containedOperands st3" using T3 by simp
    show "\<forall>i\<in>set [0..<length (liveGcDefs st3)]. i < length (liveGcDefs st3)" by simp
  next
    fix i s s'
    assume a: "SpillInv st0 proc todo s" "SpillKeyEff (m_key (liveGcDefs s ! i)) s s'"
      "T s \<and> containedOperands s = containedOperands st3"
    have "T s'" using Tkey [OF a(1,2)] a(3) by simp
    moreover have "containedOperands s' = containedOperands st3"
      using SpillKeyEff_frame [OF a(2)] a(3) by simp
    ultimately show "T s' \<and> containedOperands s' = containedOperands st3" by simp
  qed
  then obtain st4 where r: "foldE spillLiveDef [0..<length (liveGcDefs st3)] st3 = Inr st4"
    "SpillInv st0 proc todo st4" "T st4" "containedOperands st4 = containedOperands st3"
    "map m_key (liveGcDefs st4) = map m_key (liveGcDefs st3)"
    and slot: "\<And>i. i < length (liveGcDefs st3) \<Longrightarrow>
                 \<exists>s. TryGetValue (m_key (liveGcDefs st3 ! i)) (liveGcDefs st4) = Some (Some s)"
    by auto
  have "TryGetValue k (liveGcDefs st4) \<noteq> Some None" for k
  proof (cases "k \<in> set (map m_key (liveGcDefs st3))")
    case False
    then have "TryGetValue k (liveGcDefs st4) = None"
      using r(5) by (simp only: TryGetValue_None_iff simp_thms)
    then show ?thesis by simp
  next
    case True
    then obtain i where "i < length (liveGcDefs st3)" "k = m_key (liveGcDefs st3 ! i)"
      by (auto simp add: in_set_conv_nth)
    then show ?thesis using slot [of i] by auto
  qed
  then show ?thesis using True r by (simp add: safepointStep_def)
qed

lemma spillNode_total:
  assumes wf: "spillWellFormed st0" and r0: "blockRange st0 = proc @ n # todo"
    and inv: "SpillInv st0 proc (n # todo) st" and stack: "containedOperands st = []"
    and T: "T st" and kept: "keptByNode orc st0 proc n todo T T'"
  shows "\<exists>st'. spillNode orc n st = Inr st' \<and> SpillInv st0 (proc @ [n]) todo st' \<and>
           RangeInv st0 proc (n # todo) st' \<and> containedOperands st' = [] \<and> T' st' \<and>
           (\<not> gtContained (nodes st0 n) \<longrightarrow> isPotentialGcSafePoint orc (nodes st0 n) \<longrightarrow>
              (\<forall>k. k \<noteq> n \<longrightarrow> TryGetValue k (liveGcDefs st') \<noteq> Some None))"
proof -
  have ni: "NodesInv st0 st" and ti: "TableInv st0 proc st" and ri: "RangeInv st0 proc (n # todo) st"
    using inv by (simp_all add: SpillInv_def)
  note Theap = keptByNodeD(1) [OF kept] and Tpop = keptByNodeD(2) [OF kept]
    and Tkey = keptByNodeD(3) [OF kept] and Tedge = keptByNodeD(4) [OF kept]
    and Tdef = keptByNodeD(5) [OF kept] and Tcont = keptByNodeD(6) [OF kept]
  have unn: "n = n \<or> n \<in> set proc" by simp
  note ul = SpillInv_user_length [OF inv unn]
  have cont: "gtContained (nodes st n) = gtContained (nodes st0 n)"
    by (rule shape_eqD(3) [OF ul(2)])
  have Th: "T (heapStep n st)" using T Theap by (simp add: heapStep_def)
  have stackh: "containedOperands (heapStep n st) = []" using stack by (simp add: heapStep_def)
  have rih: "RangeInv st0 proc (n # todo) (heapStep n st)"
    using ri by (simp add: heapStep_def RangeInv_def isFresh_def)
  show ?thesis
  proof (cases "gtContained (nodes st0 n)")
    case True
    have tm: "TableInv st0 (proc @ [n]) st" using ti by (rule TableInv_mono) auto
    have "SpillInv st0 (proc @ [n]) todo st"
      using ni tm RangeInv_shift [OF ri] by (simp add: SpillInv_def)
    then have "SpillInv st0 (proc @ [n]) todo (heapStep n st)" by simp
    then show ?thesis
      using True cont spillNode_contained [of st n orc] Tcont [OF True Th] stackh rih by simp
  next
    case False
    have invh: "SpillInv st0 proc (n # todo) (heapStep n st)" using inv by simp
    obtain st2 where st2: "spillRetBuffer orc n (heapStep n st) = Inr st2"
      and e2: "st2 = heapStep n st \<or> (\<exists>k. SpillKeyEff k (heapStep n st) st2)"
      using spillRetBuffer_effect [OF invh, of orc n] by blast
    have inv2: "SpillInv st0 proc (n # todo) st2"
      using e2 invh SpillKeyEff_SpillInv [OF invh] by blast
    have T2: "T st2"
    proof (cases "st2 = heapStep n st")
      case True
      then show ?thesis using Th by simp
    next
      case False
      then obtain k where "SpillKeyEff k (heapStep n st) st2" using e2 by blast
      then show ?thesis using Tkey [OF invh _ Th] by blast
    qed
    have stack2: "containedOperands st2 = []"
      using e2 stackh SpillKeyEff_frame by metis
    have un: "n = n \<or> n \<in> set proc" by simp
    define s3 where "s3 = spillUseEdges n st2"
    have s3: "s3 = fold (spillUseEdge n) [0..<length (UseEdges (nodes st0 n))] st2"
      unfolding s3_def using inv2 un by (rule spillUseEdges_fold)
    have f: "SpillInv st0 proc (n # todo) s3 \<and> T s3 \<and>
         (\<exists>cs. containedOperands s3 = cs @ containedOperands st2 \<and>
            (\<forall>x\<in>set cs. x \<in> set (UseEdges (nodes st0 n)) \<and> gtContained (nodes st0 x)))"
      unfolding s3
    proof (rule fold_spillUseEdge [where T = T, OF un _ inv2 T2])
      fix i s
      assume "i \<in> set [0..<length (UseEdges (nodes st0 n))]" "SpillInv st0 proc (n # todo) s" "T s"
      then show "T (spillUseEdge n i s)" by (intro Tedge) simp_all
    next
      show "\<forall>i\<in>set [0..<length (UseEdges (nodes st0 n))]. i < length (UseEdges (nodes st0 n))"
        by simp
    qed
    then obtain cs where cs: "containedOperands s3 = cs @ containedOperands st2"
      "\<forall>x\<in>set cs. x \<in> set (UseEdges (nodes st0 n)) \<and> gtContained (nodes st0 x)"
      by blast
    have stack3: "\<forall>c\<in>set (containedOperands s3). c \<in> set proc \<and> gtContained (nodes st0 c)"
      unfolding cs(1) stack2 using contained_operand_place(1) [OF wf r0 un] cs(2) by simp
    have "\<exists>st'. drainContained s3 = Some st' \<and> SpillInv st0 proc (n # todo) st' \<and> T st' \<and>
               containedOperands st' = []"
    proof (rule drainContained_total [where T = T, OF wf r0])
      show "\<And>s r. T s \<Longrightarrow> T (s\<lparr>containedOperands := r\<rparr>)" by (rule Tpop)
      show "SpillInv st0 proc (n # todo) s3" "T s3" using f by blast+
      show "\<forall>c\<in>set (containedOperands s3). c \<in> set proc \<and> gtContained (nodes st0 c)"
        by (rule stack3)
    next
      fix u i s
      assume "u \<in> set proc" "gtContained (nodes st0 u)" "i < length (UseEdges (nodes st0 u))"
        "SpillInv st0 proc (n # todo) s" "T s"
      then show "T (spillUseEdge u i s)" by (intro Tedge) simp_all
    qed
    then obtain st3 where st3: "spillUsers n st2 = Some st3" and inv3: "SpillInv st0 proc (n # todo) st3"
      and T3: "T st3" and stack3: "containedOperands st3 = []"
      unfolding spillUsers_drain s3_def by blast
    have "\<exists>st4. safepointStep orc n st3 = Inr st4 \<and> SpillInv st0 proc (n # todo) st4 \<and> T st4 \<and>
             containedOperands st4 = containedOperands st3 \<and>
             (isPotentialGcSafePoint orc (nodes st3 n) \<longrightarrow>
                (\<forall>k. TryGetValue k (liveGcDefs st4) \<noteq> Some None))"
      using Tkey by (intro safepointStep_total [where T = T, OF _ inv3 T3]) blast
    then obtain st4 where st4: "safepointStep orc n st3 = Inr st4"
      and inv4: "SpillInv st0 proc (n # todo) st4" and T4: "T st4"
      and stack4: "containedOperands st4 = []"
      and slots4: "isPotentialGcSafePoint orc (nodes st3 n) \<Longrightarrow>
                     (\<forall>k. TryGetValue k (liveGcDefs st4) \<noteq> Some None)"
      using stack3 by auto
    have sh3: "shapeOf (nodes st3 n) = shapeOf (nodes st0 n)"
      by (rule SpillInv_user_length(2) [OF inv3 unn])
    have sp: "isPotentialGcSafePoint orc (nodes st3 n) = isPotentialGcSafePoint orc (nodes st0 n)"
      unfolding isPotentialGcSafePoint_def
      using shape_eqD(1) [OF sh3] shape_eqD(8) [OF sh3] shape_eqD(9) [OF sh3] shape_eqD(10) [OF sh3]
      by simp
    have slots: "isPotentialGcSafePoint orc (nodes st0 n) \<longrightarrow>
           (\<forall>k. k \<noteq> n \<longrightarrow> TryGetValue k (liveGcDefs (addDefStep orc n st4)) \<noteq> Some None)"
      using slots4 sp by (auto simp add: addDefStep_lookup)
    have eq: "spillNode orc n st = Inr (addDefStep orc n st4)"
      using False cont st2 st3 st4 by (intro spillNode_steps) simp_all
    have ri4: "RangeInv st0 proc (n # todo) (addDefStep orc n st4)"
      using inv4 by (simp add: SpillInv_def RangeInv_def addDefStep_frame isFresh_def)
    show ?thesis
      using eq addDefStep_SpillInv [OF inv4, of orc] Tdef [OF inv4 False T4] stack4 ri4 slots
      by (simp add: addDefStep_frame)
  qed
qed


subsection \<open>The walk over the range\<close>

lemma foldE_append: "foldE f (xs @ ys) s = bindE (foldE f xs s) (foldE f ys)"
  by (induction xs arbitrary: s) (auto simp add: bindE_def split: sum.splits)

lemma keptByNode_True: "keptByNode orc st0 proc n todo (\<lambda>_. True) (\<lambda>_. True)"
  by (simp add: keptByNode_def)

lemma foldE_spillNode:
  assumes wf: "spillWellFormed st0"
  shows "(\<And>p n t. blockRange st0 = p @ n # t \<Longrightarrow> n \<in> set ns \<Longrightarrow> keptByNode orc st0 p n t T T) \<Longrightarrow>
         blockRange st0 = proc @ ns @ todo \<Longrightarrow> SpillInv st0 proc (ns @ todo) st \<Longrightarrow>
         containedOperands st = [] \<Longrightarrow> T st \<Longrightarrow>
         \<exists>st'. foldE (spillNode orc) ns st = Inr st' \<and> SpillInv st0 (proc @ ns) todo st' \<and>
               containedOperands st' = [] \<and> T st'"
proof (induction ns arbitrary: proc st)
  case Nil
  then show ?case by simp
next
  case (Cons n ns)
  have r0: "blockRange st0 = proc @ n # (ns @ todo)" using Cons.prems(2) by simp
  have inv: "SpillInv st0 proc (n # (ns @ todo)) st" using Cons.prems(3) by simp
  have k: "keptByNode orc st0 proc n (ns @ todo) T T" using Cons.prems(1) [OF r0] by simp
  obtain s1 where s1: "spillNode orc n st = Inr s1" "SpillInv st0 (proc @ [n]) (ns @ todo) s1"
    "containedOperands s1 = []" "T s1"
    using spillNode_total [where T = T and T' = T, OF wf r0 inv Cons.prems(4,5) k] by blast
  have "\<exists>st'. foldE (spillNode orc) ns s1 = Inr st' \<and> SpillInv st0 ((proc @ [n]) @ ns) todo st' \<and>
               containedOperands st' = [] \<and> T st'"
  proof (rule Cons.IH [OF _ _ s1(2,3,4)])
    show "blockRange st0 = (proc @ [n]) @ ns @ todo" using r0 by simp
    fix p m t assume "blockRange st0 = p @ m # t" "m \<in> set ns"
    then show "keptByNode orc st0 p m t T T" using Cons.prems(1) [of p m t] by simp
  qed
  then show ?case using s1(1) by (simp add: bindE_def)
qed

lemma gtNext_after: "n \<notin> set dn \<Longrightarrow> gtNext n (dn @ n # todo) = FirstNode todo"
proof (induction dn)
  case Nil
  then show ?case by (cases todo) (simp_all add: FirstNode_def)
next
  case (Cons x xs)
  then show ?case by (cases xs) simp_all
qed

lemma forEachNodeFrom_foldE:
  assumes wf: "spillWellFormed st0"
  shows "blockRange st0 = proc @ todo \<Longrightarrow> SpillInv st0 proc todo st \<Longrightarrow>
         containedOperands st = [] \<Longrightarrow>
         forEachNodeFrom (spillNode orc) (FirstNode todo) st = Some (foldE (spillNode orc) todo st)"
proof (induction todo arbitrary: proc st)
  case Nil
  then show ?case by (subst forEachNodeFrom.simps) (simp add: FirstNode_def)
next
  case (Cons n todo)
  obtain s1 where s1: "spillNode orc n st = Inr s1" "SpillInv st0 (proc @ [n]) todo s1"
    "RangeInv st0 proc (n # todo) s1" "containedOperands s1 = []"
    using spillNode_total [where T = "\<lambda>_. True" and T' = "\<lambda>_. True",
            OF wf Cons.prems(1,2,3) _ keptByNode_True] by blast
  obtain dn where dn: "blockRange s1 = dn @ n # todo" and d: "distinct (blockRange s1)"
    using s1(3) unfolding RangeInv_def by blast
  have "n \<notin> set dn" using d dn by auto
  then have nx: "gtNext n (blockRange s1) = FirstNode todo" unfolding dn by (rule gtNext_after)
  have "forEachNodeFrom (spillNode orc) (FirstNode todo) s1 = Some (foldE (spillNode orc) todo s1)"
    using Cons.prems(1) by (intro Cons.IH [OF _ s1(2,4)]) simp
  then show ?case
    using s1(1) nx by (subst forEachNodeFrom.simps) (simp add: FirstNode_def bindE_def)
qed

lemma SpillInv_initial:
  assumes wf: "spillWellFormed st0"
  shows "SpillInv st0 [] (blockRange st0) st0"
proof -
  have "NodesInv st0 st0" by (auto simp add: NodesInv_def isFresh_def)
  moreover have "TableInv st0 [] st0"
    using wf by (simp add: TableInv_def spillWellFormed_def)
  moreover have "RangeInv st0 [] (blockRange st0) st0"
    using wf by (simp add: RangeInv_def spillWellFormed_def)
  ultimately show ?thesis by (simp add: SpillInv_def)
qed

lemma spillRange_foldE:
  assumes wf: "spillWellFormed st0"
  shows "spillRange orc st0 = foldE (spillNode orc) (blockRange st0) st0"
proof -
  have "containedOperands st0 = []" using wf by (simp add: spillWellFormed_def)
  then have "forEachNodeFrom (spillNode orc) (FirstNode (blockRange st0)) st0 =
          Some (foldE (spillNode orc) (blockRange st0) st0)"
    using SpillInv_initial [OF wf] by (intro forEachNodeFrom_foldE [OF wf, of "[]"]) simp_all
  then show ?thesis by (simp add: spillRange_def)
qed

subsection \<open>A spilled definition stays spilled\<close>

lemma insertAfter_mem:
  "a \<in> set xs \<Longrightarrow> \<exists>r1 r2. insertAfter a [x] xs = r1 @ a # x # r2"
proof (induction xs)
  case (Cons y ys)
  show ?case
  proof (cases "y = a")
    case True
    then show ?thesis by (auto intro: exI [of _ "[]"])
  next
    case False
    then obtain r1 r2 where "insertAfter a [x] ys = r1 @ a # x # r2" using Cons by auto
    then have "insertAfter a [x] (y # ys) = (y # r1) @ a # x # r2" using False by simp
    then show ?thesis by blast
  qed
qed simp

lemma insertBefore_mem:
  "b \<in> set xs \<Longrightarrow> \<exists>r1 r2. insertBefore b [x] xs = r1 @ x # b # r2"
proof (induction xs)
  case (Cons y ys)
  show ?case
  proof (cases "y = b")
    case True
    then show ?thesis by (auto intro: exI [of _ "[]"])
  next
    case False
    then obtain r1 r2 where "insertBefore b [x] ys = r1 @ x # b # r2" using Cons by auto
    then have "insertBefore b [x] (y # ys) = (y # r1) @ x # b # r2" using False by simp
    then show ?thesis by blast
  qed
qed simp

lemma SpilledI:
  assumes "s < lvaCount st" "lvType (lvaTable st s) = TYP_REF"
    and "blockRange st = r1 @ X # S # r2" "isFresh st0 st S"
    and "gtOper (nodes st S) = GT_STORE_LCL_VAR" "gtLclNum (nodes st S) = s"
    and "UseEdges (nodes st S) = [X]"
  shows "Spilled st0 X s st"
  unfolding Spilled_def using assms by blast

lemma Spilled_frame:
  assumes "Spilled st0 X s st"
    and "blockRange st' = blockRange st" "nextNode st' = nextNode st"
    and "lvaCount st' = lvaCount st" "lvaTable st' = lvaTable st"
    and "\<And>f. isFresh st0 st f \<Longrightarrow> nodes st' f = nodes st f"
  shows "Spilled st0 X s st'"
proof -
  obtain S r1 r2 where S: "blockRange st = r1 @ X # S # r2" "isFresh st0 st S"
    "gtOper (nodes st S) = GT_STORE_LCL_VAR" "gtLclNum (nodes st S) = s" "UseEdges (nodes st S) = [X]"
    and s: "s < lvaCount st" "lvType (lvaTable st s) = TYP_REF"
    using assms(1) unfolding Spilled_def by blast
  have "isFresh st0 st' S" using S(2) assms(3) by (simp add: isFresh_def)
  then show ?thesis
    using S s assms(2,4,5) assms(6) [OF S(2)]
    by (intro SpilledI [where S = S and ?r1.0 = r1 and ?r2.0 = r2]) simp_all
qed

lemma Spilled_SpillEff_other:
  assumes sp: "Spilled st0 X s st" and e: "SpillEff d s' st st'" and d: "d \<noteq> X"
    and le: "nextNode st0 \<le> nextNode st"
  shows "Spilled st0 X s st'"
proof -
  obtain S r1 r2 where S: "blockRange st = r1 @ X # S # r2" "isFresh st0 st S"
    "gtOper (nodes st S) = GT_STORE_LCL_VAR" "gtLclNum (nodes st S) = s" "UseEdges (nodes st S) = [X]"
    and s: "s < lvaCount st" "lvType (lvaTable st s) = TYP_REF"
    using sp unfolding Spilled_def by blast
  have nx: "nextNode st' = Suc (nextNode st)" using e by (simp add: SpillEff_def)
  have rng: "blockRange st' = insertAfter d [nextNode st] (blockRange st)"
    using e by (simp add: SpillEff_def)
  have lva: "lvaCount st \<le> lvaCount st'" "lvaTable st' s = lvaTable st s"
    using e s(1) by (simp_all add: SpillEff_def)
  have "S \<noteq> nextNode st" using S(2) by (simp add: isFresh_def)
  then have same: "nodes st' S = nodes st S" using e by (simp add: SpillEff_def)
  obtain r1' r2' where "blockRange st' = r1' @ X # S # r2'"
    unfolding rng S(1) using insertAfter_keeps_pair [OF d] by blast
  moreover have "isFresh st0 st' S" using S(2) nx by (simp add: isFresh_def)
  ultimately show ?thesis
    using S(3,4,5) s lva same
    by (intro SpilledI [where S = S and ?r1.0 = r1' and ?r2.0 = r2']) simp_all
qed

lemma Spilled_SpillEff_self:
  assumes e: "SpillEff X s st st'" and ty: "gtType (nodes st X) = TYP_REF"
    and x: "X \<in> set (blockRange st)" and le: "nextNode st0 \<le> nextNode st"
  shows "Spilled st0 X s st'"
proof -
  have nx: "nextNode st' = Suc (nextNode st)" using e by (simp add: SpillEff_def)
  have rng: "blockRange st' = insertAfter X [nextNode st] (blockRange st)"
    using e by (simp add: SpillEff_def)
  obtain r1 r2 where "blockRange st' = r1 @ X # nextNode st # r2"
    unfolding rng using insertAfter_mem [OF x] by blast
  moreover have "isFresh st0 st' (nextNode st)" using le nx by (simp add: isFresh_def)
  ultimately show ?thesis
    using e ty
    by (intro SpilledI [where S = "nextNode st" and ?r1.0 = r1 and ?r2.0 = r2])
       (simp_all add: SpillEff_def)
qed

lemma Spilled_LoadEff:
  assumes sp: "Spilled st0 X s st" and e: "LoadEff user i operand s' st st'"
    and u: "user < nextNode st0" and ob: "operand < nextNode st0"
  shows "Spilled st0 X s st'"
proof -
  obtain S r1 r2 where S: "blockRange st = r1 @ X # S # r2" "isFresh st0 st S"
    "gtOper (nodes st S) = GT_STORE_LCL_VAR" "gtLclNum (nodes st S) = s" "UseEdges (nodes st S) = [X]"
    and s: "s < lvaCount st" "lvType (lvaTable st s) = TYP_REF"
    using sp unfolding Spilled_def by blast
  have nx: "nextNode st' = Suc (nextNode st)" using e by (simp add: LoadEff_def)
  have rng: "blockRange st' = insertBefore user [nextNode st] (blockRange st)"
    using e by (simp add: LoadEff_def)
  have lva: "lvaCount st' = lvaCount st" "lvaTable st' = lvaTable st"
    using e by (simp_all add: LoadEff_def)
  have ne: "S \<noteq> nextNode st" "S \<noteq> user" "S \<noteq> operand"
    using S(2) u ob by (auto simp add: isFresh_def)
  then have same: "nodes st' S = nodes st S" using e by (simp add: LoadEff_def)
  obtain r1' r2' where "blockRange st' = r1' @ X # S # r2'"
    unfolding rng S(1) using insertBefore_keeps_pair [OF ne(2) [symmetric]] by blast
  moreover have "isFresh st0 st' S" using S(2) nx by (simp add: isFresh_def)
  ultimately show ?thesis
    using S(3,4,5) s lva same
    by (intro SpilledI [where S = S and ?r1.0 = r1' and ?r2.0 = r2']) simp_all
qed

lemma Spilled_SpillKeyEff:
  assumes inv: "SpillInv st0 proc todo st" and e: "SpillKeyEff k st st'"
    and sp: "Spilled st0 X s st" and k: "k \<noteq> X"
  shows "Spilled st0 X s st'"
proof -
  obtain s1 st1 t' where
    c: "TryGetValue k (liveGcDefs st) = Some (Some s1) \<and> st1 = st \<or>
        TryGetValue k (liveGcDefs st) = Some None \<and> SpillEff k s1 st st1"
    and st': "st' = st1\<lparr>liveGcDefs := t'\<rparr>"
    using e unfolding SpillKeyEff_def by blast
  have le: "nextNode st0 \<le> nextNode st" using inv by (simp add: SpillInv_def NodesInv_def)
  have "Spilled st0 X s st1"
    using c sp Spilled_SpillEff_other [OF sp _ k le] by blast
  then show ?thesis unfolding st' by (rule Spilled_frame) simp_all
qed


subsection \<open>A live definition stays live until its use\<close>

lemma RangeInv_proc_in_range:
  assumes "RangeInv st0 proc todo st" "x \<in> set proc"
  shows "x \<in> set (blockRange st)"
  using assms unfolding RangeInv_def by auto

lemma soleUseD:
  assumes "soleUse st0 X U j"
  shows "X < nextNode st0" "gtType (nodes st0 X) = TYP_REF" "U < nextNode st0"
    "\<not> gtContained (nodes st0 U)" "j < length (UseEdges (nodes st0 U))"
    "UseEdges (nodes st0 U) ! j = X"
    "\<And>u i. i < length (UseEdges (nodes st0 u)) \<Longrightarrow> UseEdges (nodes st0 u) ! i = X \<Longrightarrow> u = U \<and> i = j"
    "\<not> gtContained (nodes st0 X)"
  using assms unfolding soleUse_def by blast+

lemma old_node_shape:
  assumes "SpillInv st0 proc todo st" "x < nextNode st0"
  shows "shapeOf (nodes st x) = shapeOf (nodes st0 x)"
  using assms by (simp add: SpillInv_def NodesInv_def isFresh_def)

lemma edge_not_X:
  assumes inv: "SpillInv st0 proc (n # todo) st" and su: "soleUse st0 X U j"
    and user: "u = n \<or> u \<in> set proc" and i: "i < length (UseEdges (nodes st0 u))"
    and ne: "\<not> (u = U \<and> i = j)"
  shows "UseEdges (nodes st u) ! i \<noteq> X"
proof
  assume eq: "UseEdges (nodes st u) ! i = X"
  have "u < nextNode st0" using SpillInv_user_length(1) [OF inv user] .
  then have "\<not> isFresh st0 st u" by (simp add: isFresh_def)
  then have "UseEdges (nodes st u) ! i = UseEdges (nodes st0 u) ! i \<or>
             isFresh st0 st (UseEdges (nodes st u) ! i)"
    using inv i unfolding SpillInv_def NodesInv_def by blast
  moreover have "\<not> isFresh st0 st X" using soleUseD(1) [OF su] by (simp add: isFresh_def)
  ultimately have "UseEdges (nodes st0 u) ! i = X" using eq by auto
  then show False using soleUseD(7) [OF su i] ne by blast
qed

lemma TrackLive_containedOperands [simp]:
  "TrackLive st0 X U j (s\<lparr>containedOperands := r\<rparr>) = TrackLive st0 X U j s"
  by (simp add: TrackLive_def Spilled_def isFresh_def)

lemma TrackLive_lclHeapUsed [simp]:
  "TrackLive st0 X U j (s\<lparr>lclHeapUsed := b\<rparr>) = TrackLive st0 X U j s"
  by (simp add: TrackLive_def Spilled_def isFresh_def)

lemma TrackLive_SpillKeyEff:
  assumes inv: "SpillInv st0 proc todo st" and su: "soleUse st0 X U j"
    and e: "SpillKeyEff k st st'" and t: "TrackLive st0 X U j st"
  shows "TrackLive st0 X U j st'"
proof -
  obtain s1 st1 t' where
    c: "TryGetValue k (liveGcDefs st) = Some (Some s1) \<and> st1 = st \<or>
        TryGetValue k (liveGcDefs st) = Some None \<and> SpillEff k s1 st st1"
    and st': "st' = st1\<lparr>liveGcDefs := t'\<rparr>"
    and look: "\<And>k'. TryGetValue k' t' = (if k' = k then Some (Some s1) else TryGetValue k' (liveGcDefs st))"
    using e unfolding SpillKeyEff_def by blast
  have ni: "NodesInv st0 st" and ti: "TableInv st0 proc st" and ri: "RangeInv st0 proc todo st"
    using inv by (simp_all add: SpillInv_def)
  have le: "nextNode st0 \<le> nextNode st" using ni by (simp add: NodesInv_def)
  have same: "nodes st1 x = nodes st x" if "x < nextNode st0" for x
    using c that le by (auto simp add: SpillEff_def)
  have mk: "gtLIRMark (nodes st X)" and ed: "UseEdges (nodes st U) ! j = X"
    and sp: "\<And>s. TryGetValue X (liveGcDefs st) = Some (Some s) \<Longrightarrow> Spilled st0 X s st"
    using t unfolding TrackLive_def by blast+
  have fr: "Spilled st0 X s st1 \<Longrightarrow> Spilled st0 X s st'" for s
    unfolding st' by (rule Spilled_frame) simp_all
  show ?thesis
    unfolding TrackLive_def
  proof (intro conjI allI impI)
    show "gtLIRMark (nodes st' X)" using mk same [OF soleUseD(1) [OF su]] by (simp add: st')
    show "UseEdges (nodes st' U) ! j = X" using ed same [OF soleUseD(3) [OF su]] by (simp add: st')
  next
    fix s assume a: "TryGetValue X (liveGcDefs st') = Some (Some s)"
    show "Spilled st0 X s st'"
    proof (cases "X = k")
      case False
      then have "TryGetValue X (liveGcDefs st) = Some (Some s)" using a by (simp add: st' look)
      then show ?thesis using Spilled_SpillKeyEff [OF inv e] sp False by blast
    next
      case True
      then have s: "s = s1" using a by (simp add: st' look)
      from c show ?thesis
      proof
        assume "TryGetValue k (liveGcDefs st) = Some (Some s1) \<and> st1 = st"
        then show ?thesis using sp True s fr by blast
      next
        assume c2: "TryGetValue k (liveGcDefs st) = Some None \<and> SpillEff k s1 st st1"
        then have key: "TryGetValue X (liveGcDefs st) \<noteq> None" using True by simp
        have "X \<in> set proc" using TableInv_keys_old(1) [OF ti ri key] .
        then have x: "X \<in> set (blockRange st)" using RangeInv_proc_in_range [OF ri] by blast
        have "gtType (nodes st X) = gtType (nodes st0 X)"
          by (rule shape_eqD(2) [OF old_node_shape [OF inv soleUseD(1) [OF su]]])
        then have ty: "gtType (nodes st X) = TYP_REF" using soleUseD(2) [OF su] by simp
        have "Spilled st0 X s1 st1"
          using c2 True by (intro Spilled_SpillEff_self [OF _ ty x le]) simp
        then show ?thesis using fr s by blast
      qed
    qed
  qed
qed

lemma TrackLive_spillUseEdge:
  assumes inv: "SpillInv st0 proc (n # todo) st" and su: "soleUse st0 X U j"
    and user: "u = n \<or> u \<in> set proc" and i: "i < length (UseEdges (nodes st0 u))"
    and ne: "\<not> (u = U \<and> i = j)" and t: "TrackLive st0 X U j st"
  shows "TrackLive st0 X U j (spillUseEdge u i st)"
proof -
  define operand where "operand = UseEdges (nodes st u) ! i"
  have ox: "operand \<noteq> X" unfolding operand_def by (rule edge_not_X [OF inv su user i ne])
  have d: "distinct (map m_key (liveGcDefs st))" using inv by (simp add: SpillInv_def TableInv_def)
  have mk: "gtLIRMark (nodes st X)" and ed: "UseEdges (nodes st U) ! j = X"
    and sp: "\<And>s. TryGetValue X (liveGcDefs st) = Some (Some s) \<Longrightarrow> Spilled st0 X s st"
    using t unfolding TrackLive_def by blast+
  have u0: "u < nextNode st0" using SpillInv_user_length(1) [OF inv user] .
  have lenU: "length (UseEdges (nodes st U)) = length (UseEdges (nodes st0 U))"
    by (rule shape_eqD(11) [OF old_node_shape [OF inv soleUseD(3) [OF su]]])
  from inv user i show ?thesis
  proof (cases rule: spillUseEdge_cases)
    case contained
    then show ?thesis using t by simp
  next
    case unmarked
    then show ?thesis using t by simp
  next
    case unspilled
    have look: "TryGetValue X (fst (TryRemove operand (liveGcDefs st))) = TryGetValue X (liveGcDefs st)"
      using ox by (simp add: TryGetValue_TryRemove [OF d])
    have o0: "operand < nextNode st0" using unspilled(4) by (simp add: operand_def)
    show ?thesis
      unfolding unspilled(3) operand_def [symmetric] TrackLive_def
    proof (intro conjI allI impI)
      show "gtLIRMark (nodes (updNode operand (\<lambda>n. n\<lparr>gtLIRMark := False\<rparr>)
              (st\<lparr>liveGcDefs := fst (TryRemove operand (liveGcDefs st))\<rparr>)) X)"
        using mk ox by (simp add: updNode_def)
      show "UseEdges (nodes (updNode operand (\<lambda>n. n\<lparr>gtLIRMark := False\<rparr>)
              (st\<lparr>liveGcDefs := fst (TryRemove operand (liveGcDefs st))\<rparr>)) U) ! j = X"
        using ed by (auto simp add: updNode_def)
    next
      fix s
      assume "TryGetValue X (liveGcDefs (updNode operand (\<lambda>n. n\<lparr>gtLIRMark := False\<rparr>)
              (st\<lparr>liveGcDefs := fst (TryRemove operand (liveGcDefs st))\<rparr>))) = Some (Some s)"
      then have "TryGetValue X (liveGcDefs st) = Some (Some s)" using look by (simp add: updNode_def)
      then have "Spilled st0 X s st" by (rule sp)
      then show "Spilled st0 X s (updNode operand (\<lambda>n. n\<lparr>gtLIRMark := False\<rparr>)
              (st\<lparr>liveGcDefs := fst (TryRemove operand (liveGcDefs st))\<rparr>))"
        by (rule Spilled_frame) (insert o0, auto simp add: updNode_def isFresh_def)
    qed
  next
    case (spilled s')
    note e = spilled(3) [folded operand_def]
    have o0: "operand < nextNode st0" using spilled(4) by (simp add: operand_def)
    have le: "nextNode st0 \<le> nextNode st" using inv by (simp add: SpillInv_def NodesInv_def)
    have xn: "X \<noteq> nextNode st" "U \<noteq> nextNode st"
      using soleUseD(1,3) [OF su] le by auto
    have look: "TryGetValue X (liveGcDefs (spillUseEdge u i st)) = TryGetValue X (liveGcDefs st)"
      using e ox by (simp add: LoadEff_def TryGetValue_TryRemove [OF d])
    show ?thesis
      unfolding TrackLive_def
    proof (intro conjI allI impI)
      show "gtLIRMark (nodes (spillUseEdge u i st) X)"
        using e mk ox xn(1) by (simp add: LoadEff_def)
      show "UseEdges (nodes (spillUseEdge u i st) U) ! j = X"
      proof (cases "U = u")
        case True
        then have "i \<noteq> j" using ne by blast
        then show ?thesis using e True ed by (simp add: LoadEff_def)
      next
        case False
        have "UseEdges (nodes (spillUseEdge u i st) U) = UseEdges (nodes st U)"
        proof (cases "U = operand")
          case True
          then show ?thesis using e False by (simp add: LoadEff_def)
        next
          case no: False
          then have "nodes (spillUseEdge u i st) U = nodes st U"
            using e False xn(2) by (simp add: LoadEff_def)
          then show ?thesis by simp
        qed
        then show ?thesis using ed by simp
      qed
    next
      fix s assume "TryGetValue X (liveGcDefs (spillUseEdge u i st)) = Some (Some s)"
      then have "Spilled st0 X s st" using look sp by simp
      then show "Spilled st0 X s (spillUseEdge u i st)"
        using e u0 o0 by (rule Spilled_LoadEff)
    qed
  qed
qed

lemma TrackLive_addDefStep:
  assumes inv: "SpillInv st0 proc (n # todo) st" and nx: "n \<noteq> X"
    and t: "TrackLive st0 X U j st"
  shows "TrackLive st0 X U j (addDefStep orc n st)"
proof -
  have n0: "n < nextNode st0" using inv unfolding SpillInv_def RangeInv_def by auto
  have mk: "gtLIRMark (nodes st X)" and ed: "UseEdges (nodes st U) ! j = X"
    and sp: "\<And>s. TryGetValue X (liveGcDefs st) = Some (Some s) \<Longrightarrow> Spilled st0 X s st"
    using t unfolding TrackLive_def by blast+
  have look: "TryGetValue X (liveGcDefs (addDefStep orc n st)) = TryGetValue X (liveGcDefs st)"
    using nx by (intro addDefStep_lookup) simp
  show ?thesis
    unfolding TrackLive_def
  proof (intro conjI allI impI)
    show "gtLIRMark (nodes (addDefStep orc n st) X)"
      using mk nx by (simp add: addDefStep_def Let_def updNode_def)
    show "UseEdges (nodes (addDefStep orc n st) U) ! j = X"
      using ed by (auto simp add: addDefStep_def Let_def updNode_def)
  next
    fix s assume "TryGetValue X (liveGcDefs (addDefStep orc n st)) = Some (Some s)"
    then have "Spilled st0 X s st" using look sp by simp
    then show "Spilled st0 X s (addDefStep orc n st)"
      by (rule Spilled_frame)
         (insert n0, auto simp add: addDefStep_def Let_def updNode_def isFresh_def)
  qed
qed

subsection \<open>The stretch between a load and its user\<close>

lemma StretchI:
  assumes "blockRange st = r1 @ L # ls @ U # r2"
    and "\<forall>l\<in>set ls. isFresh st0 st l \<and> gtOper (nodes st l) = GT_LCL_VAR"
  shows "Stretch st0 L U st"
  unfolding Stretch_def using assms by blast

lemma Stretch_frame:
  assumes "Stretch st0 L U st"
    and "blockRange st' = blockRange st" "nextNode st' = nextNode st"
    and "\<And>f. isFresh st0 st f \<Longrightarrow> nodes st' f = nodes st f"
  shows "Stretch st0 L U st'"
proof -
  obtain r1 ls r2 where r: "blockRange st = r1 @ L # ls @ U # r2"
    and ls: "\<forall>l\<in>set ls. isFresh st0 st l \<and> gtOper (nodes st l) = GT_LCL_VAR"
    using assms(1) unfolding Stretch_def by blast
  have "\<forall>l\<in>set ls. isFresh st0 st' l \<and> gtOper (nodes st' l) = GT_LCL_VAR"
    using ls assms(3,4) by (simp add: isFresh_def)
  then show ?thesis using r assms(2) by (intro StretchI [where ls = ls]) simp_all
qed

lemma Stretch_SpillEff:
  assumes st: "Stretch st0 L U st" and e: "SpillEff d s st st'"
    and d: "d < nextNode st0" and l: "isFresh st0 st L"
  shows "Stretch st0 L U st'"
proof -
  obtain r1 ls r2 where r: "blockRange st = r1 @ L # ls @ U # r2"
    and ls: "\<forall>l\<in>set ls. isFresh st0 st l \<and> gtOper (nodes st l) = GT_LCL_VAR"
    using st unfolding Stretch_def by blast
  have nx: "nextNode st' = Suc (nextNode st)" using e by (simp add: SpillEff_def)
  have rng: "blockRange st' = insertAfter d [nextNode st] (blockRange st)"
    using e by (simp add: SpillEff_def)
  have same: "\<And>n. n \<noteq> nextNode st \<Longrightarrow> nodes st' n = nodes st n"
    using e by (simp add: SpillEff_def)
  have dl: "d \<noteq> L" "d \<notin> set ls" using d l ls by (auto simp add: isFresh_def)
  obtain r1' r2' where r': "blockRange st' = r1' @ L # ls @ U # r2'"
    unfolding rng r using insertAfter_keeps_stretch [OF dl] by blast
  have "\<forall>l\<in>set ls. isFresh st0 st' l \<and> gtOper (nodes st' l) = GT_LCL_VAR"
  proof
    fix x assume "x \<in> set ls"
    then have x: "isFresh st0 st x" "gtOper (nodes st x) = GT_LCL_VAR" using ls by blast+
    then have "x \<noteq> nextNode st" by (simp add: isFresh_def)
    then show "isFresh st0 st' x \<and> gtOper (nodes st' x) = GT_LCL_VAR"
      using x same nx by (simp add: isFresh_def)
  qed
  then show ?thesis using r' by (intro StretchI [where ls = ls]) simp_all
qed

lemma Stretch_LoadEff:
  assumes st: "Stretch st0 L U st" and e: "LoadEff user i operand s st st'"
    and u: "user < nextNode st0" and ob: "operand < nextNode st0"
    and le: "nextNode st0 \<le> nextNode st" and dist: "distinct (blockRange st)"
  shows "Stretch st0 L U st'"
proof -
  obtain r1 ls r2 where r: "blockRange st = r1 @ L # ls @ U # r2"
    and ls: "\<forall>l\<in>set ls. isFresh st0 st l \<and> gtOper (nodes st l) = GT_LCL_VAR"
    using st unfolding Stretch_def by blast
  have nx: "nextNode st' = Suc (nextNode st)" using e by (simp add: LoadEff_def)
  have rng: "blockRange st' = insertBefore user [nextNode st] (blockRange st)"
    using e by (simp add: LoadEff_def)
  have same: "\<And>n. n \<noteq> nextNode st \<Longrightarrow> n \<noteq> user \<Longrightarrow> n \<noteq> operand \<Longrightarrow> nodes st' n = nodes st n"
    using e by (simp add: LoadEff_def)
  have new: "gtOper (nodes st' (nextNode st)) = GT_LCL_VAR" using e by (simp add: LoadEff_def)
  have uls: "user \<notin> set ls" using u ls by (auto simp add: isFresh_def)
  have old: "\<forall>l\<in>set ls. isFresh st0 st' l \<and> gtOper (nodes st' l) = GT_LCL_VAR"
  proof
    fix x assume "x \<in> set ls"
    then have x: "isFresh st0 st x" "gtOper (nodes st x) = GT_LCL_VAR" using ls by blast+
    then have "x \<noteq> nextNode st" "x \<noteq> user" "x \<noteq> operand"
      using u ob by (auto simp add: isFresh_def)
    then show "isFresh st0 st' x \<and> gtOper (nodes st' x) = GT_LCL_VAR"
      using x same nx by (simp add: isFresh_def)
  qed
  show ?thesis
  proof (cases "user = U")
    case False
    obtain r1' r2' where "blockRange st' = r1' @ L # ls @ U # r2'"
      unfolding rng r using insertBefore_keeps_stretch [OF False uls] by blast
    then show ?thesis using old by (intro StretchI [where ls = ls]) simp_all
  next
    case True
    have "blockRange st' = r1 @ L # (ls @ [nextNode st]) @ U # r2"
      unfolding rng r True using dist [unfolded r] by (rule insertBefore_grows_stretch)
    moreover have "\<forall>l\<in>set (ls @ [nextNode st]). isFresh st0 st' l \<and> gtOper (nodes st' l) = GT_LCL_VAR"
      using old new le nx by (simp add: isFresh_def)
    ultimately show ?thesis by (rule StretchI)
  qed
qed

subsection \<open>A used definition stays replaced\<close>

lemma TrackUsed_containedOperands [simp]:
  "TrackUsed st0 X U j s L (st\<lparr>containedOperands := r\<rparr>) = TrackUsed st0 X U j s L st"
  by (simp add: TrackUsed_def Spilled_def Stretch_def isFresh_def)

lemma TrackUsed_lclHeapUsed [simp]:
  "TrackUsed st0 X U j s L (st\<lparr>lclHeapUsed := b\<rparr>) = TrackUsed st0 X U j s L st"
  by (simp add: TrackUsed_def Spilled_def Stretch_def isFresh_def)

lemma TrackUsedD:
  assumes "TrackUsed st0 X U j s L st"
  shows "Spilled st0 X s st" "TryGetValue X (liveGcDefs st) = None"
    "UseEdges (nodes st U) ! j = L" "isFresh st0 st L"
    "gtOper (nodes st L) = GT_LCL_VAR" "gtLclNum (nodes st L) = s" "Stretch st0 L U st"
  using assms unfolding TrackUsed_def by blast+

lemma TrackUsed_SpillKeyEff:
  assumes inv: "SpillInv st0 proc todo st" and su: "soleUse st0 X U j"
    and e: "SpillKeyEff k st st'" and t: "TrackUsed st0 X U j s L st"
  shows "TrackUsed st0 X U j s L st'"
proof -
  note tu = TrackUsedD [OF t]
  obtain s1 st1 t' where
    c: "TryGetValue k (liveGcDefs st) = Some (Some s1) \<and> st1 = st \<or>
        TryGetValue k (liveGcDefs st) = Some None \<and> SpillEff k s1 st st1"
    and st': "st' = st1\<lparr>liveGcDefs := t'\<rparr>"
    and look: "\<And>k'. TryGetValue k' t' = (if k' = k then Some (Some s1) else TryGetValue k' (liveGcDefs st))"
    using e unfolding SpillKeyEff_def by blast
  have ti: "TableInv st0 proc st" and ri: "RangeInv st0 proc todo st"
    using inv by (simp_all add: SpillInv_def)
  have le: "nextNode st0 \<le> nextNode st" using inv by (simp add: SpillInv_def NodesInv_def)
  have key: "TryGetValue k (liveGcDefs st) \<noteq> None" using c by auto
  then have kx: "k \<noteq> X" using tu(2) by auto
  have k0: "k < nextNode st0" using TableInv_keys_old(2) [OF ti ri key] .
  have same: "nodes st1 x = nodes st x" if "x < nextNode st" for x
    using c that by (auto simp add: SpillEff_def)
  have nx1: "nextNode st \<le> nextNode st1" using c by (auto simp add: SpillEff_def)
  have Ll: "L < nextNode st" using tu(4) by (simp add: isFresh_def)
  have Ul: "U < nextNode st" using soleUseD(3) [OF su] le by simp
  have str1: "Stretch st0 L U st1"
    using c tu(7) Stretch_SpillEff [OF tu(7) _ k0 tu(4)] by blast
  have "Stretch st0 L U st'" using str1 unfolding st' by (rule Stretch_frame) simp_all
  moreover have "Spilled st0 X s st'" using Spilled_SpillKeyEff [OF inv e tu(1) kx] .
  moreover have "TryGetValue X (liveGcDefs st') = None" using kx tu(2) by (simp add: st' look)
  moreover have "UseEdges (nodes st' U) ! j = L" using tu(3) same [OF Ul] by (simp add: st')
  moreover have "isFresh st0 st' L" using tu(4) nx1 by (simp add: st' isFresh_def)
  moreover have "gtOper (nodes st' L) = GT_LCL_VAR" "gtLclNum (nodes st' L) = s"
    using tu(5,6) same [OF Ll] by (simp_all add: st')
  ultimately show ?thesis unfolding TrackUsed_def by blast
qed

lemma TrackUsed_spillUseEdge:
  assumes inv: "SpillInv st0 proc (n # todo) st" and su: "soleUse st0 X U j"
    and user: "u = n \<or> u \<in> set proc" and i: "i < length (UseEdges (nodes st0 u))"
    and ne: "\<not> (u = U \<and> i = j)" and t: "TrackUsed st0 X U j s L st"
  shows "TrackUsed st0 X U j s L (spillUseEdge u i st)"
proof -
  note tu = TrackUsedD [OF t]
  define operand where "operand = UseEdges (nodes st u) ! i"
  have d: "distinct (map m_key (liveGcDefs st))" using inv by (simp add: SpillInv_def TableInv_def)
  have u0: "u < nextNode st0" using SpillInv_user_length(1) [OF inv user] .
  have le: "nextNode st0 \<le> nextNode st" using inv by (simp add: SpillInv_def NodesInv_def)
  have Lf: "nextNode st0 \<le> L" "L < nextNode st" using tu(4) by (simp_all add: isFresh_def)
  from inv user i show ?thesis
  proof (cases rule: spillUseEdge_cases)
    case contained
    then show ?thesis using t by simp
  next
    case unmarked
    then show ?thesis using t by simp
  next
    case unspilled
    have o0: "operand < nextNode st0" using unspilled(4) by (simp add: operand_def)
    define st' where "st' = updNode operand (\<lambda>n. n\<lparr>gtLIRMark := False\<rparr>)
              (st\<lparr>liveGcDefs := fst (TryRemove operand (liveGcDefs st))\<rparr>)"
    have fr: "\<And>f. isFresh st0 st f \<Longrightarrow> nodes st' f = nodes st f"
      using o0 by (auto simp add: st'_def updNode_def isFresh_def)
    have same: "blockRange st' = blockRange st" "nextNode st' = nextNode st"
      "lvaCount st' = lvaCount st" "lvaTable st' = lvaTable st"
      by (simp_all add: st'_def updNode_def)
    have "Spilled st0 X s st'"
      using tu(1) same fr by (rule Spilled_frame)
    moreover have "Stretch st0 L U st'"
      using tu(7) same(1,2) fr by (rule Stretch_frame)
    moreover have "TryGetValue X (liveGcDefs st') = None"
      using tu(2) by (simp add: st'_def updNode_def TryGetValue_TryRemove [OF d])
    moreover have "UseEdges (nodes st' U) ! j = L" using tu(3) by (auto simp add: st'_def updNode_def)
    moreover have "isFresh st0 st' L" using tu(4) by (simp add: st'_def updNode_def isFresh_def)
    moreover have "gtOper (nodes st' L) = GT_LCL_VAR" "gtLclNum (nodes st' L) = s"
      using tu(5,6) fr [OF tu(4)] by simp_all
    ultimately have "TrackUsed st0 X U j s L st'" unfolding TrackUsed_def by blast
    then show ?thesis unfolding unspilled(3) operand_def [symmetric] st'_def .
  next
    case (spilled s')
    note e = spilled(3) [folded operand_def]
    define st' where "st' = spillUseEdge u i st"
    note e' = e [folded st'_def]
    have o0: "operand < nextNode st0" using spilled(4) by (simp add: operand_def)
    have Un: "U \<noteq> nextNode st" using soleUseD(3) [OF su] le by auto
    have Ln: "L \<noteq> nextNode st" "L \<noteq> u" "L \<noteq> operand" using Lf u0 o0 by auto
    have sameL: "nodes st' L = nodes st L" using e' Ln by (simp add: LoadEff_def)
    have dist: "distinct (blockRange st)" using inv by (simp add: SpillInv_def RangeInv_def)
    have "Spilled st0 X s st'" using tu(1) e' u0 o0 by (rule Spilled_LoadEff)
    moreover have "Stretch st0 L U st'" using tu(7) e' u0 o0 le dist by (rule Stretch_LoadEff)
    moreover have "TryGetValue X (liveGcDefs st') = None"
      using e' tu(2) by (simp add: LoadEff_def TryGetValue_TryRemove [OF d])
    moreover have "UseEdges (nodes st' U) ! j = L"
    proof (cases "U = u")
      case True
      then have "i \<noteq> j" using ne by blast
      then show ?thesis using e' True tu(3) by (simp add: LoadEff_def)
    next
      case False
      have "UseEdges (nodes st' U) = UseEdges (nodes st U)"
      proof (cases "U = operand")
        case True
        then show ?thesis using e' False by (simp add: LoadEff_def)
      next
        case no: False
        then have "nodes st' U = nodes st U" using e' False Un by (simp add: LoadEff_def)
        then show ?thesis by simp
      qed
      then show ?thesis using tu(3) by simp
    qed
    moreover have "isFresh st0 st' L" using tu(4) e' by (simp add: LoadEff_def isFresh_def)
    moreover have "gtOper (nodes st' L) = GT_LCL_VAR" "gtLclNum (nodes st' L) = s"
      using tu(5,6) sameL by simp_all
    ultimately show ?thesis unfolding TrackUsed_def st'_def by blast
  qed
qed

lemma TrackUsed_addDefStep:
  assumes inv: "SpillInv st0 proc (n # todo) st" and nx: "n \<noteq> X"
    and t: "TrackUsed st0 X U j s L st"
  shows "TrackUsed st0 X U j s L (addDefStep orc n st)"
proof -
  note tu = TrackUsedD [OF t]
  have n0: "n < nextNode st0" using inv unfolding SpillInv_def RangeInv_def by auto
  have fr: "\<And>f. isFresh st0 st f \<Longrightarrow> nodes (addDefStep orc n st) f = nodes st f"
    using n0 by (auto simp add: addDefStep_def Let_def updNode_def isFresh_def)
  have same: "blockRange (addDefStep orc n st) = blockRange st"
    "nextNode (addDefStep orc n st) = nextNode st"
    "lvaCount (addDefStep orc n st) = lvaCount st" "lvaTable (addDefStep orc n st) = lvaTable st"
    by (simp_all add: addDefStep_def Let_def updNode_def)
  have "Spilled st0 X s (addDefStep orc n st)"
    using tu(1) same fr by (rule Spilled_frame)
  moreover have "Stretch st0 L U (addDefStep orc n st)"
    using tu(7) same(1,2) fr by (rule Stretch_frame)
  moreover have "TryGetValue X (liveGcDefs (addDefStep orc n st)) = None"
    using tu(2) nx addDefStep_lookup [of X n orc st] by simp
  moreover have "UseEdges (nodes (addDefStep orc n st) U) ! j = L"
    using tu(3) by (auto simp add: addDefStep_def Let_def updNode_def)
  moreover have "isFresh st0 (addDefStep orc n st) L"
    using tu(4) by (simp add: addDefStep_frame isFresh_def)
  moreover have "gtOper (nodes (addDefStep orc n st) L) = GT_LCL_VAR"
    "gtLclNum (nodes (addDefStep orc n st) L) = s"
    using tu(5,6) fr [OF tu(4)] by simp_all
  ultimately show ?thesis unfolding TrackUsed_def by blast
qed

subsection \<open>What each node of the block keeps\<close>

lemma edges_kept_SpillKeyEff:
  assumes inv: "SpillInv st0 proc todo st" and e: "SpillKeyEff k st st'" and x: "x < nextNode st0"
  shows "nodes st' x = nodes st x"
proof -
  obtain s1 st1 t' where
    c: "TryGetValue k (liveGcDefs st) = Some (Some s1) \<and> st1 = st \<or>
        TryGetValue k (liveGcDefs st) = Some None \<and> SpillEff k s1 st st1"
    and st': "st' = st1\<lparr>liveGcDefs := t'\<rparr>"
    using e unfolding SpillKeyEff_def by blast
  have le: "nextNode st0 \<le> nextNode st" using inv by (simp add: SpillInv_def NodesInv_def)
  have "nodes st1 x = nodes st x" using c x le by (auto simp add: SpillEff_def)
  then show ?thesis by (simp add: st')
qed

lemma edges_kept_spillUseEdge:
  assumes inv: "SpillInv st0 proc (n # todo) st"
    and user: "u = n \<or> u \<in> set proc" and i: "i < length (UseEdges (nodes st0 u))"
    and ne: "u \<noteq> U" and U: "U < nextNode st0"
  shows "UseEdges (nodes (spillUseEdge u i st) U) = UseEdges (nodes st U)"
  using inv user i
proof (cases rule: spillUseEdge_cases)
  case contained
  then show ?thesis by simp
next
  case unmarked
  then show ?thesis by simp
next
  case unspilled
  show ?thesis unfolding unspilled(3) by (auto simp add: updNode_def)
next
  case (spilled s')
  have le: "nextNode st0 \<le> nextNode st" using inv by (simp add: SpillInv_def NodesInv_def)
  then have Un: "U \<noteq> nextNode st" using U by auto
  show ?thesis
  proof (cases "U = UseEdges (nodes st u) ! i")
    case True
    then show ?thesis using spilled(3) ne by (simp add: LoadEff_def)
  next
    case False
    then have "nodes (spillUseEdge u i st) U = nodes st U"
      using spilled(3) ne Un by (simp add: LoadEff_def)
    then show ?thesis by simp
  qed
qed

lemma lookup_kept_spillUseEdge:
  assumes inv: "SpillInv st0 proc (n # todo) st" and su: "soleUse st0 X U j"
    and user: "u = n \<or> u \<in> set proc" and i: "i < length (UseEdges (nodes st0 u))"
    and ne: "\<not> (u = U \<and> i = j)"
  shows "TryGetValue X (liveGcDefs (spillUseEdge u i st)) = TryGetValue X (liveGcDefs st)"
proof -
  have ox: "UseEdges (nodes st u) ! i \<noteq> X" by (rule edge_not_X [OF inv su user i ne])
  have d: "distinct (map m_key (liveGcDefs st))" using inv by (simp add: SpillInv_def TableInv_def)
  from inv user i show ?thesis
  proof (cases rule: spillUseEdge_cases)
    case contained
    then show ?thesis by simp
  next
    case unmarked
    then show ?thesis by simp
  next
    case unspilled
    show ?thesis unfolding unspilled(3) using ox by (simp add: updNode_def TryGetValue_TryRemove [OF d])
  next
    case (spilled s')
    then show ?thesis using ox by (simp add: LoadEff_def TryGetValue_TryRemove [OF d])
  qed
qed

lemma user_not_U:
  assumes su: "soleUse st0 X U j" and n: "n \<noteq> U"
    and u: "u = n \<or> u \<in> set proc \<and> gtContained (nodes st0 u)"
  shows "u \<noteq> U" "u = n \<or> u \<in> set proc"
  using soleUseD(4) [OF su] n u by auto

text \<open>Before the definition is walked: the operand edge of the user still points to it.\<close>
lemma keptByNode_before:
  assumes su: "soleUse st0 X U j" and n: "n \<noteq> U"
  shows "keptByNode orc st0 proc n todo (\<lambda>s. UseEdges (nodes s U) ! j = X)
           (\<lambda>s. UseEdges (nodes s U) ! j = X)"
  unfolding keptByNode_def
proof (intro conjI allI impI)
  fix k s s'
  assume a: "SpillInv st0 proc (n # todo) s" "SpillKeyEff k s s'" "UseEdges (nodes s U) ! j = X"
  show "UseEdges (nodes s' U) ! j = X"
    using edges_kept_SpillKeyEff [OF a(1,2) soleUseD(3) [OF su]] a(3) by simp
next
  fix u i s
  assume a: "u = n \<or> u \<in> set proc \<and> gtContained (nodes st0 u)" "i < length (UseEdges (nodes st0 u))"
    "SpillInv st0 proc (n # todo) s" "UseEdges (nodes s U) ! j = X"
  note un = user_not_U [OF su n a(1)]
  show "UseEdges (nodes (spillUseEdge u i s) U) ! j = X"
    using edges_kept_spillUseEdge [OF a(3) un(2) a(2) un(1) soleUseD(3) [OF su]] a(4) by simp
next
  fix s :: SpillState assume "UseEdges (nodes s U) ! j = X"
  then show "UseEdges (nodes (addDefStep orc n s) U) ! j = X"
    by (auto simp add: addDefStep_def Let_def updNode_def)
qed simp_all

lemma isGcTemp_shape:
  assumes "shapeOf a = shapeOf b" "gtType b = TYP_REF"
  shows "isGcTemp orc st a = isGcTemp orc st' b"
  using shape_eqD(1) [OF assms(1)] shape_eqD(2) [OF assms(1)] shape_eqD(5) [OF assms(1)] assms(2)
  by (simp add: isGcTemp_def varTypeIsGC_def)

text \<open>At the definition: it is marked and entered in the table with no slot.\<close>
lemma keptByNode_definition:
  assumes su: "soleUse st0 X U j" and xu: "X \<noteq> U"
    and gc: "IsValue orc (nodes st0 X)" "\<not> gtLIRUnusedValue (nodes st0 X)"
      "isGcTemp orc st0 (nodes st0 X)"
  shows "keptByNode orc st0 proc X todo (\<lambda>s. UseEdges (nodes s U) ! j = X) (TrackLive st0 X U j)"
proof -
  note kd = keptByNodeD [OF keptByNode_before [OF su xu, of orc proc todo]]
  have def: "TrackLive st0 X U j (addDefStep orc X s)"
    if inv: "SpillInv st0 proc (X # todo) s" and ed: "UseEdges (nodes s U) ! j = X" for s
  proof -
    have sh: "shapeOf (nodes s X) = shapeOf (nodes st0 X)"
      by (rule old_node_shape [OF inv soleUseD(1) [OF su]])
    have 1: "IsValue orc (nodes s X)"
      using gc(1) shape_eqD(1) [OF sh] shape_eqD(2) [OF sh] by (simp add: IsValue_def)
    have 2: "\<not> gtLIRUnusedValue (nodes s X)" using gc(2) shape_eqD(4) [OF sh] by simp
    have 3: "isGcTemp orc s (nodes s X)"
      using gc(3) isGcTemp_shape [OF sh soleUseD(2) [OF su], of orc s st0] by simp
    have eq: "addDefStep orc X s =
        (updNode X (\<lambda>n. n\<lparr>gtLIRMark := True\<rparr>) s)\<lparr>liveGcDefs :=
           AddOrUpdate orc (DeterministicNodeHashInfo_GetHashCode orc ((nodes s X)\<lparr>gtLIRMark := True\<rparr>))
             X None (liveGcDefs s)\<rparr>"
      using 1 2 3 by (simp add: addDefStep_def Let_def updNode_def)
    show ?thesis
      unfolding eq TrackLive_def
      using ed by (auto simp add: updNode_def TryGetValue_AddOrUpdate)
  qed
  show ?thesis
    unfolding keptByNode_def
  proof (intro conjI allI impI)
    fix s assume "SpillInv st0 proc (X # todo) s" "UseEdges (nodes s U) ! j = X"
    then show "TrackLive st0 X U j (addDefStep orc X s)" by (rule def)
  next
    fix s :: SpillState assume "gtContained (nodes st0 X)"
    then show "TrackLive st0 X U j s" using soleUseD(8) [OF su] by simp
  next
    fix s :: SpillState and b assume "UseEdges (nodes s U) ! j = X"
    then show "UseEdges (nodes (s\<lparr>lclHeapUsed := b\<rparr>) U) ! j = X" by simp
  next
    fix s :: SpillState and r assume "UseEdges (nodes s U) ! j = X"
    then show "UseEdges (nodes (s\<lparr>containedOperands := r\<rparr>) U) ! j = X" by simp
  next
    fix k s s'
    assume "SpillInv st0 proc (X # todo) s" "SpillKeyEff k s s'" "UseEdges (nodes s U) ! j = X"
    then show "UseEdges (nodes s' U) ! j = X" by (rule kd(3))
  next
    fix u i s
    assume "u = X \<or> u \<in> set proc \<and> gtContained (nodes st0 u)" "i < length (UseEdges (nodes st0 u))"
      "SpillInv st0 proc (X # todo) s" "UseEdges (nodes s U) ! j = X"
    then show "UseEdges (nodes (spillUseEdge u i s) U) ! j = X" by (rule kd(4))
  qed
qed

text \<open>Between the definition and its user: the definition stays live, and keeps its slot.\<close>
lemma keptByNode_live:
  assumes su: "soleUse st0 X U j" and n: "n \<noteq> U" "n \<noteq> X"
  shows "keptByNode orc st0 proc n todo (TrackLive st0 X U j) (TrackLive st0 X U j)"
  unfolding keptByNode_def
proof (intro conjI allI impI)
  fix k s s' assume a: "SpillInv st0 proc (n # todo) s" "SpillKeyEff k s s'" "TrackLive st0 X U j s"
  show "TrackLive st0 X U j s'" by (rule TrackLive_SpillKeyEff [OF a(1) su a(2,3)])
next
  fix u i s
  assume a: "u = n \<or> u \<in> set proc \<and> gtContained (nodes st0 u)" "i < length (UseEdges (nodes st0 u))"
    "SpillInv st0 proc (n # todo) s" "TrackLive st0 X U j s"
  note un = user_not_U [OF su n(1) a(1)]
  show "TrackLive st0 X U j (spillUseEdge u i s)"
    using un(1) by (intro TrackLive_spillUseEdge [OF a(3) su un(2) a(2) _ a(4)]) simp
next
  fix s assume a: "SpillInv st0 proc (n # todo) s" "TrackLive st0 X U j s"
  show "TrackLive st0 X U j (addDefStep orc n s)" by (rule TrackLive_addDefStep [OF a(1) n(2) a(2)])
qed simp_all

lemma keptByNode_slot:
  assumes su: "soleUse st0 X U j" and n: "n \<noteq> U" "n \<noteq> X"
  shows "keptByNode orc st0 proc n todo
           (\<lambda>st. TrackLive st0 X U j st \<and> TryGetValue X (liveGcDefs st) = Some (Some s))
           (\<lambda>st. TrackLive st0 X U j st \<and> TryGetValue X (liveGcDefs st) = Some (Some s))"
proof -
  note kl = keptByNodeD [OF keptByNode_live [OF su n, of orc proc todo]]
  show ?thesis
    unfolding keptByNode_def
  proof (intro conjI allI impI)
    fix k st st'
    assume a: "SpillInv st0 proc (n # todo) st" "SpillKeyEff k st st'"
      "TrackLive st0 X U j st \<and> TryGetValue X (liveGcDefs st) = Some (Some s)"
    show "TrackLive st0 X U j st'" using kl(3) [OF a(1,2)] a(3) by simp
    show "TryGetValue X (liveGcDefs st') = Some (Some s)"
      using SpillKeyEff_keeps_slot [OF a(2)] a(3) by simp
  next
    fix u i st
    assume a: "u = n \<or> u \<in> set proc \<and> gtContained (nodes st0 u)" "i < length (UseEdges (nodes st0 u))"
      "SpillInv st0 proc (n # todo) st"
      "TrackLive st0 X U j st \<and> TryGetValue X (liveGcDefs st) = Some (Some s)"
    note un = user_not_U [OF su n(1) a(1)]
    show "TrackLive st0 X U j (spillUseEdge u i st)" using kl(4) [OF a(1,2,3)] a(4) by simp
    show "TryGetValue X (liveGcDefs (spillUseEdge u i st)) = Some (Some s)"
      using lookup_kept_spillUseEdge [OF a(3) su un(2) a(2)] un(1) a(4) by simp
  next
    fix st
    assume a: "SpillInv st0 proc (n # todo) st" "\<not> gtContained (nodes st0 n)"
      "TrackLive st0 X U j st \<and> TryGetValue X (liveGcDefs st) = Some (Some s)"
    show "TrackLive st0 X U j (addDefStep orc n st)" using kl(5) [OF a(1,2)] a(3) by simp
    show "TryGetValue X (liveGcDefs (addDefStep orc n st)) = Some (Some s)"
      using addDefStep_lookup [of X n orc st] n(2) a(3) by simp
  qed simp_all
qed

text \<open>After the user: the store, the load and the operand edge stay as they are.\<close>
lemma keptByNode_used:
  assumes su: "soleUse st0 X U j" and n: "n \<noteq> U" "n \<noteq> X"
  shows "keptByNode orc st0 proc n todo (TrackUsed st0 X U j s L) (TrackUsed st0 X U j s L)"
  unfolding keptByNode_def
proof (intro conjI allI impI)
  fix k st st'
  assume a: "SpillInv st0 proc (n # todo) st" "SpillKeyEff k st st'" "TrackUsed st0 X U j s L st"
  show "TrackUsed st0 X U j s L st'" by (rule TrackUsed_SpillKeyEff [OF a(1) su a(2,3)])
next
  fix u i st
  assume a: "u = n \<or> u \<in> set proc \<and> gtContained (nodes st0 u)" "i < length (UseEdges (nodes st0 u))"
    "SpillInv st0 proc (n # todo) st" "TrackUsed st0 X U j s L st"
  note un = user_not_U [OF su n(1) a(1)]
  show "TrackUsed st0 X U j s L (spillUseEdge u i st)"
    using un(1) by (intro TrackUsed_spillUseEdge [OF a(3) su un(2) a(2) _ a(4)]) simp
next
  fix st assume a: "SpillInv st0 proc (n # todo) st" "TrackUsed st0 X U j s L st"
  show "TrackUsed st0 X U j s L (addDefStep orc n st)"
    by (rule TrackUsed_addDefStep [OF a(1) n(2) a(2)])
qed simp_all

subsection \<open>The use of the spilled definition\<close>

lemma use_transition:
  assumes inv: "SpillInv st0 proc (U # todo) st" and su: "soleUse st0 X U j"
    and t: "TrackLive st0 X U j st" and slot: "TryGetValue X (liveGcDefs st) = Some (Some s)"
  shows "TrackUsed st0 X U j s (nextNode st) (spillUseEdge U j st)"
    and "spillLclsRef (spillUseEdge U j st) = s # spillLclsRef st"
    and "nextNode st \<notin> set (blockRange st)"
    and "\<exists>q1 q2. blockRange (spillUseEdge U j st) = q1 @ nextNode st # U # q2"
proof -
  define st' where "st' = spillUseEdge U j st"
  have mk: "gtLIRMark (nodes st X)" and ed: "UseEdges (nodes st U) ! j = X"
    and sp: "Spilled st0 X s st"
    using t slot unfolding TrackLive_def by blast+
  have le: "nextNode st0 \<le> nextNode st" using inv by (simp add: SpillInv_def NodesInv_def)
  have ri: "RangeInv st0 proc (U # todo) st" using inv by (simp add: SpillInv_def)
  have d: "distinct (map m_key (liveGcDefs st))" using inv by (simp add: SpillInv_def TableInv_def)
  have X0: "X < nextNode st0" and U0: "U < nextNode st0" using soleUseD(1,3) [OF su] by simp_all
  have shX: "shapeOf (nodes st X) = shapeOf (nodes st0 X)" by (rule old_node_shape [OF inv X0])
  have nc: "\<not> gtContained (nodes st X)" using shape_eqD(3) [OF shX] soleUseD(8) [OF su] by simp
  have shU: "shapeOf (nodes st U) = shapeOf (nodes st0 U)" by (rule old_node_shape [OF inv U0])
  have len: "j < length (UseEdges (nodes st U))" using shape_eqD(11) [OF shU] soleUseD(5) [OF su] by simp
  have e: "LoadEff U j X s st st'"
    using spillUseEdge_spilled [of st U j s] nc mk slot U0 X0 le len
    unfolding ed st'_def by simp
  have L: "isFresh st0 st' (nextNode st)" using e le by (simp add: LoadEff_def isFresh_def)
  have ty: "lvType (lvaTable st s) = TYP_REF" using sp by (simp add: Spilled_def)
  have Ur: "U \<in> set (blockRange st)" using ri unfolding RangeInv_def by auto
  have rng: "blockRange st' = insertBefore U [nextNode st] (blockRange st)"
    using e by (simp add: LoadEff_def)
  obtain q1 q2 where q: "blockRange st' = q1 @ nextNode st # U # q2"
    unfolding rng using insertBefore_mem [OF Ur] by blast
  have "Spilled st0 X s st'" using sp e U0 X0 by (rule Spilled_LoadEff)
  moreover have "TryGetValue X (liveGcDefs st') = None"
    using e by (simp add: LoadEff_def TryGetValue_TryRemove [OF d])
  moreover have "UseEdges (nodes st' U) ! j = nextNode st" using e len by (simp add: LoadEff_def)
  moreover have "gtOper (nodes st' (nextNode st)) = GT_LCL_VAR" "gtLclNum (nodes st' (nextNode st)) = s"
    using e by (simp_all add: LoadEff_def)
  moreover have "Stretch st0 (nextNode st) U st'"
    using q by (intro StretchI [where ls = "[]" and ?r1.0 = q1 and ?r2.0 = q2]) simp_all
  ultimately show "TrackUsed st0 X U j s (nextNode st) (spillUseEdge U j st)"
    using L unfolding TrackUsed_def st'_def by blast
  show "spillLclsRef (spillUseEdge U j st) = s # spillLclsRef st"
    using e ty unfolding st'_def by (simp add: LoadEff_def)
  show "nextNode st \<notin> set (blockRange st)" using RangeInv_bound [OF ri le] by auto
  show "\<exists>q1 q2. blockRange (spillUseEdge U j st) = q1 @ nextNode st # U # q2"
    using q unfolding st'_def by blast
qed

lemma upt_split_at: "j < k \<Longrightarrow> [0..<k] = [0..<j] @ j # [Suc j..<k]"
  using upt_add_eq_append [of 0 j "k - j"] by (simp add: upt_conv_Cons)

lemma spillNode_use:
  assumes wf: "spillWellFormed st0" and r0: "blockRange st0 = proc @ U # todo"
    and inv: "SpillInv st0 proc (U # todo) st" and stack: "containedOperands st = []"
    and su: "soleUse st0 X U j" and xu: "X \<noteq> U"
    and t: "TrackLive st0 X U j st" and slot: "TryGetValue X (liveGcDefs st) = Some (Some s)"
  shows "\<exists>st2 st'. spillRetBuffer orc U (heapStep U st) = Inr st2 \<and>
           nextNode (fold (spillUseEdge U) [0..<j] st2) \<notin>
             set (blockRange (fold (spillUseEdge U) [0..<j] st2)) \<and>
           (\<exists>q1 q2. blockRange (spillUseEdge U j (fold (spillUseEdge U) [0..<j] st2)) =
                      q1 @ nextNode (fold (spillUseEdge U) [0..<j] st2) # U # q2) \<and>
           spillLclsRef (spillUseEdge U j (fold (spillUseEdge U) [0..<j] st2)) =
             s # spillLclsRef (fold (spillUseEdge U) [0..<j] st2) \<and>
           spillNode orc U st = Inr st' \<and> SpillInv st0 (proc @ [U]) todo st' \<and>
           containedOperands st' = [] \<and>
           TrackUsed st0 X U j s (nextNode (fold (spillUseEdge U) [0..<j] st2)) st'"
proof -
  define TS where "TS = (\<lambda>st. TrackLive st0 X U j st \<and> TryGetValue X (liveGcDefs st) = Some (Some s))"
  have uu: "U = U \<or> U \<in> set proc" by simp
  have U0: "U < nextNode st0" using soleUseD(3) [OF su] .
  have jk: "j < length (UseEdges (nodes st0 U))" using soleUseD(5) [OF su] .
  have ncU: "\<not> gtContained (nodes st U)"
    using shape_eqD(3) [OF old_node_shape [OF inv U0]] soleUseD(4) [OF su] by simp
  have invh: "SpillInv st0 proc (U # todo) (heapStep U st)" using inv by simp
  have TSh: "TS (heapStep U st)" using t slot by (simp add: TS_def heapStep_def)
  have stackh: "containedOperands (heapStep U st) = []" using stack by (simp add: heapStep_def)
  obtain st2 where st2: "spillRetBuffer orc U (heapStep U st) = Inr st2"
    and e2: "st2 = heapStep U st \<or> (\<exists>k. SpillKeyEff k (heapStep U st) st2)"
    using spillRetBuffer_effect [OF invh, of orc U] by blast
  have inv2: "SpillInv st0 proc (U # todo) st2"
    using e2 invh SpillKeyEff_SpillInv [OF invh] by blast
  have TS2: "TS st2"
  proof (cases "st2 = heapStep U st")
    case True
    then show ?thesis using TSh by simp
  next
    case False
    then obtain k where k: "SpillKeyEff k (heapStep U st) st2" using e2 by blast
    show ?thesis
      unfolding TS_def
      using TrackLive_SpillKeyEff [OF invh su k] SpillKeyEff_keeps_slot [OF k] TSh [unfolded TS_def]
      by blast
  qed
  have stack2: "containedOperands st2 = []"
    using e2 stackh SpillKeyEff_frame by metis
  define stA where "stA = fold (spillUseEdge U) [0..<j] st2"
  define stB where "stB = spillUseEdge U j stA"
  define stC where "stC = fold (spillUseEdge U) [Suc j..<length (UseEdges (nodes st0 U))] stB"
  define L where "L = nextNode stA"
  have fA: "SpillInv st0 proc (U # todo) stA \<and> TS stA \<and>
         (\<exists>cs. containedOperands stA = cs @ containedOperands st2 \<and>
            (\<forall>c\<in>set cs. c \<in> set (UseEdges (nodes st0 U)) \<and> gtContained (nodes st0 c)))"
    unfolding stA_def
  proof (rule fold_spillUseEdge [where T = TS, OF uu _ inv2 TS2])
    show "\<forall>i\<in>set [0..<j]. i < length (UseEdges (nodes st0 U))" using jk by simp
  next
    fix i s'
    assume a: "i \<in> set [0..<j]" "SpillInv st0 proc (U # todo) s'" "TS s'"
    have i: "i < length (UseEdges (nodes st0 U))" "\<not> (U = U \<and> i = j)" using a(1) jk by simp_all
    show "TS (spillUseEdge U i s')"
      unfolding TS_def
      using TrackLive_spillUseEdge [OF a(2) su uu i] lookup_kept_spillUseEdge [OF a(2) su uu i]
        a(3) [unfolded TS_def]
      by simp
  qed
  then have invA: "SpillInv st0 proc (U # todo) stA" and TSA: "TS stA" by blast+
  obtain csA where csA: "containedOperands stA = csA"
    "\<forall>c\<in>set csA. c \<in> set (UseEdges (nodes st0 U)) \<and> gtContained (nodes st0 c)"
    using fA stack2 by auto
  note tr = use_transition [OF invA su, of s] 
  have TA: "TrackLive st0 X U j stA" "TryGetValue X (liveGcDefs stA) = Some (Some s)"
    using TSA by (simp_all add: TS_def)
  have TB: "TrackUsed st0 X U j s L stB" unfolding L_def stB_def by (rule tr(1) [OF TA])
  have invB: "SpillInv st0 proc (U # todo) stB"
    unfolding stB_def by (rule spillUseEdge_SpillInv [OF invA uu jk])
  obtain csB where csB: "containedOperands stB = csB @ containedOperands stA"
    "\<forall>c\<in>set csB. c \<in> set (UseEdges (nodes st0 U)) \<and> gtContained (nodes st0 c)"
    using spillUseEdge_stack [OF invA uu jk] unfolding stB_def by blast
  have fC: "SpillInv st0 proc (U # todo) stC \<and> TrackUsed st0 X U j s L stC \<and>
         (\<exists>cs. containedOperands stC = cs @ containedOperands stB \<and>
            (\<forall>c\<in>set cs. c \<in> set (UseEdges (nodes st0 U)) \<and> gtContained (nodes st0 c)))"
    unfolding stC_def
  proof (rule fold_spillUseEdge [where T = "TrackUsed st0 X U j s L", OF uu _ invB TB])
    show "\<forall>i\<in>set [Suc j..<length (UseEdges (nodes st0 U))]. i < length (UseEdges (nodes st0 U))"
      by simp
  next
    fix i s'
    assume a: "i \<in> set [Suc j..<length (UseEdges (nodes st0 U))]" "SpillInv st0 proc (U # todo) s'"
      "TrackUsed st0 X U j s L s'"
    have i: "i < length (UseEdges (nodes st0 U))" "\<not> (U = U \<and> i = j)" using a(1) by simp_all
    show "TrackUsed st0 X U j s L (spillUseEdge U i s')"
      by (rule TrackUsed_spillUseEdge [OF a(2) su uu i a(3)])
  qed
  then have invC: "SpillInv st0 proc (U # todo) stC" and TC: "TrackUsed st0 X U j s L stC" by blast+
  obtain csC where csC: "containedOperands stC = csC @ containedOperands stB"
    "\<forall>c\<in>set csC. c \<in> set (UseEdges (nodes st0 U)) \<and> gtContained (nodes st0 c)"
    using fC by blast
  have stackC: "\<forall>c\<in>set (containedOperands stC). c \<in> set proc \<and> gtContained (nodes st0 c)"
    unfolding csC(1) csB(1) csA(1)
    using contained_operand_place(1) [OF wf r0 uu] csA(2) csB(2) csC(2) by auto
  have edges: "spillUseEdges U st2 = stC"
    unfolding spillUseEdges_fold [OF inv2 uu] stC_def stB_def stA_def
    using upt_split_at [OF jk] by simp
  have "\<exists>st'. drainContained stC = Some st' \<and> SpillInv st0 proc (U # todo) st' \<and>
          TrackUsed st0 X U j s L st' \<and> containedOperands st' = []"
  proof (rule drainContained_total [where T = "TrackUsed st0 X U j s L", OF wf r0 _ _ invC TC stackC])
    show "\<And>s' r. TrackUsed st0 X U j s L s' \<Longrightarrow> TrackUsed st0 X U j s L (s'\<lparr>containedOperands := r\<rparr>)"
      by simp
  next
    fix u i s'
    assume a: "u \<in> set proc" "gtContained (nodes st0 u)" "i < length (UseEdges (nodes st0 u))"
      "SpillInv st0 proc (U # todo) s'" "TrackUsed st0 X U j s L s'"
    have un: "u = U \<or> u \<in> set proc" "\<not> (u = U \<and> i = j)"
      using a(1,2) soleUseD(4) [OF su] by auto
    show "TrackUsed st0 X U j s L (spillUseEdge u i s')"
      by (rule TrackUsed_spillUseEdge [OF a(4) su un(1) a(3) un(2) a(5)])
  qed
  then obtain st3 where st3: "spillUsers U st2 = Some st3" and inv3: "SpillInv st0 proc (U # todo) st3"
    and T3: "TrackUsed st0 X U j s L st3" and stack3: "containedOperands st3 = []"
    unfolding spillUsers_drain edges by blast
  have "\<exists>st4. safepointStep orc U st3 = Inr st4 \<and> SpillInv st0 proc (U # todo) st4 \<and>
             TrackUsed st0 X U j s L st4 \<and> containedOperands st4 = containedOperands st3 \<and>
             (isPotentialGcSafePoint orc (nodes st3 U) \<longrightarrow>
                (\<forall>k. TryGetValue k (liveGcDefs st4) \<noteq> Some None))"
  proof (rule safepointStep_total [where T = "TrackUsed st0 X U j s L", OF _ inv3 T3])
    fix k s' s''
    assume a: "SpillInv st0 proc (U # todo) s'" "SpillKeyEff k s' s''" "TrackUsed st0 X U j s L s'"
    show "TrackUsed st0 X U j s L s''" by (rule TrackUsed_SpillKeyEff [OF a(1) su a(2,3)])
  qed
  then obtain st4 where st4: "safepointStep orc U st3 = Inr st4"
    and inv4: "SpillInv st0 proc (U # todo) st4" and T4: "TrackUsed st0 X U j s L st4"
    and stack4: "containedOperands st4 = []"
    using stack3 by auto
  have eq: "spillNode orc U st = Inr (addDefStep orc U st4)"
    using ncU st2 st3 st4 by (intro spillNode_steps) simp_all
  have T5: "TrackUsed st0 X U j s L (addDefStep orc U st4)"
    using xu by (intro TrackUsed_addDefStep [OF inv4 _ T4]) simp
  have final: "spillRetBuffer orc U (heapStep U st) = Inr st2 \<and>
           nextNode (fold (spillUseEdge U) [0..<j] st2) \<notin>
             set (blockRange (fold (spillUseEdge U) [0..<j] st2)) \<and>
           (\<exists>q1 q2. blockRange (spillUseEdge U j (fold (spillUseEdge U) [0..<j] st2)) =
                      q1 @ nextNode (fold (spillUseEdge U) [0..<j] st2) # U # q2) \<and>
           spillLclsRef (spillUseEdge U j (fold (spillUseEdge U) [0..<j] st2)) =
             s # spillLclsRef (fold (spillUseEdge U) [0..<j] st2) \<and>
           spillNode orc U st = Inr (addDefStep orc U st4) \<and>
           SpillInv st0 (proc @ [U]) todo (addDefStep orc U st4) \<and>
           containedOperands (addDefStep orc U st4) = [] \<and>
           TrackUsed st0 X U j s (nextNode (fold (spillUseEdge U) [0..<j] st2)) (addDefStep orc U st4)"
    using st2 tr(2,3,4) [OF TA] eq addDefStep_SpillInv [OF inv4, of orc] stack4 T5
    unfolding stA_def [symmetric] L_def
    by (simp add: addDefStep_frame)
  show ?thesis
    by (rule exI [of _ st2], rule exI [of _ "addDefStep orc U st4"]) (rule final)
qed

lemma spilled_across_safe_point:
  assumes wf: "spillWellFormed st0"
    and range: "blockRange st0 = pre @ X # mid1 @ C # mid2 @ U # post"
    and X: "gtType (nodes st0 X) = TYP_REF" "\<not> gtContained (nodes st0 X)"
      "IsValue orc (nodes st0 X)" "\<not> gtLIRUnusedValue (nodes st0 X)"
      "isGcTemp orc st0 (nodes st0 X)"
    and C: "\<not> gtContained (nodes st0 C)" "isPotentialGcSafePoint orc (nodes st0 C)"
    and U: "\<not> gtContained (nodes st0 U)" "j < length (UseEdges (nodes st0 U))"
      "UseEdges (nodes st0 U) ! j = X"
    and single: "\<forall>u i. i < length (UseEdges (nodes st0 u)) \<longrightarrow> UseEdges (nodes st0 u) ! i = X \<longrightarrow>
                   u = U \<and> i = j"
  shows "\<exists>st1 st2 st' slot load.
           foldE (spillNode orc) (pre @ X # mid1 @ C # mid2) st0 = Inr st1 \<and>
           spillRetBuffer orc U (heapStep U st1) = Inr st2 \<and>
           load = nextNode (fold (spillUseEdge U) [0..<j] st2) \<and>
           load \<notin> set (blockRange (fold (spillUseEdge U) [0..<j] st2)) \<and>
           (\<exists>q1 q2. blockRange (spillUseEdge U j (fold (spillUseEdge U) [0..<j] st2)) =
                      q1 @ load # U # q2) \<and>
           spillLclsRef (spillUseEdge U j (fold (spillUseEdge U) [0..<j] st2)) =
             slot # spillLclsRef (fold (spillUseEdge U) [0..<j] st2) \<and>
           spillRange orc st0 = Inr st' \<and> TrackUsed st0 X U j slot load st'"
proof -
  have d: "distinct (pre @ X # mid1 @ C # mid2 @ U # post)"
    using wf range by (simp add: spillWellFormed_def)
  have old: "\<forall>x\<in>set (pre @ X # mid1 @ C # mid2 @ U # post). x < nextNode st0"
    using wf range by (simp add: spillWellFormed_def)
  have X0: "X < nextNode st0" and U0: "U < nextNode st0" using old by simp_all
  have su: "soleUse st0 X U j"
    unfolding soleUse_def
    by (intro conjI) (rule X0 X(1) X(2) U0 U(1) U(2) U(3) single)+
  have xu: "X \<noteq> U" using d by auto
  have stack0: "containedOperands st0 = []" using wf by (simp add: spillWellFormed_def)
  have ed0: "UseEdges (nodes st0 U) ! j = X" by (rule U(3))
  \<comment> \<open>the nodes before the definition\<close>
  have "\<exists>st'. foldE (spillNode orc) pre st0 = Inr st' \<and>
          SpillInv st0 ([] @ pre) (X # mid1 @ C # mid2 @ U # post) st' \<and>
          containedOperands st' = [] \<and> UseEdges (nodes st' U) ! j = X"
  proof (rule foldE_spillNode [where T = "\<lambda>s. UseEdges (nodes s U) ! j = X", OF wf _ _ _ stack0 ed0])
    show "blockRange st0 = [] @ pre @ X # mid1 @ C # mid2 @ U # post" using range by simp
    show "SpillInv st0 [] (pre @ X # mid1 @ C # mid2 @ U # post) st0"
      using SpillInv_initial [OF wf] range by simp
    fix p n t assume "n \<in> set pre"
    then have "n \<noteq> U" using d by auto
    then show "keptByNode orc st0 p n t (\<lambda>s. UseEdges (nodes s U) ! j = X)
                 (\<lambda>s. UseEdges (nodes s U) ! j = X)"
      by (rule keptByNode_before [OF su])
  qed
  then obtain sa where sa: "foldE (spillNode orc) pre st0 = Inr sa"
    "SpillInv st0 pre (X # mid1 @ C # mid2 @ U # post) sa" "containedOperands sa = []"
    "UseEdges (nodes sa U) ! j = X"
    by auto
  \<comment> \<open>the definition\<close>
  have "\<exists>st'. spillNode orc X sa = Inr st' \<and>
          SpillInv st0 (pre @ [X]) (mid1 @ C # mid2 @ U # post) st' \<and>
          RangeInv st0 pre (X # mid1 @ C # mid2 @ U # post) st' \<and> containedOperands st' = [] \<and>
          TrackLive st0 X U j st' \<and>
          (\<not> gtContained (nodes st0 X) \<longrightarrow> isPotentialGcSafePoint orc (nodes st0 X) \<longrightarrow>
             (\<forall>k. k \<noteq> X \<longrightarrow> TryGetValue k (liveGcDefs st') \<noteq> Some None))"
    by (rule spillNode_total [where T = "\<lambda>s. UseEdges (nodes s U) ! j = X", OF wf range sa(2,3,4)
              keptByNode_definition [OF su xu X(3,4,5)]])
  then obtain sb where sb: "spillNode orc X sa = Inr sb"
    "SpillInv st0 (pre @ [X]) (mid1 @ C # mid2 @ U # post) sb" "containedOperands sb = []"
    "TrackLive st0 X U j sb"
    by auto
  \<comment> \<open>the nodes between the definition and the safe point\<close>
  have "\<exists>st'. foldE (spillNode orc) mid1 sb = Inr st' \<and>
          SpillInv st0 ((pre @ [X]) @ mid1) (C # mid2 @ U # post) st' \<and>
          containedOperands st' = [] \<and> TrackLive st0 X U j st'"
  proof (rule foldE_spillNode [where T = "TrackLive st0 X U j", OF wf _ _ sb(2,3,4)])
    show "blockRange st0 = (pre @ [X]) @ mid1 @ C # mid2 @ U # post" using range by simp
    fix p n t assume "n \<in> set mid1"
    then have "n \<noteq> U" "n \<noteq> X" using d by auto
    then show "keptByNode orc st0 p n t (TrackLive st0 X U j) (TrackLive st0 X U j)"
      by (rule keptByNode_live [OF su])
  qed
  then obtain sc where sc: "foldE (spillNode orc) mid1 sb = Inr sc"
    "SpillInv st0 (pre @ X # mid1) (C # mid2 @ U # post) sc" "containedOperands sc = []"
    "TrackLive st0 X U j sc"
    by auto
  \<comment> \<open>the safe point\<close>
  have cn: "C \<noteq> U" "C \<noteq> X" using d by auto
  have rC: "blockRange st0 = (pre @ X # mid1) @ C # mid2 @ U # post" using range by simp
  have "\<exists>st'. spillNode orc C sc = Inr st' \<and>
          SpillInv st0 ((pre @ X # mid1) @ [C]) (mid2 @ U # post) st' \<and>
          RangeInv st0 (pre @ X # mid1) (C # mid2 @ U # post) st' \<and> containedOperands st' = [] \<and>
          TrackLive st0 X U j st' \<and>
          (\<not> gtContained (nodes st0 C) \<longrightarrow> isPotentialGcSafePoint orc (nodes st0 C) \<longrightarrow>
             (\<forall>k. k \<noteq> C \<longrightarrow> TryGetValue k (liveGcDefs st') \<noteq> Some None))"
    by (rule spillNode_total [where T = "TrackLive st0 X U j", OF wf rC sc(2,3,4)
              keptByNode_live [OF su cn]])
  then obtain sd where sd: "spillNode orc C sc = Inr sd"
    "SpillInv st0 (pre @ X # mid1 @ [C]) (mid2 @ U # post) sd" "containedOperands sd = []"
    "TrackLive st0 X U j sd"
    and slots: "\<forall>k. k \<noteq> C \<longrightarrow> TryGetValue k (liveGcDefs sd) \<noteq> Some None"
    using C by auto
  have "gtLIRMark (nodes sd X)" using sd(4) by (simp add: TrackLive_def)
  then have "TryGetValue X (liveGcDefs sd) \<noteq> None"
    using sd(2) unfolding SpillInv_def TableInv_def by blast
  moreover have "X \<noteq> C" using cn(2) by simp
  then have "TryGetValue X (liveGcDefs sd) \<noteq> Some None" using slots [rule_format, of X] by simp
  moreover note this
  ultimately obtain slot where slot: "TryGetValue X (liveGcDefs sd) = Some (Some slot)"
    by (cases "TryGetValue X (liveGcDefs sd)"; cases "the (TryGetValue X (liveGcDefs sd))") auto
  define TS where "TS = (\<lambda>st. TrackLive st0 X U j st \<and> TryGetValue X (liveGcDefs st) = Some (Some slot))"
  have TSd: "TS sd" using sd(4) slot by (simp add: TS_def)
  \<comment> \<open>the nodes between the safe point and the user\<close>
  have "\<exists>st'. foldE (spillNode orc) mid2 sd = Inr st' \<and>
          SpillInv st0 ((pre @ X # mid1 @ [C]) @ mid2) (U # post) st' \<and>
          containedOperands st' = [] \<and> TS st'"
  proof (rule foldE_spillNode [where T = TS, OF wf _ _ sd(2,3) TSd])
    show "blockRange st0 = (pre @ X # mid1 @ [C]) @ mid2 @ U # post" using range by simp
    fix p n t assume "n \<in> set mid2"
    then have "n \<noteq> U" "n \<noteq> X" using d by auto
    then show "keptByNode orc st0 p n t TS TS"
      unfolding TS_def by (rule keptByNode_slot [OF su])
  qed
  then obtain se where se: "foldE (spillNode orc) mid2 sd = Inr se"
    "SpillInv st0 (pre @ X # mid1 @ C # mid2) (U # post) se" "containedOperands se = []"
    "TrackLive st0 X U j se" "TryGetValue X (liveGcDefs se) = Some (Some slot)"
    by (auto simp add: TS_def)
  \<comment> \<open>the user\<close>
  have rU: "blockRange st0 = (pre @ X # mid1 @ C # mid2) @ U # post" using range by simp
  obtain st2 sf where sf: "spillRetBuffer orc U (heapStep U se) = Inr st2"
    "nextNode (fold (spillUseEdge U) [0..<j] st2) \<notin>
       set (blockRange (fold (spillUseEdge U) [0..<j] st2))"
    "\<exists>q1 q2. blockRange (spillUseEdge U j (fold (spillUseEdge U) [0..<j] st2)) =
               q1 @ nextNode (fold (spillUseEdge U) [0..<j] st2) # U # q2"
    "spillLclsRef (spillUseEdge U j (fold (spillUseEdge U) [0..<j] st2)) =
       slot # spillLclsRef (fold (spillUseEdge U) [0..<j] st2)"
    "spillNode orc U se = Inr sf" "SpillInv st0 ((pre @ X # mid1 @ C # mid2) @ [U]) post sf"
    "containedOperands sf = []"
    "TrackUsed st0 X U j slot (nextNode (fold (spillUseEdge U) [0..<j] st2)) sf"
    using spillNode_use [OF wf rU se(2,3) su xu se(4,5), of orc] by blast
  define load where "load = nextNode (fold (spillUseEdge U) [0..<j] st2)"
  \<comment> \<open>the nodes after the user\<close>
  have "\<exists>st'. foldE (spillNode orc) post sf = Inr st' \<and>
          SpillInv st0 (((pre @ X # mid1 @ C # mid2) @ [U]) @ post) [] st' \<and>
          containedOperands st' = [] \<and> TrackUsed st0 X U j slot load st'"
  proof (rule foldE_spillNode [where T = "TrackUsed st0 X U j slot load", OF wf _ _ _ sf(7)])
    show "blockRange st0 = ((pre @ X # mid1 @ C # mid2) @ [U]) @ post @ []" using range by simp
    show "SpillInv st0 ((pre @ X # mid1 @ C # mid2) @ [U]) (post @ []) sf" using sf(6) by simp
    show "TrackUsed st0 X U j slot load sf" using sf(8) by (simp add: load_def)
    fix p n t assume "n \<in> set post"
    then have "n \<noteq> U" "n \<noteq> X" using d by auto
    then show "keptByNode orc st0 p n t (TrackUsed st0 X U j slot load) (TrackUsed st0 X U j slot load)"
      by (rule keptByNode_used [OF su])
  qed
  then obtain sg where sg: "foldE (spillNode orc) post sf = Inr sg" "TrackUsed st0 X U j slot load sg"
    by auto
  have before: "foldE (spillNode orc) (pre @ X # mid1 @ C # mid2) st0 = Inr se"
    using sa(1) sb(1) sc(1) sd(1) se(1) by (simp add: foldE_append bindE_def)
  have "foldE (spillNode orc) ((pre @ X # mid1 @ C # mid2) @ U # post) st0 =
          bindE (foldE (spillNode orc) (pre @ X # mid1 @ C # mid2) st0) (foldE (spillNode orc) (U # post))"
    by (rule foldE_append)
  also have "\<dots> = Inr sg" unfolding before using sf(5) sg(1) by (simp add: bindE_def)
  finally have "foldE (spillNode orc) ((pre @ X # mid1 @ C # mid2) @ U # post) st0 = Inr sg" .
  then have all: "spillRange orc st0 = Inr sg"
    using spillRange_foldE [OF wf, of orc] range by simp
  show ?thesis
    apply (rule exI [of _ se], rule exI [of _ st2], rule exI [of _ sg], rule exI [of _ slot],
           rule exI [of _ load])
    using before sf(1,2,3,4) all sg(2) unfolding load_def by simp
qed

subsection \<open>A reference live across a safe point\<close>

text \<open>
  C1, as the claim states it: for a block with a definition of reference type, a safe-point
  call after it and a use of the definition after the call, the spiller puts a store right
  after the definition. It does not when the definition is the read of a local: in the
  block \<open>t0 = LCL_VAR<ref>; CALL; t2 = LCL_VAR<ref>; STOREIND(t2, t0)\<close> the spiller leaves the
  range as it is.
\<close>
theorem C1_counterexample:
  "gtType (nodes exampleSpillLocal 0) = TYP_REF \<and>
   isPotentialGcSafePoint exampleOracles (nodes exampleSpillLocal 1) \<and>
   UseEdges (nodes exampleSpillLocal 3) = [2, 0] \<and>
   blockRange exampleSpillLocal = [0, 1, 2, 3] \<and>
   map_sum id blockRange (spillRange exampleOracles exampleSpillLocal) = Inr [0, 1, 2, 3]"
  by (simp add: spillRange_def forEachNodeFrom.simps spillNode_def spillUsers.simps
        spillUseEdges_def spillUseEdge_def spillRetBuffer_def GetRetBufferArg_def
        spillLiveDef_def spillValue_def getSpillLcl_def releaseSpillLcl_def
        isGcTemp_def IsValue_def isPotentialGcSafePoint_def AddOrUpdate_def
        DeterministicNodeHashInfo_GetHashCode_def DeterministicNodeHashInfo_Equals_def
        gtNewTempStore_def gtNewLclVarNode_def gtNewLclvNode_def newNode_def updNode_def
        updLcl_def lvaGrabTemp_def lvaSetStruct_def GetLayout_def
        exampleSpillLocal_def exampleOracles_def blankNode_def blankLclVarDsc_def
        UseEdges_def setUseEdge_def FirstNode_def varTypeIsGC_def OperIsLocal_def
        Let_def split_beta upt_rec bindE_def)

text \<open>
  C1, amended: let the block be well formed (\<open>spillWellFormed\<close>) and hold, in this order, a
  node \<open>X\<close> of type \<open>TYP_REF\<close> that is not contained and is a GC temp (a used value that is not
  a local, a local address or a constant handle), a safe point \<open>C\<close> that is not contained,
  and a node \<open>U\<close> that is not contained and whose \<open>j\<close>-th operand is the only use of \<open>X\<close>.
  Then the walk of the block returns, and in its result a new store of \<open>X\<close> to a slot stands
  right after \<open>X\<close>, the \<open>j\<close>-th operand of \<open>U\<close> is a new read of that slot, which stands
  before \<open>U\<close> with only new reads of locals between them, and the slot is a local of type
  \<open>TYP_REF\<close>. The read was put right before \<open>U\<close>, and the slot pushed on the reference
  free-list, by the step that handled the \<open>j\<close>-th operand edge of \<open>U\<close>.
\<close>
theorem C1_spilled_across_safe_point:
  assumes "spillWellFormed st0"
    and "blockRange st0 = pre @ X # mid1 @ C # mid2 @ U # post"
    and "gtType (nodes st0 X) = TYP_REF" and "\<not> gtContained (nodes st0 X)"
    and "IsValue orc (nodes st0 X)" and "\<not> gtLIRUnusedValue (nodes st0 X)"
    and "isGcTemp orc st0 (nodes st0 X)"
    and "\<not> gtContained (nodes st0 C)" and "isPotentialGcSafePoint orc (nodes st0 C)"
    and "\<not> gtContained (nodes st0 U)" and "j < length (UseEdges (nodes st0 U))"
    and "UseEdges (nodes st0 U) ! j = X"
    and "\<forall>u i. i < length (UseEdges (nodes st0 u)) \<longrightarrow> UseEdges (nodes st0 u) ! i = X \<longrightarrow>
               u = U \<and> i = j"
  shows "\<exists>st1 st2 st' slot store load.
           foldE (spillNode orc) (pre @ X # mid1 @ C # mid2) st0 = Inr st1 \<and>
           spillRetBuffer orc U
             (if gtOper (nodes st1 U) = GT_LCLHEAP then st1\<lparr>lclHeapUsed := True\<rparr> else st1) = Inr st2 \<and>
           load \<notin> set (blockRange (fold (spillUseEdge U) [0..<j] st2)) \<and>
           (\<exists>q1 q2. blockRange (spillUseEdge U j (fold (spillUseEdge U) [0..<j] st2)) =
                      q1 @ load # U # q2) \<and>
           spillLclsRef (spillUseEdge U j (fold (spillUseEdge U) [0..<j] st2)) =
             slot # spillLclsRef (fold (spillUseEdge U) [0..<j] st2) \<and>
           spillRange orc st0 = Inr st' \<and>
           (\<exists>r1 r2. blockRange st' = r1 @ X # store # r2) \<and>
           nextNode st0 \<le> store \<and> gtOper (nodes st' store) = GT_STORE_LCL_VAR \<and>
           gtLclNum (nodes st' store) = slot \<and> UseEdges (nodes st' store) = [X] \<and>
           UseEdges (nodes st' U) ! j = load \<and>
           nextNode st0 \<le> load \<and> gtOper (nodes st' load) = GT_LCL_VAR \<and>
           gtLclNum (nodes st' load) = slot \<and>
           (\<exists>r1 ls r2. blockRange st' = r1 @ load # ls @ U # r2 \<and>
               (\<forall>l\<in>set ls. nextNode st0 \<le> l \<and> gtOper (nodes st' l) = GT_LCL_VAR)) \<and>
           lvType (lvaTable st' slot) = TYP_REF"
proof -
  obtain st1 st2 st' slot load where r:
    "foldE (spillNode orc) (pre @ X # mid1 @ C # mid2) st0 = Inr st1"
    "spillRetBuffer orc U (heapStep U st1) = Inr st2"
    "load = nextNode (fold (spillUseEdge U) [0..<j] st2)"
    "load \<notin> set (blockRange (fold (spillUseEdge U) [0..<j] st2))"
    "\<exists>q1 q2. blockRange (spillUseEdge U j (fold (spillUseEdge U) [0..<j] st2)) = q1 @ load # U # q2"
    "spillLclsRef (spillUseEdge U j (fold (spillUseEdge U) [0..<j] st2)) =
       slot # spillLclsRef (fold (spillUseEdge U) [0..<j] st2)"
    "spillRange orc st0 = Inr st'" "TrackUsed st0 X U j slot load st'"
    using spilled_across_safe_point [OF assms] by blast
  note tu = TrackUsedD [OF r(8)]
  obtain store r1 r2 where s: "slot < lvaCount st'" "lvType (lvaTable st' slot) = TYP_REF"
    "blockRange st' = r1 @ X # store # r2" "isFresh st0 st' store"
    "gtOper (nodes st' store) = GT_STORE_LCL_VAR" "gtLclNum (nodes st' store) = slot"
    "UseEdges (nodes st' store) = [X]"
    using tu(1) unfolding Spilled_def by blast
  obtain r3 ls r4 where l: "blockRange st' = r3 @ load # ls @ U # r4"
    "\<forall>l\<in>set ls. isFresh st0 st' l \<and> gtOper (nodes st' l) = GT_LCL_VAR"
    using tu(7) unfolding Stretch_def by blast
  have ls: "\<forall>l\<in>set ls. nextNode st0 \<le> l \<and> gtOper (nodes st' l) = GT_LCL_VAR"
    using l(2) by (simp add: isFresh_def)
  have stretch: "\<exists>r1 ls r2. blockRange st' = r1 @ load # ls @ U # r2 \<and>
               (\<forall>l\<in>set ls. nextNode st0 \<le> l \<and> gtOper (nodes st' l) = GT_LCL_VAR)"
    using l(1) ls by blast
  have pair: "\<exists>r1 r2. blockRange st' = r1 @ X # store # r2" using s(3) by blast
  have fr: "nextNode st0 \<le> store" "nextNode st0 \<le> load"
    using s(4) tu(4) by (simp_all add: isFresh_def)
  have final: "foldE (spillNode orc) (pre @ X # mid1 @ C # mid2) st0 = Inr st1 \<and>
           spillRetBuffer orc U
             (if gtOper (nodes st1 U) = GT_LCLHEAP then st1\<lparr>lclHeapUsed := True\<rparr> else st1) = Inr st2 \<and>
           load \<notin> set (blockRange (fold (spillUseEdge U) [0..<j] st2)) \<and>
           (\<exists>q1 q2. blockRange (spillUseEdge U j (fold (spillUseEdge U) [0..<j] st2)) =
                      q1 @ load # U # q2) \<and>
           spillLclsRef (spillUseEdge U j (fold (spillUseEdge U) [0..<j] st2)) =
             slot # spillLclsRef (fold (spillUseEdge U) [0..<j] st2) \<and>
           spillRange orc st0 = Inr st' \<and>
           (\<exists>r1 r2. blockRange st' = r1 @ X # store # r2) \<and>
           nextNode st0 \<le> store \<and> gtOper (nodes st' store) = GT_STORE_LCL_VAR \<and>
           gtLclNum (nodes st' store) = slot \<and> UseEdges (nodes st' store) = [X] \<and>
           UseEdges (nodes st' U) ! j = load \<and>
           nextNode st0 \<le> load \<and> gtOper (nodes st' load) = GT_LCL_VAR \<and>
           gtLclNum (nodes st' load) = slot \<and>
           (\<exists>r1 ls r2. blockRange st' = r1 @ load # ls @ U # r2 \<and>
               (\<forall>l\<in>set ls. nextNode st0 \<le> l \<and> gtOper (nodes st' l) = GT_LCL_VAR)) \<and>
           lvType (lvaTable st' slot) = TYP_REF"
    using r(1,4,5,6,7) r(2) [unfolded heapStep_def] pair fr s(2,5,6,7) tu(3,5,6) stretch
    by (intro conjI) assumption+
  show ?thesis
    by (rule exI [of _ st1], rule exI [of _ st2], rule exI [of _ st'], rule exI [of _ slot],
        rule exI [of _ store], rule exI [of _ load]) (rule final)
qed

theorem C1_witness:
  "spillWellFormed exampleSpill \<and>
   blockRange exampleSpill = [0] @ 1 # [] @ 2 # [3] @ 4 # [] \<and>
   gtType (nodes exampleSpill 1) = TYP_REF \<and>
   isGcTemp exampleOracles exampleSpill (nodes exampleSpill 1) \<and>
   isPotentialGcSafePoint exampleOracles (nodes exampleSpill 2) \<and>
   UseEdges (nodes exampleSpill 4) ! 1 = 1 \<and>
   (\<exists>st' slot store load.
      spillRange exampleOracles exampleSpill = Inr st' \<and>
      (\<exists>r1 r2. blockRange st' = r1 @ 1 # store # r2) \<and>
      gtOper (nodes st' store) = GT_STORE_LCL_VAR \<and> gtLclNum (nodes st' store) = slot \<and>
      UseEdges (nodes st' store) = [1] \<and> UseEdges (nodes st' 4) ! 1 = load \<and>
      gtOper (nodes st' load) = GT_LCL_VAR \<and> gtLclNum (nodes st' load) = slot \<and>
      lvType (lvaTable st' slot) = TYP_REF)"
proof -
  have edges: "UseEdges (nodes exampleSpill u) =
      (if u = 1 then [0] else if u = 4 then [3, 1] else [])" for u
    by (simp add: exampleSpill_def UseEdges_def blankNode_def)
  have nc: "\<not> gtContained (nodes exampleSpill u)" for u
    by (simp add: exampleSpill_def blankNode_def)
  have h1: "spillWellFormed exampleSpill"
    unfolding spillWellFormed_def using nc
    by (simp add: exampleSpill_def blankNode_def)
  have h2: "blockRange exampleSpill = [0] @ 1 # [] @ 2 # [3] @ 4 # []"
    by (simp add: exampleSpill_def)
  have h3: "gtType (nodes exampleSpill 1) = TYP_REF" by (simp add: exampleSpill_def blankNode_def)
  have h4: "\<not> gtContained (nodes exampleSpill 1)" by (rule nc)
  have h5: "IsValue exampleOracles (nodes exampleSpill 1)"
    by (simp add: exampleSpill_def IsValue_def exampleOracles_def blankNode_def)
  have h6: "\<not> gtLIRUnusedValue (nodes exampleSpill 1)" by (simp add: exampleSpill_def blankNode_def)
  have h7: "isGcTemp exampleOracles exampleSpill (nodes exampleSpill 1)"
    by (simp add: exampleSpill_def isGcTemp_def varTypeIsGC_def OperIsLocal_def blankNode_def)
  have h8: "\<not> gtContained (nodes exampleSpill 2)" by (rule nc)
  have h9: "isPotentialGcSafePoint exampleOracles (nodes exampleSpill 2)"
    by (simp add: exampleSpill_def isPotentialGcSafePoint_def exampleOracles_def blankNode_def)
  have h10: "\<not> gtContained (nodes exampleSpill 4)" by (rule nc)
  have h11: "1 < length (UseEdges (nodes exampleSpill 4))" by (simp add: edges)
  have h12: "UseEdges (nodes exampleSpill 4) ! 1 = 1" by (simp add: edges)
  have h13: "\<forall>u i. i < length (UseEdges (nodes exampleSpill u)) \<longrightarrow>
               UseEdges (nodes exampleSpill u) ! i = 1 \<longrightarrow> u = 4 \<and> i = 1"
    by (auto simp add: edges less_Suc_eq split: if_splits)
  from C1_spilled_across_safe_point [OF h1 h2 h3 h4 h5 h6 h7 h8 h9 h10 h11 h12 h13]
  have "\<exists>st' slot store load.
      spillRange exampleOracles exampleSpill = Inr st' \<and>
      (\<exists>r1 r2. blockRange st' = r1 @ 1 # store # r2) \<and>
      gtOper (nodes st' store) = GT_STORE_LCL_VAR \<and> gtLclNum (nodes st' store) = slot \<and>
      UseEdges (nodes st' store) = [1] \<and> UseEdges (nodes st' 4) ! 1 = load \<and>
      gtOper (nodes st' load) = GT_LCL_VAR \<and> gtLclNum (nodes st' load) = slot \<and>
      lvType (lvaTable st' slot) = TYP_REF"
    by blast
  then show ?thesis using h1 h2 h3 h7 h9 h12 by blast
qed

end
